(* ===== verification/Gale_Base.thy ===== *)
theory Gale_Base
  imports Main "HOL-Library.Word" "HOL-Library.Monad_Syntax" "HOL-Library.Multiset"
begin

text \<open>
  The prelude of the development: the machine integers of the Rust sources, the panic
  monad in which every checked operation of the code lives, fixed-size arrays, and the
  generic lemmas on them that the component theories share.

  All profiles of the crate are built with overflow checks on (Cargo.toml), so an
  arithmetic operation that leaves its type panics instead of wrapping. A definition that
  can panic therefore returns an option: \<^term>\<open>None\<close> is a panic (overflow, index out of
  range, unwrap of None) and \<^term>\<open>Some x\<close> is a normal return. Sequencing is the bind of
  the option monad. A definition whose source cannot panic is a plain function.
\<close>

unbundle bit_operations_syntax

section \<open>Types\<close>

type_synonym u8 = "8 word"
type_synonym u16 = "16 word"
type_synonym u32 = "32 word"
type_synonym u64 = "64 word"

text \<open>
  Signed 32-bit values are only stored, compared and returned by the modelled code (error
  codes and thread return values), so they are integers. Code that computes on signed
  values uses the word types and \<^const>\<open>sint\<close> instead.
\<close>

type_synonym i32 = int

text \<open>The outcome of code that may panic, and Rust's Result with its i32 error.\<close>

type_synonym 'a run = "'a option"
type_synonym 'a result = "i32 + 'a"

abbreviation (input) Ret :: "'a \<Rightarrow> 'a run" where
  "Ret \<equiv> Some"

abbreviation (input) Panic :: "'a run" where
  "Panic \<equiv> None"

abbreviation (input) Err :: "i32 \<Rightarrow> 'a result" where
  "Err \<equiv> Inl"

abbreviation (input) Ok :: "'a \<Rightarrow> 'a result" where
  "Ok \<equiv> Inr"

named_theorems run_simps \<open>evaluation of checked operations under their side conditions\<close>
named_theorems inv_defs \<open>representation invariants, to be unfolded together\<close>

section \<open>Checked arithmetic and array access\<close>

definition add_chk :: "'a::len word \<Rightarrow> 'a word \<Rightarrow> 'a word run" where
  "add_chk a b = (if unat a + unat b < 2 ^ LENGTH('a) then Ret (a + b) else Panic)"

definition sub_chk :: "'a::len word \<Rightarrow> 'a word \<Rightarrow> 'a word run" where
  "sub_chk a b = (if b \<le> a then Ret (a - b) else Panic)"

definition mul_chk :: "'a::len word \<Rightarrow> 'a word \<Rightarrow> 'a word run" where
  "mul_chk a b = (if unat a * unat b < 2 ^ LENGTH('a) then Ret (a * b) else Panic)"

text \<open>
  The standard library's checked_add and checked_mul return None on overflow; here that
  None is a value of the program, not a panic.
\<close>

definition checked_add :: "'a::len word \<Rightarrow> 'a word \<Rightarrow> 'a word option" where
  "checked_add a b = (if unat a + unat b < 2 ^ LENGTH('a) then Some (a + b) else None)"

definition checked_mul :: "'a::len word \<Rightarrow> 'a word \<Rightarrow> 'a word option" where
  "checked_mul a b = (if unat a * unat b < 2 ^ LENGTH('a) then Some (a * b) else None)"

text \<open>A shift panics when the distance reaches the width.\<close>

definition shl_chk :: "'a::len word \<Rightarrow> nat \<Rightarrow> 'a word run" where
  "shl_chk a n = (if n < LENGTH('a) then Ret (push_bit n a) else Panic)"

definition shr_chk :: "'a::len word \<Rightarrow> nat \<Rightarrow> 'a word run" where
  "shr_chk a n = (if n < LENGTH('a) then Ret (drop_bit n a) else Panic)"

definition arr_get :: "'a list \<Rightarrow> nat \<Rightarrow> 'a run" where
  "arr_get xs i = (if i < length xs then Ret (xs ! i) else Panic)"

definition arr_set :: "'a list \<Rightarrow> nat \<Rightarrow> 'a \<Rightarrow> 'a list run" where
  "arr_set xs i v = (if i < length xs then Ret (xs[i := v]) else Panic)"

definition unwrap :: "'a option \<Rightarrow> 'a run" where
  "unwrap x = (case x of None \<Rightarrow> Panic | Some v \<Rightarrow> Ret v)"

definition u32_max :: u32 where
  "u32_max = 0xFFFFFFFF"

definition u64_max :: u64 where
  "u64_max = 0xFFFFFFFFFFFFFFFF"

section \<open>Lemmas on checked arithmetic\<close>

lemma add_chk_Some [run_simps]:
  "unat a + unat b < 2 ^ LENGTH('a) \<Longrightarrow> add_chk a b = Some (a + b)" for a b :: "'a::len word"
  by (simp add: add_chk_def)

lemma sub_chk_Some [run_simps]: "b \<le> a \<Longrightarrow> sub_chk a b = Some (a - b)"
  by (simp add: sub_chk_def)

lemma unwrap_Some [simp]: "unwrap (Some x) = Some x"
  and unwrap_None [simp]: "unwrap None = None"
  by (simp_all add: unwrap_def)

lemma arr_get_Some [run_simps]: "i < length xs \<Longrightarrow> arr_get xs i = Some (xs ! i)"
  by (simp add: arr_get_def)

lemma arr_set_Some [run_simps]: "i < length xs \<Longrightarrow> arr_set xs i v = Some (xs[i := v])"
  by (simp add: arr_set_def)

lemma unat_plus_one:
  fixes a b :: "'a::len word"
  assumes "a < b"
  shows "unat (a + 1) = unat a + 1"
  using assms by unat_arith

text \<open>A word below another one can be incremented without a panic.\<close>

lemma add_chk_one [run_simps]:
  fixes a b :: "'a::len word"
  assumes "a < b"
  shows "add_chk a 1 = Some (a + 1)"
proof -
  have "unat b < 2 ^ LENGTH('a)" by (rule unsigned_less)
  moreover have "unat a < unat b" using assms by (simp add: word_less_nat_alt)
  moreover have "unat (1 :: 'a word) = 1" by simp
  ultimately have "unat a + unat (1 :: 'a word) < 2 ^ LENGTH('a)" by linarith
  then show ?thesis by (rule add_chk_Some)
qed

lemma sub_chk_one [run_simps]:
  fixes a :: "'a::len word"
  assumes "a \<noteq> 0"
  shows "sub_chk a 1 = Some (a - 1)"
proof -
  have "1 \<le> a" using assms by (simp add: word_le_nat_alt Suc_le_eq unat_gt_0)
  then show ?thesis by (rule sub_chk_Some)
qed

lemma unat_diff [run_simps]: "b \<le> a \<Longrightarrow> unat (a - b) = unat a - unat b" for a b :: "'a::len word"
  by (rule unat_sub)

lemma add_chk_eq_Some_iff:
  "add_chk a b = Some c \<longleftrightarrow> unat a + unat b < 2 ^ LENGTH('a) \<and> c = a + b" for a b c :: "'a::len word"
  by (auto simp: add_chk_def)

lemma add_chk_unat:
  fixes a b c :: "'a::len word"
  assumes "add_chk a b = Some c"
  shows "unat c = unat a + unat b"
  using assms by (auto simp: add_chk_eq_Some_iff unat_word_ariths)

lemma sub_chk_eq_Some_iff: "sub_chk a b = Some c \<longleftrightarrow> b \<le> a \<and> c = a - b"
  by (auto simp: sub_chk_def)

lemma unat_u32_less: "unat (c :: u32) < 4294967296"
  and unat_u64_less: "unat (d :: u64) < 18446744073709551616"
  using unsigned_less [of c, where ?'a = nat] unsigned_less [of d, where ?'a = nat] by simp_all

lemma unat_u32_max [simp]: "unat u32_max = 4294967295"
  and unat_u64_max [simp]: "unat u64_max = 18446744073709551615"
  by (simp_all add: u32_max_def u64_max_def)

lemma add_chk_one_u32: "add_chk c 1 = (if c = u32_max then None else Some (c + 1))" for c :: u32
proof -
  have "c = u32_max \<longleftrightarrow> unat c = 4294967295"
    by (metis unat_u32_max word_unat_eq_iff)
  then show ?thesis using unat_u32_less [of c] by (auto simp: add_chk_def)
qed

lemma add_chk_one_u64: "add_chk c 1 = (if c = u64_max then None else Some (c + 1))" for c :: u64
proof -
  have "c = u64_max \<longleftrightarrow> unat c = 18446744073709551615"
    by (metis unat_u64_max word_unat_eq_iff)
  then show ?thesis using unat_u64_less [of c] by (auto simp: add_chk_def)
qed

lemma u32_less_max_iff: "c < u32_max \<longleftrightarrow> c \<noteq> u32_max"
  and u64_less_max_iff: "d < u64_max \<longleftrightarrow> d \<noteq> u64_max"
  using unat_u32_less [of c] unat_u64_less [of d]
  by (auto simp: word_less_nat_alt word_unat_eq_iff)

lemma uint_plus_one:
  assumes "c \<noteq> u32_max"
  shows "uint (c + 1) = uint c + 1"
proof -
  have "int (unat (c + 1)) = int (unat c) + 1"
    using unat_plus_one [of c u32_max] assms u32_less_max_iff [of c] by linarith
  then show ?thesis by simp
qed

lemma uint_minus_one:
  fixes c :: "'a::len word"
  assumes "c \<noteq> 0"
  shows "uint (c - 1) = uint c - 1"
proof -
  have "unat c = unat (c - 1) + 1"
    using unat_minus_one [OF assms] assms unat_gt_0 [of c] by linarith
  then have "int (unat c) = int (unat (c - 1)) + 1"
    by linarith
  then show ?thesis by simp
qed

text \<open>Conversions between the widths.\<close>

lemma unat_ucast_u64 [simp]: "unat (ucast a :: u64) = unat a" for a :: u32
  using unat_u32_less [of a] by (simp add: unsigned_ucast_eq take_bit_nat_eq_self)

lemma unat_ucast_u32: "unat w < 4294967296 \<Longrightarrow> unat (ucast w :: u32) = unat w" for w :: u64
  by (simp add: unsigned_ucast_eq take_bit_nat_eq_self)

text \<open>A bit field of a register.\<close>

lemma unat_field: "unat (drop_bit n w AND mask k) = unat w div 2 ^ n mod 2 ^ k" for w :: "'a::len word"
proof -
  have "unat (drop_bit n w AND mask k) = take_bit k (drop_bit n (unat w))"
    by (simp only: take_bit_eq_mask [symmetric] unsigned_take_bit_eq unat_drop_bit_eq)
  then show ?thesis by (simp only: take_bit_eq_mod drop_bit_eq_div)
qed

lemma even_unat: "even (unat w) \<longleftrightarrow> even w" for w :: "'a::len word"
  using bit_unsigned_iff [of w 0, where ?'a = nat] by (simp add: bit_0)

section \<open>Counting loops\<close>

text \<open>A loop whose counter runs up to n: done from n on, and one step further below it.\<close>

lemma upto_induct [case_names stop step]:
  fixes i n :: nat
  assumes "\<And>i. n \<le> i \<Longrightarrow> P i" and "\<And>i. i < n \<Longrightarrow> P (i + 1) \<Longrightarrow> P i"
  shows "P i"
proof (induction "n - i" arbitrary: i)
  case 0
  then show ?case by (simp add: assms(1))
next
  case (Suc m)
  then have "P (i + 1)" by simp
  then show ?case using assms(2) [of i] Suc.hyps(2) by simp
qed

lemma all_from_Suc: "i < n \<Longrightarrow> (\<forall>l. i \<le> l \<and> l < n \<longrightarrow> P l) \<longleftrightarrow> P i \<and> (\<forall>l. i + 1 \<le> l \<and> l < n \<longrightarrow> P l)"
  for i n :: nat
  by (metis Suc_eq_plus1 Suc_le_eq le_less)

lemma ex_from_Suc: "i < n \<Longrightarrow> (\<exists>l. i \<le> l \<and> l < n \<and> P l) \<longleftrightarrow> P i \<or> (\<exists>l. i + 1 \<le> l \<and> l < n \<and> P l)"
  for i n :: nat
  by (metis Suc_eq_plus1 Suc_le_eq le_less)

text \<open>A loop that returns at the first index that satisfies a test.\<close>

lemma scan_eq:
  assumes "\<And>i. f i = (if i < n then (if P i then R i else f (i + 1)) else d)"
  shows "f i = (case List.find P [i..<n] of Some j \<Rightarrow> R j | None \<Rightarrow> d)"
proof (induction i rule: upto_induct [where n = n])
  case (stop i)
  then show ?case by (subst assms) simp
next
  case (step i)
  then show ?case by (subst assms) (simp add: upt_conv_Cons)
qed

lemma find_Some_first:
  assumes "List.find P [0..<n] = Some i"
  shows "i < n" "P i" "\<And>j. j < i \<Longrightarrow> \<not> P j"
  using assms by (auto simp: find_Some_iff)

lemma find_None_all: "List.find P [0..<n] = None \<longleftrightarrow> (\<forall>i<n. \<not> P i)"
  by (auto simp: find_None_iff)

section \<open>Labelled executions\<close>

text \<open>
  The components that several threads share are state machines; an execution is a
  sequence of labelled steps, the last one last.
\<close>

inductive trace :: "('s \<Rightarrow> 'e \<Rightarrow> 's \<Rightarrow> bool) \<Rightarrow> 's \<Rightarrow> 'e list \<Rightarrow> 's \<Rightarrow> bool"
  for step :: "'s \<Rightarrow> 'e \<Rightarrow> 's \<Rightarrow> bool" and s0 :: 's where
  trace_Nil: "trace step s0 [] s0"
| trace_snoc: "trace step s0 es s \<Longrightarrow> step s e s' \<Longrightarrow> trace step s0 (es @ [e]) s'"

lemma trace_invariant:
  assumes "trace step s0 es s" and "P s0" and "\<And>s e s'. P s \<Longrightarrow> step s e s' \<Longrightarrow> P s'"
  shows "P s"
  using assms by (induction rule: trace.induct) auto

lemma trace_snocI: "trace step s0 es s \<Longrightarrow> step s e s' \<Longrightarrow> es' = es @ [e] \<Longrightarrow> trace step s0 es' s'"
  by (simp add: trace_snoc)

lemma trace_one:
  assumes "step s0 e s1"
  shows "trace step s0 [e] s1"
  using trace_snoc [of step, OF trace_Nil [of step] assms] by simp

lemma trace_two:
  assumes "step s0 e s1" and "step s1 f s2"
  shows "trace step s0 [e, f] s2"
  using trace_snoc [of step, OF trace_one [of step, OF assms(1)] assms(2)] by simp

text \<open>Some event of the history satisfies G and no later one satisfies T.\<close>

definition since :: "('e \<Rightarrow> bool) \<Rightarrow> ('e \<Rightarrow> bool) \<Rightarrow> 'e list \<Rightarrow> bool" where
  "since G T es \<longleftrightarrow> (\<exists>pre e post. es = pre @ e # post \<and> G e \<and> (\<forall>q\<in>set post. \<not> T q))"

lemma since_Nil [simp]: "\<not> since G T []"
  by (simp add: since_def)

lemma since_snoc [simp]: "since G T (es @ [x]) \<longleftrightarrow> G x \<or> since G T es \<and> \<not> T x"
proof
  assume "since G T (es @ [x])"
  then obtain pre e post where p: "es @ [x] = pre @ e # post" "G e" "\<forall>q\<in>set post. \<not> T q"
    unfolding since_def by blast
  show "G x \<or> since G T es \<and> \<not> T x"
  proof (cases post rule: rev_cases)
    case Nil
    then show ?thesis using p by simp
  next
    case (snoc ys y)
    then have "es = pre @ e # ys" "x = y" using p(1) by (simp_all flip: append_assoc)
    then show ?thesis using p(2,3) snoc by (auto simp: since_def)
  qed
next
  assume "G x \<or> since G T es \<and> \<not> T x"
  then show "since G T (es @ [x])"
  proof
    assume "G x"
    then show ?thesis unfolding since_def by (intro exI [of _ es] exI [of _ x] exI [of _ "[]"]) simp
  next
    assume s: "since G T es \<and> \<not> T x"
    then obtain pre e post where "es = pre @ e # post" "G e" "\<forall>q\<in>set post. \<not> T q"
      unfolding since_def by blast
    then show ?thesis using s unfolding since_def by (intro exI [of _ pre] exI [of _ e] exI [of _ "post @ [x]"]) auto
  qed
qed

text \<open>Checked 32-bit arithmetic read on natural numbers.\<close>

lemma u32_plus: "unat a + unat b < 4294967296 \<Longrightarrow> unat (a + b) = unat a + unat b" for a b :: u32
  by (simp add: unat_add_lem [THEN iffD1])

lemmas u32_minus = unat_sub [where ?'a = 32]

lemma add_u32_iff: "add_chk a b = Some c \<longleftrightarrow> unat a + unat b < 4294967296 \<and> unat c = unat a + unat b" for a b c :: u32
  using u32_plus [of a b] by (auto simp: add_chk_eq_Some_iff word_unat_eq_iff)

lemma sub_u32_iff: "sub_chk a b = Some c \<longleftrightarrow> unat b \<le> unat a \<and> unat c = unat a - unat b" for a b c :: u32
  using u32_minus [of b a] by (auto simp: sub_chk_eq_Some_iff word_unat_eq_iff word_le_nat_alt)

lemma add_u32_None: "add_chk a b = None \<longleftrightarrow> 4294967296 \<le> unat a + unat b" for a b :: u32
  by (auto simp: add_chk_def)

lemma sub_u32_None: "sub_chk a b = None \<longleftrightarrow> unat a < unat b" for a b :: u32
  by (auto simp: sub_chk_def word_le_nat_alt)

lemma mul_u32_iff: "mul_chk a b = Some c \<longleftrightarrow> unat a * unat b < 4294967296 \<and> unat c = unat a * unat b" for a b c :: u32
  by (auto simp: mul_chk_def word_unat_eq_iff unat_mult_lem [THEN iffD1])

lemmas u32_iffs = mul_u32_iff add_u32_None sub_u32_None add_u32_iff sub_u32_iff word_le_nat_alt word_less_nat_alt word_unat_eq_iff

text \<open>The same at every width.\<close>

lemma add_chk_nat: "add_chk a b = Some c \<longleftrightarrow> unat a + unat b < 2 ^ LENGTH('a) \<and> unat c = unat a + unat b" for a b c :: "'a::len word"
  using unat_add_lem [of a b] by (auto simp: add_chk_eq_Some_iff word_unat_eq_iff)

lemma add_chk_None: "add_chk a b = None \<longleftrightarrow> 2 ^ LENGTH('a) \<le> unat a + unat b" for a b :: "'a::len word"
  by (auto simp: add_chk_def)

lemma sub_chk_nat: "sub_chk a b = Some c \<longleftrightarrow> unat b \<le> unat a \<and> unat c = unat a - unat b" for a b c :: "'a::len word"
  using unat_sub [of b a] by (auto simp: sub_chk_eq_Some_iff word_unat_eq_iff word_le_nat_alt)

lemma sub_chk_None: "sub_chk a b = None \<longleftrightarrow> unat a < unat b" for a b :: "'a::len word"
  by (auto simp: sub_chk_def word_le_nat_alt)

lemma mul_chk_nat: "mul_chk a b = Some c \<longleftrightarrow> unat a * unat b < 2 ^ LENGTH('a) \<and> unat c = unat a * unat b" for a b c :: "'a::len word"
  using unat_mult_lem [of a b] by (auto simp: mul_chk_def word_unat_eq_iff)

lemma mul_chk_None: "mul_chk a b = None \<longleftrightarrow> 2 ^ LENGTH('a) \<le> unat a * unat b" for a b :: "'a::len word"
  by (auto simp: mul_chk_def)

lemmas chk_iffs = add_chk_nat add_chk_None sub_chk_nat sub_chk_None mul_chk_nat mul_chk_None
  word_le_nat_alt word_less_nat_alt word_unat_eq_iff

lemma sub_chk_ex: "unat b \<le> unat a \<Longrightarrow> \<exists>c. sub_chk a b = Some c \<and> unat c = unat a - unat b" for a b :: "'a::len word"
  by (cases "sub_chk a b") (auto simp: sub_chk_None sub_chk_nat)

lemma add_chk_ex: "unat a + unat b < 2 ^ LENGTH('a) \<Longrightarrow> \<exists>c. add_chk a b = Some c \<and> unat c = unat a + unat b" for a b :: "'a::len word"
  by (cases "add_chk a b") (auto simp: add_chk_None add_chk_nat)

lemma unat_less_pow: "unat w < 2 ^ LENGTH('a)" for w :: "'a::len word"
  by (rule unsigned_less)

text \<open>The largest value a measure of the history has had so far.\<close>

definition high_water :: "('e list \<Rightarrow> 'a :: linorder) \<Rightarrow> 'e list \<Rightarrow> 'a" where
  "high_water f es = Max ((\<lambda>i. f (take i es)) ` {..length es})"

lemma high_water_Nil [simp]: "high_water f [] = f []"
  by (simp add: high_water_def)

lemma high_water_snoc [simp]: "high_water f (es @ [e]) = max (high_water f es) (f (es @ [e]))"
proof -
  have "(\<lambda>i. f (take i (es @ [e]))) ` {..length es} = (\<lambda>i. f (take i es)) ` {..length es}"
    by (intro image_cong) simp_all
  then have "(\<lambda>i. f (take i (es @ [e]))) ` {..length (es @ [e])} = insert (f (es @ [e])) ((\<lambda>i. f (take i es)) ` {..length es})"
    by (simp add: atMost_Suc)
  then show ?thesis
    by (simp add: high_water_def max.commute)
qed

end
