(* ===== verification/Slot_Array.thy ===== *)
theory Slot_Array
  imports Gale_Base
begin

text \<open>
  Fixed arrays of optional entries, as the wait queue and the run queue store their
  threads: the occupied slots come first, the free ones after them. The three loops the
  queues share (shift the tail down over a hole, open a hole by shifting up, search the
  insertion point) are defined here over any element type, with the equations that
  describe what each does to such an array.

  Loop counters are natural numbers: every loop is guarded by its bound, so the u32
  counters of the code cannot leave their type. Array accesses are checked.
\<close>

section \<open>The loops\<close>

text \<open>While i is below n: move slot i+1 into slot i and clear slot i+1.\<close>

function shift_down :: "nat \<Rightarrow> nat \<Rightarrow> 'a option list \<Rightarrow> 'a option list run" where
  "shift_down i n es =
     (if i < n then do {
        e \<leftarrow> arr_get es (i + 1);
        es \<leftarrow> arr_set es i e;
        es \<leftarrow> arr_set es (i + 1) None;
        shift_down (i + 1) n es
      } else Ret es)"
  by pat_completeness auto
termination
  by (relation "measure (\<lambda>(i, n, es). n - i)") auto

text \<open>While j is above pos: move slot j-1 into slot j and clear slot j-1.\<close>

function shift_up :: "nat \<Rightarrow> nat \<Rightarrow> 'a option list \<Rightarrow> 'a option list run" where
  "shift_up j pos es =
     (if pos < j then do {
        e \<leftarrow> arr_get es (j - 1);
        es \<leftarrow> arr_set es j e;
        es \<leftarrow> arr_set es (j - 1) None;
        shift_up (j - 1) pos es
      } else Ret es)"
  by pat_completeness auto
termination
  by (relation "measure (\<lambda>(j, pos, es). j)") auto

text \<open>The first of the n entries whose key exceeds p, or n when there is none.\<close>

function find_pos :: "('a \<Rightarrow> u32) \<Rightarrow> u32 \<Rightarrow> nat \<Rightarrow> nat \<Rightarrow> 'a option list \<Rightarrow> nat run" where
  "find_pos key p i n es =
     (if i < n then do {
        entry \<leftarrow> arr_get es i;
        t \<leftarrow> unwrap entry;
        (if p < key t then Ret i else find_pos key p (i + 1) n es)
      } else Ret n)"
  by pat_completeness auto
termination
  by (relation "measure (\<lambda>(key, p, i, n, es). n - i)") auto

declare shift_down.simps [simp del] shift_up.simps [simp del] find_pos.simps [simp del]

text \<open>An array of n slots holding the elements of a list, and the list it holds.\<close>

definition slots :: "nat \<Rightarrow> 'a list \<Rightarrow> 'a option list" where
  "slots n xs = map Some xs @ replicate (n - length xs) None"

definition held :: "nat \<Rightarrow> 'a option list \<Rightarrow> 'a list" where
  "held n es = map the (take n es)"

text \<open>Insertion behind every element whose key is not larger.\<close>

definition ins_stable :: "('a \<Rightarrow> 'k::linorder) \<Rightarrow> 'a \<Rightarrow> 'a list \<Rightarrow> 'a list" where
  "ins_stable key t xs =
     takeWhile (\<lambda>x. key x \<le> key t) xs @ t # dropWhile (\<lambda>x. key x \<le> key t) xs"

section \<open>What the loops compute\<close>

lemma shift_down_eq:
  "shift_down (length as) (length as + length bs) (as @ None # bs @ cs) = Some (as @ bs @ None # cs)"
proof (induction bs arbitrary: as)
  case Nil
  show ?case by (simp add: shift_down.simps)
next
  case (Cons b bs)
  have "shift_down (length as) (length as + length (b # bs)) (as @ None # (b # bs) @ cs) =
        shift_down (length (as @ [b])) (length (as @ [b]) + length bs) ((as @ [b]) @ None # bs @ cs)"
    by (subst shift_down.simps) (simp add: run_simps nth_append list_update_append)
  also have "\<dots> = Some ((as @ [b]) @ bs @ None # cs)"
    by (rule Cons.IH)
  finally show ?case by simp
qed

lemma shift_up_eq:
  "shift_up (length as + length bs) (length as) (as @ bs @ None # cs) = Some (as @ None # bs @ cs)"
proof (induction bs arbitrary: cs rule: rev_induct)
  case Nil
  show ?case by (simp add: shift_up.simps)
next
  case (snoc b bs)
  have "shift_up (length as + length (bs @ [b])) (length as) (as @ (bs @ [b]) @ None # cs) =
        shift_up (length as + length bs) (length as) (as @ bs @ None # b # cs)"
    by (subst shift_up.simps) (simp add: run_simps nth_append list_update_append)
  also have "\<dots> = Some (as @ None # bs @ b # cs)"
    by (rule snoc.IH)
  finally show ?case by simp
qed

lemma find_pos_eq:
  "find_pos key p (length ys) (length ys + length xs) (map Some ys @ map Some xs @ cs) =
     Some (length ys + length (takeWhile (\<lambda>x. key x \<le> p) xs))"
proof (induction xs arbitrary: ys)
  case Nil
  show ?case by (simp add: find_pos.simps)
next
  case (Cons x xs)
  show ?case
  proof (cases "p < key x")
    case True
    then show ?thesis
      by (subst find_pos.simps) (simp add: run_simps nth_append)
  next
    case False
    then have "find_pos key p (length ys) (length ys + length (x # xs)) (map Some ys @ map Some (x # xs) @ cs) =
          find_pos key p (length (ys @ [x])) (length (ys @ [x]) + length xs) (map Some (ys @ [x]) @ map Some xs @ cs)"
      by (subst find_pos.simps) (simp add: run_simps nth_append)
    also have "\<dots> = Some (length (ys @ [x]) + length (takeWhile (\<lambda>x. key x \<le> p) xs))"
      by (rule Cons.IH)
    finally show ?thesis using False by simp
  qed
qed

section \<open>Slot arrays\<close>

lemma length_slots [simp]: "length xs \<le> n \<Longrightarrow> length (slots n xs) = n"
  by (simp add: slots_def)

lemma held_slots [simp]: "n = length xs \<Longrightarrow> held n (slots m xs) = xs"
  by (simp add: held_def slots_def comp_def)

lemma slots_Nil [simp]: "slots n [] = replicate n None"
  by (simp add: slots_def)

text \<open>The array with its first slot cleared, shifted down over the whole length.\<close>

lemma shift_down_slots:
  assumes "length (x # xs) \<le> n"
  shows "shift_down 0 (length xs) ((slots n (x # xs))[0 := None]) = Some (slots n xs)"
proof -
  let ?free = "replicate (n - Suc (length xs)) None"
  have "None # ?free = replicate (n - length xs) (None :: 'a option)"
    using assms by (metis Suc_diff_Suc Suc_le_lessD length_Cons replicate_Suc)
  moreover have "shift_down 0 (length xs) (None # map Some xs @ ?free) = Some (map Some xs @ None # ?free)"
    using shift_down_eq [of "[]" "map Some xs" ?free] by simp
  ultimately show ?thesis by (simp add: slots_def)
qed

lemma find_pos_slots:
  "find_pos key p 0 (length xs) (slots n xs) = Some (length (takeWhile (\<lambda>x. key x \<le> p) xs))"
  using find_pos_eq [of key p "[]" xs] by (simp add: slots_def)

text \<open>Opening a hole at a position and filling it is list insertion at that position.\<close>

lemma shift_up_slots:
  assumes "length xs < n" and "pos \<le> length xs"
  shows "shift_up (length xs) pos (slots n xs) =
           Some (map Some (take pos xs) @ None # map Some (drop pos xs) @ replicate (n - Suc (length xs)) None)"
proof -
  let ?as = "map Some (take pos xs)" and ?bs = "map Some (drop pos xs)"
  let ?free = "replicate (n - Suc (length xs)) None"
  have "slots n xs = ?as @ ?bs @ None # ?free"
    using assms(1) by (simp add: slots_def Suc_diff_Suc flip: map_append replicate_Suc)
  moreover have "length ?as = pos" and "length ?as + length ?bs = length xs"
    using assms(2) by auto
  ultimately show ?thesis
    using shift_up_eq [of ?as ?bs ?free] by simp
qed

lemma hole_fill:
  assumes "pos \<le> length xs"
  shows "(map Some (take pos xs) @ None # map Some (drop pos xs) @ rs)[pos := Some t] =
           map Some (take pos xs @ t # drop pos xs) @ rs"
  using assms by (simp add: list_update_append)

lemma shift_up_insert_slots:
  assumes "length xs < n" and "pos \<le> length xs"
  shows "shift_up (length xs) pos (slots n xs) \<bind> (\<lambda>es. arr_set es pos (Some t)) =
           Some (slots n (take pos xs @ t # drop pos xs))"
  using assms
  by (simp add: shift_up_slots arr_set_def hole_fill) (simp add: slots_def)

section \<open>Stable insertion\<close>

lemma ins_stable_take_drop:
  fixes key :: "'a \<Rightarrow> 'k::linorder"
  defines "pos t xs \<equiv> length (takeWhile (\<lambda>x. key x \<le> key t) xs)"
  shows "take (pos t xs) xs @ t # drop (pos t xs) xs = ins_stable key t xs"
  by (simp add: pos_def ins_stable_def flip: takeWhile_eq_take dropWhile_eq_drop)

lemma mset_ins_stable [simp]: "mset (ins_stable key t xs) = add_mset t (mset xs)"
proof -
  have "mset (takeWhile P xs) + mset (dropWhile P xs) = mset xs" for P
    by (metis mset_append takeWhile_dropWhile_id)
  then show ?thesis by (simp add: ins_stable_def)
qed

lemma set_ins_stable [simp]: "set (ins_stable key t xs) = insert t (set xs)"
  by (metis mset_ins_stable set_mset_add_mset_insert set_mset_mset)

lemma length_ins_stable [simp]: "length (ins_stable key t xs) = Suc (length xs)"
  by (metis mset_ins_stable size_add_mset size_mset)

lemma sorted_ins_stable:
  assumes "sorted (map key xs)"
  shows "sorted (map key (ins_stable key t xs))"
proof -
  let ?P = "\<lambda>x. key x \<le> key t"
  have parts: "sorted (map key (takeWhile ?P xs @ dropWhile ?P xs))"
    using assms by simp
  have late: "key t \<le> key y" if "y \<in> set (dropWhile ?P xs)" for y
  proof (cases "dropWhile ?P xs")
    case Nil
    with that show ?thesis by simp
  next
    case (Cons z zs)
    then have "\<not> key z \<le> key t"
      by (metis dropWhile_eq_Cons_conv)
    moreover have "key z \<le> key y"
      using parts that Cons by (auto simp: sorted_append)
    ultimately show ?thesis by simp
  qed
  have early: "key y \<le> key t" if "y \<in> set (takeWhile ?P xs)" for y
    using that by (rule set_takeWhileD [THEN conjunct2])
  have "sorted (map key (takeWhile ?P xs))" and "sorted (map key (dropWhile ?P xs))"
    using parts unfolding map_append sorted_append by auto
  then show ?thesis
    using late early by (auto simp: ins_stable_def sorted_append intro: order_trans)
qed

text \<open>Among elements with one key, the inserted element comes last.\<close>

lemma filter_ins_stable:
  assumes "sorted (map key xs)"
  shows "filter (\<lambda>x. key x = k) (ins_stable key t xs) =
           filter (\<lambda>x. key x = k) xs @ (if key t = k then [t] else [])"
proof -
  let ?P = "\<lambda>x. key x \<le> key t"
  have "filter (\<lambda>x. key x = key t) (dropWhile ?P xs) = []"
  proof (rule filter_False, rule ballI)
    fix y assume y: "y \<in> set (dropWhile ?P xs)"
    show "key y \<noteq> key t"
    proof (cases "dropWhile ?P xs")
      case Nil
      with y show ?thesis by simp
    next
      case (Cons z zs)
      then have "\<not> key z \<le> key t"
        by (metis dropWhile_eq_Cons_conv)
      moreover have "sorted (map key (dropWhile ?P xs))"
        using assms sorted_dropWhile [of "map key xs" "\<lambda>k. k \<le> key t"]
        by (simp add: dropWhile_map comp_def)
      ultimately show ?thesis using y Cons by auto
    qed
  qed
  moreover have "filter Q xs = filter Q (takeWhile ?P xs) @ filter Q (dropWhile ?P xs)" for Q
    by (metis filter_append takeWhile_dropWhile_id)
  ultimately show ?thesis by (auto simp: ins_stable_def)
qed

section \<open>Arrays with a filled prefix\<close>

lemma all_Some_map_the: "list_all (\<lambda>e. e \<noteq> None) es \<Longrightarrow> map Some (map the es) = es"
  by (induction es) auto

lemma all_None_replicate: "list_all (\<lambda>e. e = None) es \<Longrightarrow> es = replicate (length es) None"
  by (induction es) auto

text \<open>
  The representation invariant of the queues: the first n slots are filled and the rest
  are empty. Then the array is determined by what it holds.
\<close>

definition prefix_filled :: "nat \<Rightarrow> nat \<Rightarrow> 'a option list \<Rightarrow> bool" where
  "prefix_filled m n es \<longleftrightarrow> length es = m \<and> n \<le> m \<and>
     list_all (\<lambda>e. e \<noteq> None) (take n es) \<and> list_all (\<lambda>e. e = None) (drop n es)"

lemma prefix_filled_slots:
  assumes "prefix_filled m n es"
  shows "es = slots m (held n es)" and "length (held n es) = n"
proof -
  have len: "length es = m" "n \<le> m" and filled: "list_all (\<lambda>e. e \<noteq> None) (take n es)"
    and free: "list_all (\<lambda>e. e = None) (drop n es)"
    using assms by (simp_all add: prefix_filled_def)
  then show n: "length (held n es) = n" by (simp add: held_def)
  have "map Some (held n es) = take n es"
    using filled by (simp add: held_def all_Some_map_the flip: map_map)
  moreover have "replicate (m - n) None = drop n es"
    using all_None_replicate [OF free] len by simp
  ultimately show "es = slots m (held n es)"
    using n by (simp add: slots_def)
qed

lemma slots_prefix_filled: "length xs \<le> m \<Longrightarrow> prefix_filled m (length xs) (slots m xs)"
  by (simp add: prefix_filled_def slots_def list_all_iff)

text \<open>Sorted insertion as the queues perform it: search, shift, store.\<close>

lemma insert_slots:
  fixes key :: "'a \<Rightarrow> u32"
  assumes "length xs < m"
  shows "do { pos \<leftarrow> find_pos key (key t) 0 (length xs) (slots m xs);
              es \<leftarrow> shift_up (length xs) pos (slots m xs);
              es \<leftarrow> arr_set es pos (Some t);
              f es } = f (slots m (ins_stable key t xs))"
proof -
  let ?pos = "length (takeWhile (\<lambda>x. key x \<le> key t) xs)"
  have "?pos \<le> length xs" by (rule length_takeWhile_le)
  then have "shift_up (length xs) ?pos (slots m xs) \<bind> (\<lambda>es. arr_set es ?pos (Some t)) =
      Some (slots m (ins_stable key t xs))"
    using shift_up_insert_slots [OF assms] ins_stable_take_drop [of key t xs] by simp
  then show ?thesis
    by (simp add: find_pos_slots flip: Option.bind_assoc)
qed

end
