(* ===== verification/Prio_Queue.thy ===== *)
theory Prio_Queue
  imports Slot_Array
begin

text \<open>
  The contract of the kernel's bounded priority queues, as a locale: the wait queue of
  every blocking object and the run queue of the scheduler both provide it. A queue has a
  list view that is sorted by key; insertion puts an element behind all elements that are
  not of lower priority, removal takes the head, and neither panics on a well-formed
  queue. From these laws alone the locale derives the service order: filling an empty
  queue and draining it delivers the elements in stable priority order.
\<close>

section \<open>Sequences of operations\<close>

text \<open>Remove up to n times, stopping at an empty queue; insert a list, one by one.\<close>

fun drain :: "('q \<Rightarrow> ('a option \<times> 'q) run) \<Rightarrow> nat \<Rightarrow> 'q \<Rightarrow> ('a list \<times> 'q) run" where
  "drain rem 0 q = Ret ([], q)"
| "drain rem (Suc n) q = do {
     (t, q) \<leftarrow> rem q;
     case t of
       None \<Rightarrow> Ret ([], q)
     | Some t \<Rightarrow> do { (ts, q) \<leftarrow> drain rem n q; Ret (t # ts, q) }
   }"

fun fill :: "('a \<Rightarrow> 'q \<Rightarrow> (bool \<times> 'q) run) \<Rightarrow> 'a list \<Rightarrow> 'q \<Rightarrow> (bool list \<times> 'q) run" where
  "fill ins [] q = Ret ([], q)"
| "fill ins (t # ts) q = do {
     (b, q) \<leftarrow> ins t q;
     (bs, q) \<leftarrow> fill ins ts q;
     Ret (b # bs, q)
   }"

section \<open>The contract\<close>

locale prio_queue =
  fixes empty_q :: 'q
    and view :: "'q \<Rightarrow> 'a list"
    and inv :: "'q \<Rightarrow> bool"
    and ins :: "'a \<Rightarrow> 'q \<Rightarrow> (bool \<times> 'q) run"
    and rem :: "'q \<Rightarrow> ('a option \<times> 'q) run"
    and key :: "'a \<Rightarrow> u32"
    and good :: "'a \<Rightarrow> bool"
    and clash :: "'a \<Rightarrow> 'a \<Rightarrow> bool"
    and wake :: "'a \<Rightarrow> 'a"
    and cap :: nat
  assumes view_empty: "view empty_q = []"
    and inv_empty: "inv empty_q"
    and inv_sorted: "inv q \<Longrightarrow> sorted (map key (view q))"
    and inv_cap: "inv q \<Longrightarrow> length (view q) \<le> cap"
    and ins_room: "inv q \<Longrightarrow> good t \<Longrightarrow> \<forall>x\<in>set (view q). \<not> clash x t \<Longrightarrow> length (view q) < cap \<Longrightarrow>
      \<exists>q'. ins t q = Some (True, q') \<and> inv q' \<and> view q' = ins_stable key t (view q)"
    and ins_full: "inv q \<Longrightarrow> length (view q) = cap \<Longrightarrow> ins t q = Some (False, q)"
    and rem_empty: "inv q \<Longrightarrow> view q = [] \<Longrightarrow> rem q = Some (None, q)"
    and rem_first: "inv q \<Longrightarrow> view q = t # ts \<Longrightarrow>
      \<exists>q'. rem q = Some (Some (wake t), q') \<and> inv q' \<and> view q' = ts"
    and key_wake: "key (wake t) = key t"
begin

lemma drain_view:
  assumes "inv q" and "length (view q) < n"
  shows "\<exists>q'. drain rem n q = Some (map wake (view q), q') \<and> inv q' \<and> view q' = []"
  using assms
proof (induction n arbitrary: q)
  case 0
  then show ?case by simp
next
  case (Suc n)
  show ?case
  proof (cases "view q")
    case Nil
    with Suc.prems show ?thesis by (auto simp: rem_empty)
  next
    case (Cons t ts)
    then obtain q1 where q1: "rem q = Some (Some (wake t), q1)" "inv q1" "view q1 = ts"
      using rem_first [OF Suc.prems(1)] by blast
    moreover obtain q2 where "drain rem n q1 = Some (map wake ts, q2)" "inv q2" "view q2 = []"
      using Suc.IH [of q1] Suc.prems(2) q1 Cons by auto
    ultimately show ?thesis using Cons by simp
  qed
qed

text \<open>Whatever is removed has the highest priority of all that is queued.\<close>

lemma rem_highest:
  assumes "inv q" and "rem q = Some (Some t, q')" and "x \<in> set (view q)"
  shows "key t \<le> key x"
proof (cases "view q")
  case Nil
  with assms(3) show ?thesis by simp
next
  case (Cons y ys)
  then have "t = wake y"
    using rem_first [OF assms(1)] assms(2) by fastforce
  then show ?thesis
    using inv_sorted [OF assms(1)] assms(3) Cons by (auto simp: key_wake)
qed

text \<open>
  A fill of a queue with room for all the elements: every insertion succeeds, and among
  the elements of one key the new ones follow the old ones in the order they came.
\<close>

lemma fill_view:
  assumes "inv q" and "\<forall>t\<in>set ts. good t"
    and "\<forall>x\<in>set (view q). \<forall>t\<in>set ts. \<not> clash x t"
    and "\<forall>i<length ts. \<forall>j<i. \<not> clash (ts ! j) (ts ! i)"
    and "length (view q) + length ts \<le> cap"
  shows "\<exists>q'. fill ins ts q = Some (replicate (length ts) True, q') \<and> inv q' \<and>
           mset (view q') = mset (view q) + mset ts \<and>
           (\<forall>k. filter (\<lambda>x. key x = k) (view q') =
                  filter (\<lambda>x. key x = k) (view q) @ filter (\<lambda>x. key x = k) ts)"
  using assms
proof (induction ts arbitrary: q)
  case Nil
  then show ?case by simp
next
  case (Cons t ts)
  obtain q1 where q1: "ins t q = Some (True, q1)" "inv q1" "view q1 = ins_stable key t (view q)"
    using ins_room [of q t] Cons.prems by auto
  have "\<forall>x\<in>set (view q1). \<forall>u\<in>set ts. \<not> clash x u"
  proof (intro ballI)
    fix x u assume "x \<in> set (view q1)" "u \<in> set ts"
    moreover obtain i where "i < length ts" "u = ts ! i"
      using \<open>u \<in> set ts\<close> by (metis in_set_conv_nth)
    moreover have "\<not> clash t (ts ! i)" if "i < length ts" for i
      using Cons.prems(4) [rule_format, of "Suc i" 0] that by simp
    ultimately show "\<not> clash x u"
      using q1(3) Cons.prems(3) by auto
  qed
  moreover have "\<forall>i<length ts. \<forall>j<i. \<not> clash (ts ! j) (ts ! i)"
    using Cons.prems(4) by (metis Suc_less_eq length_Cons nth_Cons_Suc)
  ultimately obtain q2 where q2: "fill ins ts q1 = Some (replicate (length ts) True, q2)" "inv q2"
      "mset (view q2) = mset (view q1) + mset ts"
      "\<forall>k. filter (\<lambda>x. key x = k) (view q2) =
             filter (\<lambda>x. key x = k) (view q1) @ filter (\<lambda>x. key x = k) ts"
    using Cons.IH [of q1] Cons.prems q1 by auto
  moreover have "filter (\<lambda>x. key x = k) (view q1) =
      filter (\<lambda>x. key x = k) (view q) @ (if key t = k then [t] else [])" for k
    using filter_ins_stable [OF inv_sorted [OF Cons.prems(1)]] q1(3) by simp
  ultimately show ?case
    using q1 by auto
qed

text \<open>The service order: an empty queue, filled and drained, is a stable priority sort.\<close>

lemma fill_drain_sorts:
  assumes "\<forall>t\<in>set ts. good t" and "\<forall>i<length ts. \<forall>j<i. \<not> clash (ts ! j) (ts ! i)"
    and "length ts \<le> cap"
  shows "\<exists>q q'. fill ins ts empty_q = Some (replicate (length ts) True, q) \<and>
           drain rem (Suc (length ts)) q = Some (map wake (sort_key key ts), q') \<and> view q' = []"
proof -
  obtain q where q: "fill ins ts empty_q = Some (replicate (length ts) True, q)" "inv q"
      "mset (view q) = mset ts"
      "\<And>k. filter (\<lambda>x. key x = k) (view q) = filter (\<lambda>x. key x = k) ts"
    using fill_view [of empty_q ts] assms by (auto simp: view_empty inv_empty)
  have "sort_key key ts = view q"
    using q(3,4) inv_sorted [OF q(2)]
    by (intro properties_for_sort_key) (auto simp: eq_commute)
  moreover have "length (view q) < Suc (length ts)"
    using q(3) by (metis lessI size_mset)
  then obtain q' where "drain rem (Suc (length ts)) q = Some (map wake (view q), q')" "view q' = []"
    using drain_view [OF q(2)] by blast
  ultimately show ?thesis using q(1) by auto
qed

end

end
