(* ===== verification/Kernel_Thread.thy ===== *)
theory Kernel_Thread
  imports Gale_Base
begin

text \<open>
  The base of the kernel model: the error codes (src/error.rs), the bounded priority
  (src/priority.rs) and the thread with its state machine (src/thread.rs).
\<close>

section \<open>Error codes (error.rs)\<close>

definition EINVAL :: i32 where "EINVAL = -22"
definition EBUSY :: i32 where "EBUSY = -16"
definition EAGAIN :: i32 where "EAGAIN = -11"
definition EPERM :: i32 where "EPERM = -1"
definition ENOMEM :: i32 where "ENOMEM = -12"
definition EPIPE :: i32 where "EPIPE = -32"
definition ENOMSG :: i32 where "ENOMSG = -35"
definition ECANCELED :: i32 where "ECANCELED = -140"
definition EOVERFLOW :: i32 where "EOVERFLOW = -139"
definition ETIMEDOUT :: i32 where "ETIMEDOUT = -116"
definition ENOSPC :: i32 where "ENOSPC = -28"
definition ENOENT :: i32 where "ENOENT = -2"
definition EBADF :: i32 where "EBADF = -9"
definition EADDRINUSE :: i32 where "EADDRINUSE = -112"
definition EDEADLK :: i32 where "EDEADLK = -45"
definition EALREADY :: i32 where "EALREADY = -114"
definition OK_code :: i32 where "OK_code = 0"

lemmas error_codes = EINVAL_def EBUSY_def EAGAIN_def EPERM_def ENOMEM_def EPIPE_def
  ENOMSG_def ECANCELED_def EOVERFLOW_def OK_code_def
  ETIMEDOUT_def ENOSPC_def ENOENT_def EBADF_def EADDRINUSE_def EDEADLK_def EALREADY_def

section \<open>Priority (priority.rs)\<close>

definition MAX_PRIORITY :: u32 where
  "MAX_PRIORITY = 32"

record priority =
  prio_value :: u32

definition prio_inv :: "priority \<Rightarrow> bool" where
  "prio_inv p \<longleftrightarrow> prio_value p < MAX_PRIORITY"

definition prio_new :: "u32 \<Rightarrow> priority option" where
  "prio_new v = (if v < MAX_PRIORITY then Some \<lparr>prio_value = v\<rparr> else None)"

definition prio_get :: "priority \<Rightarrow> u32" where
  "prio_get p = prio_value p"

definition is_higher_than :: "priority \<Rightarrow> priority \<Rightarrow> bool" where
  "is_higher_than p q \<longleftrightarrow> prio_value p < prio_value q"

definition is_higher_or_equal :: "priority \<Rightarrow> priority \<Rightarrow> bool" where
  "is_higher_or_equal p q \<longleftrightarrow> prio_value p \<le> prio_value q"

section \<open>Thread (thread.rs)\<close>

record thread_id =
  tid_id :: u32

datatype thread_state = Ready | Running | Blocked | Suspended

record thread =
  th_id :: thread_id
  th_priority :: priority
  th_state :: thread_state
  th_return_value :: i32
  th_is_metairq :: bool

definition thread_inv :: "thread \<Rightarrow> bool" where
  "thread_inv t \<longleftrightarrow> prio_inv (th_priority t)"

definition thread_new :: "u32 \<Rightarrow> priority \<Rightarrow> thread" where
  "thread_new i p =
     \<lparr>th_id = \<lparr>tid_id = i\<rparr>, th_priority = p, th_state = Ready, th_return_value = 0, th_is_metairq = False\<rparr>"

definition thread_dispatch :: "thread \<Rightarrow> thread" where
  "thread_dispatch t = t\<lparr>th_state := Running\<rparr>"

definition thread_block :: "thread \<Rightarrow> thread" where
  "thread_block t = t\<lparr>th_state := Blocked\<rparr>"

definition thread_wake :: "i32 \<Rightarrow> thread \<Rightarrow> thread" where
  "thread_wake rv t = t\<lparr>th_return_value := rv, th_state := Ready\<rparr>"

definition is_blocked :: "thread \<Rightarrow> bool" where
  "is_blocked t \<longleftrightarrow> th_state t = Blocked"

text \<open>The key by which every queue orders its threads, and the raw thread number.\<close>

abbreviation prio_of :: "thread \<Rightarrow> u32" where
  "prio_of t \<equiv> prio_get (th_priority t)"

abbreviation id_of :: "thread \<Rightarrow> u32" where
  "id_of t \<equiv> tid_id (th_id t)"

section \<open>Lemmas\<close>

lemma prio_of_updates [simp]:
  "prio_of (thread_block t) = prio_of t" "prio_of (thread_wake rv t) = prio_of t"
  "prio_of (thread_dispatch t) = prio_of t"
  by (simp_all add: thread_block_def thread_wake_def thread_dispatch_def)

lemma id_of_updates [simp]:
  "id_of (thread_block t) = id_of t" "id_of (thread_wake rv t) = id_of t"
  "th_id (thread_wake rv t) = th_id t" "th_id (thread_block t) = th_id t"
  by (simp_all add: thread_block_def thread_wake_def)

lemma thread_inv_updates [simp]:
  "thread_inv (thread_block t) = thread_inv t" "thread_inv (thread_wake rv t) = thread_inv t"
  by (simp_all add: thread_inv_def thread_block_def thread_wake_def)

lemma state_updates [simp]:
  "th_state (thread_block t) = Blocked" "th_state (thread_wake rv t) = Ready"
  "th_return_value (thread_wake rv t) = rv"
  by (simp_all add: thread_block_def thread_wake_def)

end
