(* ===== verification/Wait_Queue.thy ===== *)
theory Wait_Queue
  imports Prio_Queue Kernel_Thread
begin

text \<open>
  The priority-ordered wait queue (src/wait_queue.rs): an array of 64 optional threads and
  a length. The operations are translated with their loops and checked array accesses; the
  interpretation at the end discharges the contract of the bounded priority queue for
  them, so that the clients reason about the list view only.
\<close>

section \<open>State and invariant\<close>

definition MAX_WAITERS :: u32 where
  "MAX_WAITERS = 64"

record wait_queue =
  wq_entries :: "thread option list"
  wq_len :: u32

text \<open>The waiting threads, in queue order.\<close>

definition wq_view :: "wait_queue \<Rightarrow> thread list" where
  "wq_view q = held (unat (wq_len q)) (wq_entries q)"

definition slots_valid :: "wait_queue \<Rightarrow> bool" where
  "slots_valid q \<longleftrightarrow> length (wq_entries q) = 64 \<and>
     list_all (\<lambda>e. e \<noteq> None) (take (unat (wq_len q)) (wq_entries q)) \<and>
     list_all (\<lambda>e. e = None) (drop (unat (wq_len q)) (wq_entries q))"

definition is_sorted :: "wait_queue \<Rightarrow> bool" where
  "is_sorted q \<longleftrightarrow> sorted (map prio_of (wq_view q))"

definition threads_valid :: "wait_queue \<Rightarrow> bool" where
  "threads_valid q \<longleftrightarrow> list_all (\<lambda>t. thread_inv t \<and> th_state t = Blocked) (wq_view q)"

definition no_duplicates :: "wait_queue \<Rightarrow> bool" where
  "no_duplicates q \<longleftrightarrow> distinct (map id_of (wq_view q))"

definition wq_inv :: "wait_queue \<Rightarrow> bool" where
  "wq_inv q \<longleftrightarrow> wq_len q \<le> MAX_WAITERS \<and> slots_valid q \<and> is_sorted q \<and> threads_valid q \<and> no_duplicates q"

section \<open>Operations\<close>

definition wq_new :: wait_queue where
  "wq_new = \<lparr>wq_entries = replicate 64 None, wq_len = 0\<rparr>"

definition wq_length :: "wait_queue \<Rightarrow> u32" where
  "wq_length q = wq_len q"

definition wq_is_empty :: "wait_queue \<Rightarrow> bool" where
  "wq_is_empty q \<longleftrightarrow> wq_len q = 0"

definition unpend_first :: "i32 \<Rightarrow> wait_queue \<Rightarrow> (thread option \<times> wait_queue) run" where
  "unpend_first return_value q =
     (if wq_len q = 0 then Ret (None, q)
      else do {
        th \<leftarrow> arr_get (wq_entries q) 0;
        es \<leftarrow> arr_set (wq_entries q) 0 None;
        n \<leftarrow> sub_chk (wq_len q) 1;
        es \<leftarrow> shift_down 0 (unat n) es;
        len' \<leftarrow> sub_chk (wq_len q) 1;
        let q' = q\<lparr>wq_entries := es, wq_len := len'\<rparr>;
        case th of
          Some t \<Rightarrow> Ret (Some (t\<lparr>th_state := Ready, th_return_value := return_value\<rparr>), q')
        | None \<Rightarrow> Ret (None, q')
      })"

definition pend :: "thread \<Rightarrow> wait_queue \<Rightarrow> (bool \<times> wait_queue) run" where
  "pend t q =
     (if MAX_WAITERS \<le> wq_len q then Ret (False, q)
      else do {
        insert_pos \<leftarrow> find_pos prio_of (prio_of t) 0 (unat (wq_len q)) (wq_entries q);
        es \<leftarrow> shift_up (unat (wq_len q)) insert_pos (wq_entries q);
        es \<leftarrow> arr_set es insert_pos (Some t);
        len' \<leftarrow> add_chk (wq_len q) 1;
        Ret (True, q\<lparr>wq_entries := es, wq_len := len'\<rparr>)
      })"

text \<open>The clearing loop of unpend_all: set the first count slots to None.\<close>

function clear_slots :: "nat \<Rightarrow> nat \<Rightarrow> 'a option list \<Rightarrow> 'a option list run" where
  "clear_slots i n es =
     (if i < n then do { es \<leftarrow> arr_set es i None; clear_slots (i + 1) n es } else Ret es)"
  by pat_completeness auto
termination
  by (relation "measure (\<lambda>(i, n, es). n - i)") auto

declare clear_slots.simps [simp del]

text \<open>
  The return value argument is not used by the code: the threads are dropped from the
  queue, and the C side of the kernel wakes them.
\<close>

definition unpend_all :: "i32 \<Rightarrow> wait_queue \<Rightarrow> (u32 \<times> wait_queue) run" where
  "unpend_all return_value q = do {
     es \<leftarrow> clear_slots 0 (unat (wq_len q)) (wq_entries q);
     Ret (wq_len q, q\<lparr>wq_entries := es, wq_len := 0\<rparr>)
   }"

section \<open>The array form of the invariant\<close>

text \<open>A well-formed queue is determined by its view.\<close>

lemma slots_valid_prefix:
  "wq_len q \<le> MAX_WAITERS \<and> slots_valid q \<longleftrightarrow> prefix_filled 64 (unat (wq_len q)) (wq_entries q)"
  by (auto simp: slots_valid_def prefix_filled_def MAX_WAITERS_def word_le_nat_alt)

lemma wq_inv_slots:
  assumes "wq_inv q"
  shows "wq_entries q = slots 64 (wq_view q)" and "unat (wq_len q) = length (wq_view q)"
    and "length (wq_view q) \<le> 64"
proof -
  have "prefix_filled 64 (unat (wq_len q)) (wq_entries q)"
    using assms slots_valid_prefix [of q] by (simp add: wq_inv_def)
  from prefix_filled_slots [OF this] this
  show "wq_entries q = slots 64 (wq_view q)" "unat (wq_len q) = length (wq_view q)" "length (wq_view q) \<le> 64"
    by (simp_all add: wq_view_def prefix_filled_def)
qed

text \<open>Conversely, any short sorted list of distinct blocked threads is the view of a queue.\<close>

definition view_ok :: "thread list \<Rightarrow> bool" where
  "view_ok ts \<longleftrightarrow> length ts \<le> 64 \<and> sorted (map prio_of ts) \<and>
     list_all (\<lambda>t. thread_inv t \<and> th_state t = Blocked) ts \<and> distinct (map id_of ts)"

lemma wq_inv_view_ok: "wq_inv q \<Longrightarrow> view_ok (wq_view q)"
  using wq_inv_slots [of q]
  by (simp add: view_ok_def wq_inv_def is_sorted_def threads_valid_def no_duplicates_def)

lemma wq_inv_intro:
  assumes "view_ok ts" and "unat n = length ts"
  shows "wq_inv \<lparr>wq_entries = slots 64 ts, wq_len = n\<rparr>"
    and "wq_view \<lparr>wq_entries = slots 64 ts, wq_len = n\<rparr> = ts"
proof -
  let ?q = "\<lparr>wq_entries = slots 64 ts, wq_len = n\<rparr>"
  have len: "length ts \<le> 64" using assms(1) by (simp add: view_ok_def)
  show view: "wq_view ?q = ts"
    using assms(2) by (simp add: wq_view_def)
  have "prefix_filled 64 (unat (wq_len ?q)) (wq_entries ?q)"
    using slots_prefix_filled [OF len] assms(2) by simp
  then show "wq_inv ?q"
    using assms view slots_valid_prefix [of ?q]
    by (simp add: wq_inv_def view_ok_def is_sorted_def threads_valid_def no_duplicates_def)
qed

lemma wq_inv_cases:
  assumes "wq_inv q"
  obtains ts n where "q = \<lparr>wq_entries = slots 64 ts, wq_len = n\<rparr>" "unat n = length ts"
    "view_ok ts" "ts = wq_view q"
  using wq_inv_slots [OF assms] wq_inv_view_ok [OF assms] by (metis (full_types) wait_queue.surjective old.unit.exhaust)

section \<open>The operations on the view\<close>

lemma wq_new_inv: "wq_inv wq_new" and wq_new_view: "wq_view wq_new = []"
  using wq_inv_intro [of "[]" 0] by (simp_all add: wq_new_def view_ok_def)

lemma wq_len_zero_iff: "wq_inv q \<Longrightarrow> wq_len q = 0 \<longleftrightarrow> wq_view q = []"
  using wq_inv_slots(2) [of q] by (auto simp: unat_eq_0)

lemma unpend_first_empty: "wq_inv q \<Longrightarrow> wq_view q = [] \<Longrightarrow> unpend_first rv q = Some (None, q)"
  by (simp add: unpend_first_def wq_len_zero_iff)

lemma unpend_first_first:
  assumes "wq_inv q" and "wq_view q = t # ts"
  shows "\<exists>q'. unpend_first rv q = Some (Some (thread_wake rv t), q') \<and> wq_inv q' \<and> wq_view q' = ts"
proof -
  obtain n where q: "q = \<lparr>wq_entries = slots 64 (t # ts), wq_len = n\<rparr>" "unat n = length (t # ts)"
      "view_ok (t # ts)"
    using wq_inv_cases [OF assms(1)] assms(2) by metis
  then have nz: "n \<noteq> 0" and len: "length (t # ts) \<le> 64"
    by (auto simp: view_ok_def)
  with q(2) have n: "n \<noteq> 0" "unat (n - 1) = length ts"
    by (simp_all add: unat_minus_one)
  let ?q' = "\<lparr>wq_entries = slots 64 ts, wq_len = n - 1\<rparr>"
  have head: "arr_get (slots 64 (t # ts)) 0 = Some (Some t)"
    "arr_set (slots 64 (t # ts)) 0 None = Some ((slots 64 (t # ts))[0 := None])"
    using len by (simp_all add: arr_get_def arr_set_def slots_def)
  have "unpend_first rv q = Some (Some (thread_wake rv t), ?q')"
    using n len
    by (simp add: q(1) unpend_first_def head sub_chk_one shift_down_slots thread_wake_def Let_def)
  moreover have "view_ok ts"
    using q(3) by (simp add: view_ok_def)
  then have "wq_inv ?q'" "wq_view ?q' = ts"
    using wq_inv_intro n(2) by blast+
  ultimately show ?thesis by blast
qed

lemma pend_full:
  assumes "wq_inv q" and "length (wq_view q) = 64"
  shows "pend t q = Some (False, q)"
  using assms wq_inv_slots(2) [OF assms(1)]
  by (simp add: pend_def MAX_WAITERS_def word_le_nat_alt)

lemma view_ok_insert:
  assumes "view_ok ts" and "thread_inv t" and "th_state t = Blocked"
    and "\<forall>x\<in>set ts. id_of x \<noteq> id_of t" and "length ts < 64"
  shows "view_ok (ins_stable prio_of t ts)"
proof -
  have "mset (map id_of (ins_stable prio_of t ts)) = mset (map id_of (t # ts))"
    by (simp only: mset_map mset_ins_stable) simp
  then have "distinct (map id_of (ins_stable prio_of t ts)) = distinct (map id_of (t # ts))"
    by (rule mset_eq_imp_distinct_iff)
  also have "\<dots>"
    using assms(1,4) by (auto simp: view_ok_def)
  finally have "distinct (map id_of (ins_stable prio_of t ts))" .
  then show ?thesis
    using assms by (auto simp: view_ok_def sorted_ins_stable list_all_iff)
qed

lemma pend_room:
  assumes "wq_inv q" and "thread_inv t \<and> th_state t = Blocked"
    and "\<forall>x\<in>set (wq_view q). \<not> id_of x = id_of t" and "length (wq_view q) < 64"
  shows "\<exists>q'. pend t q = Some (True, q') \<and> wq_inv q' \<and> wq_view q' = ins_stable prio_of t (wq_view q)"
proof -
  obtain ts n where q: "q = \<lparr>wq_entries = slots 64 ts, wq_len = n\<rparr>" "unat n = length ts"
      "view_ok ts" "ts = wq_view q"
    using wq_inv_cases [OF assms(1)] .
  have lt: "n < 64" and len: "length ts < 64"
    using q assms(4) by (simp_all add: word_less_nat_alt)
  let ?q' = "\<lparr>wq_entries = slots 64 (ins_stable prio_of t ts), wq_len = n + 1\<rparr>"
  have "\<not> MAX_WAITERS \<le> n"
    using lt by (simp add: MAX_WAITERS_def)
  then have "pend t q = Some (True, ?q')"
    using lt by (simp add: q(1,2) pend_def insert_slots [OF len, of prio_of] add_chk_one)
  moreover have "view_ok (ins_stable prio_of t ts)"
    using view_ok_insert q(3,4) assms(2,3) len by auto
  moreover have "unat (n + 1) = length (ins_stable prio_of t ts)"
    using unat_plus_one [OF lt] q(2) by simp
  ultimately show ?thesis
    using wq_inv_intro q(4) by blast
qed

lemma clear_slots_eq:
  "clear_slots (length as) (length as + length bs) (as @ bs @ cs) = Some (as @ replicate (length bs) None @ cs)"
proof (induction bs arbitrary: as)
  case Nil
  show ?case by (simp add: clear_slots.simps)
next
  case (Cons b bs)
  have "clear_slots (length as) (length as + length (b # bs)) (as @ (b # bs) @ cs) =
      clear_slots (length (as @ [None])) (length (as @ [None]) + length bs) ((as @ [None]) @ bs @ cs)"
    by (subst clear_slots.simps) (simp add: arr_set_def list_update_append)
  also have "\<dots> = Some ((as @ [None]) @ replicate (length bs) None @ cs)"
    by (rule Cons.IH)
  finally show ?case by simp
qed

lemma unpend_all_eq:
  assumes "wq_inv q"
  shows "unpend_all rv q = Some (wq_len q, wq_new)"
proof -
  let ?ts = "wq_view q"
  have "clear_slots 0 (length ?ts) (slots 64 ?ts) = Some (replicate 64 None)"
    using clear_slots_eq [of "[]" "map Some ?ts" "replicate (64 - length ?ts) None"] wq_inv_slots(3) [OF assms]
    by (simp add: slots_def flip: replicate_add)
  then show ?thesis
    using wq_inv_slots [OF assms] by (simp add: unpend_all_def wq_new_def)
qed

section \<open>The wait queue provides the priority queue contract\<close>

interpretation waitq: prio_queue wq_new wq_view wq_inv pend "unpend_first rv" prio_of
  "\<lambda>t. thread_inv t \<and> th_state t = Blocked" "\<lambda>x y. id_of x = id_of y" "thread_wake rv" 64 for rv
proof unfold_locales
  fix q t ts
  show "wq_view wq_new = []" by (rule wq_new_view)
  show "wq_inv wq_new" by (rule wq_new_inv)
  show "sorted (map prio_of (wq_view q))" if "wq_inv q"
    using wq_inv_view_ok [OF that] by (simp add: view_ok_def)
  show "length (wq_view q) \<le> 64" if "wq_inv q"
    using that by (rule wq_inv_slots(3))
  show "prio_of (thread_wake rv t) = prio_of t" by simp
  show "pend t q = Some (False, q)" if "wq_inv q" "length (wq_view q) = 64"
    using that by (rule pend_full)
  show "unpend_first rv q = Some (None, q)" if "wq_inv q" "wq_view q = []"
    using that by (rule unpend_first_empty)
qed (erule (1) unpend_first_first pend_room; assumption)+

text \<open>How every blocking object queues the caller: block it and pend it.\<close>

lemma pend_block:
  assumes "wq_inv q" and "thread_inv t" and "id_of t \<notin> id_of ` set (wq_view q)"
  shows "\<exists>q'. pend (thread_block t) q = Some (length (wq_view q) < 64, q') \<and> wq_inv q' \<and>
           wq_view q' = (if length (wq_view q) < 64 then ins_stable prio_of (thread_block t) (wq_view q)
                         else wq_view q)"
proof (cases "length (wq_view q) < 64")
  case True
  then show ?thesis
    using waitq.ins_room [OF assms(1), of "thread_block t"] assms(2,3) by (fastforce simp: image_iff)
next
  case False
  then have "length (wq_view q) = 64"
    using waitq.inv_cap [OF assms(1)] by simp
  then show ?thesis
    using waitq.ins_full [OF assms(1)] assms(1) by simp
qed

lemma wq_len_view: "wq_inv q \<Longrightarrow> wq_len q = of_nat (length (wq_view q))"
  using wq_inv_slots(2) [of q] by (metis of_nat_unat ucast_id)

section \<open>Properties\<close>

text \<open>
  Blocking a thread on a well-formed queue never panics and keeps the queue
  well-formed. With room, the thread is inserted behind every waiter that is not of lower
  priority and before the rest (first come first served within a priority); a full queue
  is left as it was and the caller is told so.
\<close>

theorem wq_pend_refines:
  assumes "wq_inv q" and "thread_inv t" and "id_of t \<notin> id_of ` set (wq_view q)"
  shows "\<exists>q'. pend (thread_block t) q = Some (length (wq_view q) < 64, q') \<and> wq_inv q' \<and>
           wq_view q' = (if length (wq_view q) < 64
                         then takeWhile (\<lambda>x. prio_of x \<le> prio_of t) (wq_view q) @
                              thread_block t # dropWhile (\<lambda>x. prio_of x \<le> prio_of t) (wq_view q)
                         else wq_view q)"
  using pend_block [OF assms] unfolding ins_stable_def prio_of_updates .

theorem wq_pend_refines_witness:
  "\<exists>q'. pend (thread_block (thread_new 7 \<lparr>prio_value = 3\<rparr>)) wq_new = Some (True, q') \<and> wq_inv q' \<and>
     wq_view q' = [thread_block (thread_new 7 \<lparr>prio_value = 3\<rparr>)]"
  using wq_pend_refines [of wq_new "thread_new 7 \<lparr>prio_value = 3\<rparr>"]
  by (simp add: wq_new_inv wq_new_view thread_inv_def thread_new_def prio_inv_def MAX_PRIORITY_def)

text \<open>
  C9: Service order. Up to 64 distinct blocked threads, pended one by one on an empty
  queue and then removed one by one, are all accepted and come out in the stable sort of
  their priorities, each made ready with the return value given; the queue is then empty.
\<close>

theorem wq_service_order:
  assumes "\<forall>t\<in>set ts. thread_inv t \<and> th_state t = Blocked"
    and "distinct (map id_of ts)" and "length ts \<le> 64"
  shows "\<exists>q q'. fill pend ts wq_new = Some (replicate (length ts) True, q) \<and>
           drain (unpend_first rv) (Suc (length ts)) q = Some (map (thread_wake rv) (sort_key prio_of ts), q') \<and>
           wq_view q' = []"
proof (rule waitq.fill_drain_sorts [OF assms(1) _ assms(3)], intro allI impI)
  fix i j assume "i < length ts" "j < i"
  then show "id_of (ts ! j) \<noteq> id_of (ts ! i)"
    using assms(2) nth_eq_iff_index_eq [of "map id_of ts" j i] by auto
qed

theorem wq_service_order_witness:
  defines "th \<equiv> \<lambda>i p. thread_block (thread_new i \<lparr>prio_value = p\<rparr>)"
  shows "\<exists>q q'. fill pend [th 1 5, th 2 3, th 3 5, th 4 0] wq_new = Some ([True, True, True, True], q) \<and>
           drain (unpend_first 0) 5 q = Some (map (thread_wake 0) [th 4 0, th 2 3, th 1 5, th 3 5], q') \<and>
           wq_view q' = []"
proof -
  let ?ts = "[th 1 5, th 2 3, th 3 5, th 4 0]"
  have "\<forall>t\<in>set ?ts. thread_inv t \<and> th_state t = Blocked" "distinct (map id_of ?ts)"
    by (simp_all add: th_def thread_new_def thread_inv_def thread_block_def prio_inv_def MAX_PRIORITY_def)
  note order = wq_service_order [OF this, of 0]
  have "sort_key prio_of ?ts = [th 4 0, th 2 3, th 1 5, th 3 5]"
    by (simp add: th_def thread_new_def thread_block_def prio_get_def)
  moreover have "replicate (length ?ts) True = [True, True, True, True]" "Suc (length ?ts) = 5" "length ?ts \<le> 64"
    by simp_all
  ultimately show ?thesis using order by (simp only: simp_thms)
qed

end
