(* ===== verification/Semaphore.thy ===== *)
theory Semaphore
  imports Wait_Queue
begin

text \<open>
  The counting semaphore (src/sem.rs): the object with its wait queue, the pure decision
  functions the C shim calls, an abstract semaphore (a number and a list of waiters) that
  the code refines, and the state machine of the calls the kernel makes.
\<close>

section \<open>Decisions\<close>

datatype give_decision = GD_WakeThread | GD_Increment | GD_Saturated

datatype take_decision = TD_Acquired | TD_WouldBlock | TD_Pend

definition give_decide :: "u32 \<Rightarrow> u32 \<Rightarrow> bool \<Rightarrow> give_decision" where
  "give_decide cnt limit has_waiter =
     (if has_waiter then GD_WakeThread
      else if cnt < limit then GD_Increment
      else GD_Saturated)"

definition take_decide :: "u32 \<Rightarrow> bool \<Rightarrow> take_decision" where
  "take_decide cnt is_no_wait =
     (if 0 < cnt then TD_Acquired
      else if is_no_wait then TD_WouldBlock
      else TD_Pend)"

section \<open>The semaphore object\<close>

datatype give_result = Incremented | WokeThread thread | Saturated

datatype take_result = Acquired | WouldBlock | TakeBlocked

record semaphore =
  sem_wait_q :: wait_queue
  sem_count :: u32
  sem_limit :: u32

definition sem_inv :: "semaphore \<Rightarrow> bool" where
  "sem_inv s \<longleftrightarrow> 0 < sem_limit s \<and> sem_count s \<le> sem_limit s \<and> wq_inv (sem_wait_q s)"

definition sem_init :: "u32 \<Rightarrow> u32 \<Rightarrow> semaphore result" where
  "sem_init initial_count limit =
     (if limit = 0 \<or> limit < initial_count then Err EINVAL
      else Ok \<lparr>sem_wait_q = wq_new, sem_count = initial_count, sem_limit = limit\<rparr>)"

definition sem_give :: "semaphore \<Rightarrow> (give_result \<times> semaphore) run" where
  "sem_give s = do {
     (th, wq) \<leftarrow> unpend_first OK_code (sem_wait_q s);
     let s = s\<lparr>sem_wait_q := wq\<rparr>;
     case th of
       Some t \<Rightarrow> Ret (WokeThread t, s)
     | None \<Rightarrow>
         if sem_count s \<noteq> sem_limit s
         then do { c \<leftarrow> add_chk (sem_count s) 1; Ret (Incremented, s\<lparr>sem_count := c\<rparr>) }
         else Ret (Saturated, s)
   }"

definition sem_try_take :: "semaphore \<Rightarrow> (take_result \<times> semaphore) run" where
  "sem_try_take s =
     (if 0 < sem_count s
      then do { c \<leftarrow> sub_chk (sem_count s) 1; Ret (Acquired, s\<lparr>sem_count := c\<rparr>) }
      else Ret (WouldBlock, s))"

definition sem_take_blocking :: "thread \<Rightarrow> semaphore \<Rightarrow> (bool \<times> semaphore) run" where
  "sem_take_blocking t s = do {
     (b, wq) \<leftarrow> pend (thread_block t) (sem_wait_q s);
     Ret (b, s\<lparr>sem_wait_q := wq\<rparr>)
   }"

definition sem_reset :: "semaphore \<Rightarrow> (u32 \<times> semaphore) run" where
  "sem_reset s = do {
     (woken, wq) \<leftarrow> unpend_all EAGAIN (sem_wait_q s);
     Ret (woken, s\<lparr>sem_wait_q := wq, sem_count := 0\<rparr>)
   }"

definition sem_count_get :: "semaphore \<Rightarrow> u32" where
  "sem_count_get s = sem_count s"

definition sem_limit_get :: "semaphore \<Rightarrow> u32" where
  "sem_limit_get s = sem_limit s"

definition sem_num_waiters :: "semaphore \<Rightarrow> u32" where
  "sem_num_waiters s = wq_length (sem_wait_q s)"

section \<open>The calls on a semaphore and its abstract specification\<close>

datatype sem_op = Give | Try_take | Take_blocking thread | Reset

datatype sem_out = Gave give_result | Took take_result | Pended bool | Woken u32

fun sem_apply :: "sem_op \<Rightarrow> semaphore \<Rightarrow> (sem_out \<times> semaphore) run" where
  "sem_apply Give s = do { (r, s) \<leftarrow> sem_give s; Ret (Gave r, s) }"
| "sem_apply Try_take s = do { (r, s) \<leftarrow> sem_try_take s; Ret (Took r, s) }"
| "sem_apply (Take_blocking t) s = do { (b, s) \<leftarrow> sem_take_blocking t s; Ret (Pended b, s) }"
| "sem_apply Reset s = do { (n, s) \<leftarrow> sem_reset s; Ret (Woken n, s) }"

text \<open>
  When the kernel makes a call: only the blocking take has a condition. A thread blocks
  after it found no token, it is running and it is not already waiting here.
\<close>

fun sem_op_ok :: "sem_op \<Rightarrow> semaphore \<Rightarrow> bool" where
  "sem_op_ok (Take_blocking t) s \<longleftrightarrow> sem_count s = 0 \<and> thread_inv t \<and> th_state t = Running \<and>
     id_of t \<notin> id_of ` set (wq_view (sem_wait_q s))"
| "sem_op_ok _ s \<longleftrightarrow> True"

text \<open>The abstract semaphore: tokens, bound, waiters in service order.\<close>

type_synonym a_sem = "nat \<times> nat \<times> thread list"

fun a_sem_apply :: "sem_op \<Rightarrow> a_sem \<Rightarrow> sem_out \<times> a_sem" where
  "a_sem_apply Give (c, l, t # ws) = (Gave (WokeThread (thread_wake OK_code t)), (c, l, ws))"
| "a_sem_apply Give (c, l, []) =
     (if c < l then (Gave Incremented, (c + 1, l, [])) else (Gave Saturated, (c, l, [])))"
| "a_sem_apply Try_take (c, l, ws) =
     (if 0 < c then (Took Acquired, (c - 1, l, ws)) else (Took WouldBlock, (c, l, ws)))"
| "a_sem_apply (Take_blocking t) (c, l, ws) =
     (if length ws < 64 then (Pended True, (c, l, ins_stable prio_of (thread_block t) ws))
      else (Pended False, (c, l, ws)))"
| "a_sem_apply Reset (c, l, ws) = (Woken (of_nat (length ws)), (0, l, []))"

definition sem_abs :: "semaphore \<Rightarrow> a_sem" where
  "sem_abs s = (unat (sem_count s), unat (sem_limit s), wq_view (sem_wait_q s))"

inductive sem_step :: "semaphore \<Rightarrow> sem_op \<times> sem_out \<Rightarrow> semaphore \<Rightarrow> bool" where
  sem_call: "sem_op_ok f s \<Longrightarrow> sem_apply f s = Some (out, s') \<Longrightarrow> sem_step s (f, out) s'"

inductive_cases sem_step_cases: "sem_step s e s'"

section \<open>Refinement, operation by operation\<close>

lemma sem_give_refines:
  assumes "sem_inv s"
  shows "\<exists>r s'. sem_give s = Some (r, s') \<and> sem_inv s' \<and> a_sem_apply Give (sem_abs s) = (Gave r, sem_abs s')"
proof (cases "wq_view (sem_wait_q s)")
  case Nil
  have q: "unpend_first OK_code (sem_wait_q s) = Some (None, sem_wait_q s)"
    using waitq.rem_empty Nil assms by (simp add: sem_inv_def)
  show ?thesis
  proof (cases "sem_count s = sem_limit s")
    case True
    then show ?thesis using assms q Nil by (simp add: sem_give_def sem_abs_def)
  next
    case False
    then have "sem_count s < sem_limit s"
      using assms by (auto simp: sem_inv_def order_less_le)
    then show ?thesis
      using assms q Nil False unat_plus_one [of "sem_count s" "sem_limit s"]
      by (simp add: sem_give_def sem_abs_def sem_inv_def add_chk_one word_less_nat_alt word_le_nat_alt)
  qed
next
  case (Cons t ws)
  then obtain q' where "unpend_first OK_code (sem_wait_q s) = Some (Some (thread_wake OK_code t), q')"
      "wq_inv q'" "wq_view q' = ws"
    using waitq.rem_first assms by (metis sem_inv_def)
  then show ?thesis
    using assms Cons by (simp add: sem_give_def sem_abs_def sem_inv_def)
qed

lemma sem_try_take_refines:
  assumes "sem_inv s"
  shows "\<exists>r s'. sem_try_take s = Some (r, s') \<and> sem_inv s' \<and>
           a_sem_apply Try_take (sem_abs s) = (Took r, sem_abs s')"
proof (cases "sem_count s = 0")
  case True
  then show ?thesis using assms by (simp add: sem_try_take_def sem_abs_def)
next
  case False
  then have "sem_count s - 1 \<le> sem_limit s"
    using assms by (auto simp: sem_inv_def word_le_nat_alt unat_minus_one)
  then show ?thesis
    using assms False
    by (simp add: sem_try_take_def sem_abs_def sem_inv_def sub_chk_one unat_minus_one word_neq_0_conv
        unat_gt_0)
qed

lemma sem_apply_refines:
  assumes "sem_inv s" and "sem_op_ok f s"
  shows "\<exists>out s'. sem_apply f s = Some (out, s') \<and> sem_inv s' \<and> a_sem_apply f (sem_abs s) = (out, sem_abs s')"
proof (cases f)
  case Give
  then show ?thesis using sem_give_refines [OF assms(1)] by auto
next
  case Try_take
  then show ?thesis using sem_try_take_refines [OF assms(1)] by auto
next
  case (Take_blocking t)
  then show ?thesis
    using pend_block [of "sem_wait_q s" t] assms
    by (auto simp: sem_inv_def sem_abs_def sem_take_blocking_def)
next
  case Reset
  then show ?thesis
    using assms by (simp add: sem_inv_def sem_abs_def sem_reset_def unpend_all_eq wq_new_inv wq_new_view wq_len_view)
qed

section \<open>Executions\<close>

definition sem_good :: "semaphore \<Rightarrow> bool" where
  "sem_good s \<longleftrightarrow> sem_inv s \<and> (wq_view (sem_wait_q s) \<noteq> [] \<longrightarrow> sem_count s = 0)"

lemma sem_step_abs:
  assumes "sem_inv s" and "sem_step s (f, out) s'"
  shows "sem_op_ok f s" and "sem_inv s'" and "a_sem_apply f (sem_abs s) = (out, sem_abs s')"
proof -
  have ok: "sem_op_ok f s" and run: "sem_apply f s = Some (out, s')"
    using assms(2) by (auto elim: sem_step_cases)
  from sem_apply_refines [OF assms(1) ok] run
  show "sem_inv s'" "a_sem_apply f (sem_abs s) = (out, sem_abs s')" by auto
  show "sem_op_ok f s" by (rule ok)
qed

lemma sem_step_good:
  assumes "sem_good s" and "sem_step s e s'"
  shows "sem_good s'"
proof -
  obtain f out where e: "e = (f, out)" by (cases e)
  have "sem_inv s" using assms(1) by (simp add: sem_good_def)
  note step = sem_step_abs [OF this assms(2) [unfolded e]]
  have "sem_count s' = 0" if "wq_view (sem_wait_q s') \<noteq> []"
    using step(1,3) that assms(1)
    by (cases f; cases "wq_view (sem_wait_q s)")
       (auto simp: sem_abs_def sem_good_def unat_eq_0 split: if_splits)
  then show ?thesis using step(2) by (simp add: sem_good_def)
qed

text \<open>Counting the calls of an execution by their outcome.\<close>

definition n_given :: "(sem_op \<times> sem_out) list \<Rightarrow> nat" where
  "n_given es = length (filter (\<lambda>e. fst e = Give) es)"

definition n_granted :: "(sem_op \<times> sem_out) list \<Rightarrow> nat" where
  "n_granted es = length (filter (\<lambda>e. case snd e of Took Acquired \<Rightarrow> True | Gave (WokeThread t) \<Rightarrow> True | _ \<Rightarrow> False) es)"

definition n_dropped :: "(sem_op \<times> sem_out) list \<Rightarrow> nat" where
  "n_dropped es = length (filter (\<lambda>e. snd e = Gave Saturated) es)"

lemmas sem_counts = n_given_def n_granted_def n_dropped_def

lemma sem_step_balance:
  assumes "sem_inv s" and "sem_step s e s'" and "fst e \<noteq> Reset"
  shows "unat (sem_count s) + n_given [e] = unat (sem_count s') + n_granted [e] + n_dropped [e]"
proof -
  obtain f out where e: "e = (f, out)" by (cases e)
  note step = sem_step_abs [OF assms(1) assms(2) [unfolded e]]
  show ?thesis
    using step(3) assms(3) e
    by (cases f; cases "wq_view (sem_wait_q s)") (auto simp: sem_counts sem_abs_def split: if_splits)
qed

section \<open>Properties\<close>

text \<open>
  C10: The semaphore refines its abstract specification. From a well-formed state, every
  call of the kernel (give, try_take, a permitted take_blocking, reset) returns without
  panicking, leaves a well-formed state, and its result and new state are those of the
  abstract semaphore: a give hands its token to the first waiter in priority order or
  else increments up to the limit, a take decrements or reports that it would block, a
  blocking take queues the caller behind the waiters of its priority, a reset empties
  tokens and waiters.
\<close>

theorem sem_refinement:
  assumes "sem_inv s" and "sem_op_ok f s"
  shows "\<exists>out s'. sem_apply f s = Some (out, s') \<and> sem_inv s' \<and> a_sem_apply f (sem_abs s) = (out, sem_abs s')"
  using assms by (rule sem_apply_refines)

theorem sem_refinement_witness:
  "\<exists>out s'. sem_apply Give \<lparr>sem_wait_q = wq_new, sem_count = 1, sem_limit = 3\<rparr> = Some (out, s') \<and> sem_inv s' \<and>
     a_sem_apply Give (1, 3, []) = (out, sem_abs s')"
  using sem_refinement [of "\<lparr>sem_wait_q = wq_new, sem_count = 1, sem_limit = 3\<rparr>" Give]
  by (simp add: sem_inv_def wq_new_inv sem_abs_def wq_new_view)

text \<open>
  No thread waits while a token is available, and the count stays within the limit:
  in every state that the kernel's calls reach from a successful init, the semaphore is
  well-formed, and if any thread is queued the count is zero.
\<close>

theorem sem_reachable:
  assumes "sem_init c l = Inr s0" and "trace sem_step s0 es s"
  shows "sem_inv s \<and> (wq_view (sem_wait_q s) \<noteq> [] \<longrightarrow> sem_count s = 0)"
proof -
  have "sem_good s0"
    using assms(1)
    by (auto simp: sem_init_def sem_good_def sem_inv_def wq_new_inv wq_new_view word_neq_0_conv not_less
        split: if_splits)
  with assms(2) have "sem_good s"
    by (rule trace_invariant) (rule sem_step_good)
  then show ?thesis by (simp add: sem_good_def)
qed

theorem sem_reachable_witness:
  "sem_inv \<lparr>sem_wait_q = wq_new, sem_count = 2, sem_limit = 3\<rparr>"
proof -
  have "sem_step \<lparr>sem_wait_q = wq_new, sem_count = 1, sem_limit = 3\<rparr> (Give, Gave Incremented)
     \<lparr>sem_wait_q = wq_new, sem_count = 2, sem_limit = 3\<rparr>"
    by (rule sem_call) (simp_all add: sem_give_def unpend_first_def wq_new_def add_chk_def)
  then have "trace sem_step \<lparr>sem_wait_q = wq_new, sem_count = 1, sem_limit = 3\<rparr> [(Give, Gave Incremented)]
     \<lparr>sem_wait_q = wq_new, sem_count = 2, sem_limit = 3\<rparr>"
    by (rule trace_snocI [OF trace_Nil]) simp
  from sem_reachable [OF _ this, of 1 3] show ?thesis
    by (simp add: sem_init_def)
qed

text \<open>
  Tokens are conserved. Along any execution without a reset that starts well-formed,
  the tokens at the start plus all gives equal the tokens at the end plus those granted
  (to a take that succeeded or to a thread that a give woke) plus those dropped because
  the semaphore was saturated.
\<close>

theorem sem_conservation:
  assumes "sem_inv s0" and "trace sem_step s0 es s" and "Reset \<notin> set (map fst es)"
  shows "unat (sem_count s0) + n_given es = unat (sem_count s) + n_granted es + n_dropped es"
proof -
  from assms(2,3) have "sem_inv s \<and> unat (sem_count s0) + n_given es = unat (sem_count s) + n_granted es + n_dropped es"
  proof (induction rule: trace.induct)
    case trace_Nil
    show ?case using assms(1) by (simp add: sem_counts)
  next
    case (trace_snoc es s e s')
    moreover have "n_given (es @ [e]) = n_given es + n_given [e]" "n_granted (es @ [e]) = n_granted es + n_granted [e]"
      "n_dropped (es @ [e]) = n_dropped es + n_dropped [e]"
      by (simp_all add: sem_counts)
    ultimately show ?case
      using sem_step_balance [of s e s'] sem_step_abs(2) [of s "fst e" "snd e" s'] by auto
  qed
  then show ?thesis ..
qed

theorem sem_conservation_witness:
  "\<exists>s. trace sem_step \<lparr>sem_wait_q = wq_new, sem_count = 1, sem_limit = 1\<rparr> [(Try_take, Took Acquired), (Give, Gave Incremented)] s \<and>
     unat (sem_count s) = 1"
proof -
  let ?s = "\<lambda>c. \<lparr>sem_wait_q = wq_new, sem_count = c, sem_limit = 1\<rparr>"
  have "sem_step (?s 1) (Try_take, Took Acquired) (?s 0)" "sem_step (?s 0) (Give, Gave Incremented) (?s 1)"
    by (auto intro!: sem_call simp: sem_try_take_def sub_chk_def sem_give_def unpend_first_def wq_new_def add_chk_def)
  then have "trace sem_step (?s 1) [(Try_take, Took Acquired), (Give, Gave Incremented)] (?s 1)"
    by (rule trace_two [of sem_step])
  with sem_conservation [OF _ this] show ?thesis
    by (auto simp: sem_inv_def wq_new_inv sem_counts)
qed

end
