(* ===== verification/Mutex.thy ===== *)
theory Mutex
  imports Wait_Queue
begin

text \<open>
  The reentrant mutex with ownership (src/mutex.rs): the object, the pure decision
  functions of the C shim, and the state machine of the calls the kernel makes, for which
  mutual exclusion and the ownership invariants are shown.
\<close>

section \<open>The mutex object\<close>

datatype lock_result = LockAcquired | LockWouldBlock

datatype unlock_result = Released | Unlocked | Transferred thread

record mutex =
  mx_wait_q :: wait_queue
  mx_owner :: "thread_id option"
  mx_lock_count :: u32

definition mutex_inv :: "mutex \<Rightarrow> bool" where
  "mutex_inv m \<longleftrightarrow> (0 < mx_lock_count m \<longleftrightarrow> mx_owner m \<noteq> None) \<and>
     (0 < wq_len (mx_wait_q m) \<longrightarrow> mx_owner m \<noteq> None) \<and> wq_inv (mx_wait_q m)"

definition mutex_init :: mutex where
  "mutex_init = \<lparr>mx_wait_q = wq_new, mx_owner = None, mx_lock_count = 0\<rparr>"

definition mutex_try_lock :: "thread_id \<Rightarrow> mutex \<Rightarrow> (lock_result \<times> mutex) run" where
  "mutex_try_lock current_id m =
     (if mx_lock_count m = 0
      then Ret (LockAcquired, m\<lparr>mx_owner := Some current_id, mx_lock_count := 1\<rparr>)
      else do {
        owner_id \<leftarrow> unwrap (mx_owner m);
        if tid_id owner_id = tid_id current_id
        then do { c \<leftarrow> add_chk (mx_lock_count m) 1; Ret (LockAcquired, m\<lparr>mx_lock_count := c\<rparr>) }
        else Ret (LockWouldBlock, m)
      })"

definition mutex_lock_blocking :: "thread \<Rightarrow> mutex \<Rightarrow> (bool \<times> mutex) run" where
  "mutex_lock_blocking t m = do {
     (b, wq) \<leftarrow> pend (thread_block t) (mx_wait_q m);
     Ret (b, m\<lparr>mx_wait_q := wq\<rparr>)
   }"

definition mutex_unlock :: "thread_id \<Rightarrow> mutex \<Rightarrow> (unlock_result result \<times> mutex) run" where
  "mutex_unlock current_id m =
     (if mx_owner m = None then Ret (Err EINVAL, m)
      else do {
        owner_id \<leftarrow> unwrap (mx_owner m);
        if tid_id owner_id \<noteq> tid_id current_id then Ret (Err EPERM, m)
        else if 1 < mx_lock_count m
        then do { c \<leftarrow> sub_chk (mx_lock_count m) 1; Ret (Ok Released, m\<lparr>mx_lock_count := c\<rparr>) }
        else do {
          (new_owner, wq) \<leftarrow> unpend_first OK_code (mx_wait_q m);
          let m = m\<lparr>mx_wait_q := wq\<rparr>;
          case new_owner of
            Some t \<Rightarrow> Ret (Ok (Transferred t), m\<lparr>mx_owner := Some (th_id t)\<rparr>)
          | None \<Rightarrow> Ret (Ok Unlocked, m\<lparr>mx_owner := None, mx_lock_count := 0\<rparr>)
        }
      })"

definition mutex_is_locked :: "mutex \<Rightarrow> bool" where
  "mutex_is_locked m \<longleftrightarrow> 0 < mx_lock_count m"

definition mutex_lock_count_get :: "mutex \<Rightarrow> u32" where
  "mutex_lock_count_get m = mx_lock_count m"

definition mutex_num_waiters :: "mutex \<Rightarrow> u32" where
  "mutex_num_waiters m = wq_length (mx_wait_q m)"

definition mutex_owner_get :: "mutex \<Rightarrow> thread_id option" where
  "mutex_owner_get m = mx_owner m"

section \<open>Decisions\<close>

datatype lock_decision = LD_Acquire | LD_Reentrant | LD_Pend | LD_Busy | LD_Overflow

datatype unlock_decision_kind = UD_NotLocked | UD_NotOwner | UD_Released | UD_FullyUnlocked

definition lock_decide :: "u32 \<Rightarrow> bool \<Rightarrow> bool \<Rightarrow> bool \<Rightarrow> lock_decision" where
  "lock_decide lock_count owner_is_null owner_is_current is_no_wait =
     (if owner_is_null then LD_Acquire
      else if owner_is_current then (if lock_count < u32_max then LD_Reentrant else LD_Overflow)
      else if is_no_wait then LD_Busy
      else LD_Pend)"

definition unlock_decide :: "u32 \<Rightarrow> bool \<Rightarrow> bool \<Rightarrow> unlock_decision_kind" where
  "unlock_decide lock_count owner_is_null owner_is_current =
     (if owner_is_null then UD_NotLocked
      else if \<not> owner_is_current then UD_NotOwner
      else if 1 < lock_count then UD_Released
      else UD_FullyUnlocked)"

section \<open>The calls of the kernel\<close>

datatype mutex_event =
    Lock thread_id lock_result
  | LockPend thread bool
  | Unlock thread_id "unlock_result result"

text \<open>
  A thread may try to lock or unlock at any time; it pends only when it is running, is
  not the owner of the locked mutex and is not already waiting (the code's contract).
\<close>

inductive mutex_step :: "mutex \<Rightarrow> mutex_event \<Rightarrow> mutex \<Rightarrow> bool" where
  lock: "mutex_try_lock i m = Some (r, m') \<Longrightarrow> mutex_step m (Lock i r) m'"
| lock_pend: "mx_owner m = Some j \<Longrightarrow> tid_id j \<noteq> id_of t \<Longrightarrow> thread_inv t \<Longrightarrow> th_state t = Running \<Longrightarrow>
    id_of t \<notin> id_of ` set (wq_view (mx_wait_q m)) \<Longrightarrow>
    mutex_lock_blocking t m = Some (b, m') \<Longrightarrow> mutex_step m (LockPend t b) m'"
| unlock: "mutex_unlock i m = Some (r, m') \<Longrightarrow> mutex_step m (Unlock i r) m'"

inductive_cases mutex_step_cases: "mutex_step m e m'"

text \<open>
  How often each thread holds the mutex after a sequence of calls, counted from their
  results only: an acquired lock adds one, a release takes one away, a transfer moves the
  last hold from the caller to the woken thread.
\<close>

fun hold_change :: "mutex_event \<Rightarrow> u32 \<Rightarrow> int" where
  "hold_change (Lock i LockAcquired) j = (if tid_id i = j then 1 else 0)"
| "hold_change (Unlock i (Inr (Transferred t))) j =
     (if id_of t = j then 1 else 0) - (if tid_id i = j then 1 else 0)"
| "hold_change (Unlock i (Inr _)) j = - (if tid_id i = j then 1 else 0)"
| "hold_change _ j = 0"

definition holds :: "mutex_event list \<Rightarrow> u32 \<Rightarrow> int" where
  "holds es j = (\<Sum>e\<leftarrow>es. hold_change e j)"

section \<open>The operations on a well-formed mutex\<close>

lemma word_one_cases: "c \<noteq> 0 \<Longrightarrow> \<not> 1 < c \<Longrightarrow> c = 1" for c :: "'a::len word"
  by unat_arith

lemma mutex_try_lock_panic_iff:
  assumes "mutex_inv m"
  shows "mutex_try_lock i m = None \<longleftrightarrow>
           (\<exists>j. mx_owner m = Some j \<and> tid_id j = tid_id i) \<and> mx_lock_count m = u32_max"
  using assms by (auto simp: mutex_try_lock_def mutex_inv_def add_chk_one_u32 unwrap_def
      word_neq_0_conv split: option.splits if_splits)

lemma mutex_inv_unlocked: "mutex_inv m \<Longrightarrow> mx_owner m = None \<Longrightarrow> wq_view (mx_wait_q m) = []"
  using wq_len_zero_iff [of "mx_wait_q m"] by (auto simp: mutex_inv_def word_gt_0)

text \<open>The invariant of the executions: moreover the owner is not among the waiters.\<close>

definition mutex_good :: "mutex \<Rightarrow> bool" where
  "mutex_good m \<longleftrightarrow> mutex_inv m \<and>
     (\<forall>i. mx_owner m = Some i \<longrightarrow> tid_id i \<notin> id_of ` set (wq_view (mx_wait_q m)))"

text \<open>The depth at which a thread holds the mutex, read off the state.\<close>

definition depth :: "mutex \<Rightarrow> u32 \<Rightarrow> int" where
  "depth m j = (if map_option tid_id (mx_owner m) = Some j then uint (mx_lock_count m) else 0)"

lemma mutex_lock_step:
  assumes "mutex_good m" and "mutex_try_lock i m = Some (r, m')"
  shows "mutex_good m'" and "depth m' j = depth m j + hold_change (Lock i r) j"
proof -
  have inv: "mutex_inv m" using assms(1) by (simp add: mutex_good_def)
  have "mutex_good m' \<and> depth m' j = depth m j + hold_change (Lock i r) j"
  proof (cases "mx_lock_count m = 0")
    case True
    then have "mx_owner m = None" using inv by (simp add: mutex_inv_def)
    then show ?thesis
      using True assms(2) inv mutex_inv_unlocked [OF inv]
      by (auto simp: mutex_try_lock_def mutex_good_def mutex_inv_def depth_def)
  next
    case False
    then obtain k where k: "mx_owner m = Some k" using inv by (auto simp: mutex_inv_def word_neq_0_conv)
    show ?thesis
    proof (cases "tid_id k = tid_id i")
      case True
      then have "mx_lock_count m \<noteq> u32_max" "m' = m\<lparr>mx_lock_count := mx_lock_count m + 1\<rparr>" "r = LockAcquired"
        using assms(2) False k by (auto simp: mutex_try_lock_def add_chk_one_u32 split: if_splits)
      moreover from this(1) have "uint (mx_lock_count m + 1) = uint (mx_lock_count m) + 1"
        by (rule uint_plus_one)
      ultimately show ?thesis
        using assms(1) True k False uint_ge_0 [of "mx_lock_count m"]
        by (auto simp: mutex_good_def mutex_inv_def depth_def word_less_def image_iff)
    next
      case False
      then show ?thesis
        using assms k \<open>mx_lock_count m \<noteq> 0\<close> by (auto simp: mutex_try_lock_def depth_def)
    qed
  qed
  then show "mutex_good m'" "depth m' j = depth m j + hold_change (Lock i r) j" by simp_all
qed

lemma mutex_pend_step:
  assumes "mutex_good m" and "mx_owner m = Some i" and "tid_id i \<noteq> id_of t" and "thread_inv t"
    and "id_of t \<notin> id_of ` set (wq_view (mx_wait_q m))" and "mutex_lock_blocking t m = Some (b, m')"
  shows "mutex_good m'" and "depth m' j = depth m j"
proof -
  obtain q where pend: "pend (thread_block t) (mx_wait_q m) = Some (length (wq_view (mx_wait_q m)) < 64, q)" "wq_inv q"
      "wq_view q = (if length (wq_view (mx_wait_q m)) < 64
         then ins_stable prio_of (thread_block t) (wq_view (mx_wait_q m)) else wq_view (mx_wait_q m))"
    using pend_block [OF _ assms(4,5)] assms(1) unfolding mutex_good_def mutex_inv_def by blast
  then have q: "wq_inv q" "set (wq_view q) \<subseteq> insert (thread_block t) (set (wq_view (mx_wait_q m)))"
    by (auto split: if_splits)
  have m': "m' = m\<lparr>mx_wait_q := q\<rparr>"
    using assms(6) pend(1) by (simp add: mutex_lock_blocking_def)
  show "depth m' j = depth m j" by (auto simp: m' depth_def)
  show "mutex_good m'"
    using assms(1,2,3) q by (auto simp: m' mutex_good_def mutex_inv_def)
qed

text \<open>The four outcomes of an unlock.\<close>

lemma mutex_unlock_cases:
  assumes "mutex_inv m"
  obtains
    (none) "mx_owner m = None" "mutex_unlock i m = Some (Inl EINVAL, m)"
  | (perm) j where "mx_owner m = Some j" "tid_id j \<noteq> tid_id i" "mutex_unlock i m = Some (Inl EPERM, m)"
  | (nested) j where "mx_owner m = Some j" "tid_id j = tid_id i" "1 < mx_lock_count m"
      "mutex_unlock i m = Some (Inr Released, m\<lparr>mx_lock_count := mx_lock_count m - 1\<rparr>)"
  | (free) j where "mx_owner m = Some j" "tid_id j = tid_id i" "mx_lock_count m = 1" "wq_view (mx_wait_q m) = []"
      "mutex_unlock i m = Some (Inr Unlocked, m\<lparr>mx_owner := None, mx_lock_count := 0\<rparr>)"
  | (transfer) j t ts q where "mx_owner m = Some j" "tid_id j = tid_id i" "mx_lock_count m = 1"
      "wq_view (mx_wait_q m) = t # ts" "wq_inv q" "wq_view q = ts"
      "mutex_unlock i m = Some (Inr (Transferred (thread_wake OK_code t)),
                                m\<lparr>mx_wait_q := q, mx_owner := Some (th_id t)\<rparr>)"
proof (cases "mx_owner m")
  case None
  then show ?thesis using none by (simp add: mutex_unlock_def)
next
  case (Some j)
  have wq: "wq_inv (mx_wait_q m)" and count: "mx_lock_count m \<noteq> 0"
    using assms Some by (auto simp: mutex_inv_def)
  consider "tid_id j \<noteq> tid_id i" | "tid_id j = tid_id i" "1 < mx_lock_count m"
    | "tid_id j = tid_id i" "mx_lock_count m = 1" "wq_view (mx_wait_q m) = []"
    | t ts where "tid_id j = tid_id i" "mx_lock_count m = 1" "wq_view (mx_wait_q m) = t # ts"
    using word_one_cases [OF count] by (metis list.exhaust)
  then show ?thesis
  proof cases
    case 1
    then show ?thesis using perm Some by (simp add: mutex_unlock_def)
  next
    case 2
    then show ?thesis using nested Some count by (simp add: mutex_unlock_def sub_chk_one)
  next
    case 3
    then show ?thesis
      using free Some waitq.rem_empty [OF wq, of OK_code] by (simp add: mutex_unlock_def)
  next
    case 4
    then show ?thesis
      using transfer Some waitq.rem_first [OF wq 4(3), of OK_code] by (auto simp: mutex_unlock_def)
  qed
qed

lemma mutex_unlock_step:
  assumes "mutex_good m" and "mutex_unlock i m = Some (r, m')"
  shows "mutex_good m'" and "depth m' j = depth m j + hold_change (Unlock i r) j"
proof -
  have inv: "mutex_inv m" using assms(1) by (simp add: mutex_good_def)
  have "mutex_good m' \<and> depth m' j = depth m j + hold_change (Unlock i r) j"
    using inv
  proof (cases rule: mutex_unlock_cases [where i = i])
    case (nested k)
    then have "mx_lock_count m \<noteq> 0" "0 < mx_lock_count m - 1" by unat_arith+
    then show ?thesis
      using assms nested inv uint_minus_one [of "mx_lock_count m"]
      by (auto simp: mutex_good_def mutex_inv_def depth_def image_iff, metis)
  next
    case (free k)
    moreover have "wq_len (mx_wait_q m) = 0"
      using free(4) inv wq_len_zero_iff by (auto simp: mutex_inv_def)
    ultimately show ?thesis
      using assms inv by (auto simp: mutex_good_def mutex_inv_def depth_def)
  next
    case (transfer k t ts q)
    then have "view_ok (t # ts)" using inv wq_inv_view_ok by (metis mutex_inv_def)
    then have "id_of t \<notin> id_of ` set ts" by (simp add: view_ok_def)
    then show ?thesis
      using assms transfer inv by (auto simp: mutex_good_def mutex_inv_def depth_def)
  qed (use assms in \<open>auto simp: depth_def\<close>)
  then show "mutex_good m'" "depth m' j = depth m j + hold_change (Unlock i r) j" by simp_all
qed

lemma mutex_step_good:
  assumes "mutex_good m" and "mutex_step m e m'"
  shows "mutex_good m' \<and> (\<forall>j. depth m' j = depth m j + hold_change e j)"
  using assms(2)
proof (rule mutex_step_cases)
  fix i r assume "e = Lock i r" "mutex_try_lock i m = Some (r, m')"
  then show ?thesis using mutex_lock_step [OF assms(1)] by blast
next
  fix i t b assume "e = LockPend t b" "mx_owner m = Some i" "tid_id i \<noteq> id_of t" "thread_inv t"
    "id_of t \<notin> id_of ` set (wq_view (mx_wait_q m))" "mutex_lock_blocking t m = Some (b, m')"
  then show ?thesis using mutex_pend_step [OF assms(1)] by simp
next
  fix i r assume "e = Unlock i r" "mutex_unlock i m = Some (r, m')"
  then show ?thesis using mutex_unlock_step [OF assms(1)] by blast
qed

lemma mutex_trace_good:
  assumes "trace mutex_step mutex_init es m"
  shows "mutex_good m \<and> (\<forall>j. holds es j = depth m j)"
  using assms
proof (induction rule: trace.induct)
  case trace_Nil
  show ?case
    by (simp add: mutex_good_def mutex_inv_def mutex_init_def wq_new_inv depth_def holds_def) (simp add: wq_new_def)
next
  case (trace_snoc es m e m')
  then show ?case using mutex_step_good [of m e m'] by (simp add: holds_def)
qed

text \<open>A thread that unlocks n times in a row; the results of the single calls are dropped.\<close>

fun unlock_times :: "nat \<Rightarrow> thread_id \<Rightarrow> mutex \<Rightarrow> mutex run" where
  "unlock_times 0 i m = Ret m"
| "unlock_times (Suc n) i m = do { (r, m) \<leftarrow> mutex_unlock i m; unlock_times n i m }"

lemma unlock_times_nested:
  assumes "mutex_inv m" and "mx_owner m = Some i" and "unat (mx_lock_count m) = Suc n"
  shows "unlock_times (n + k) i m = unlock_times k i (m\<lparr>mx_lock_count := 1\<rparr>)"
  using assms
proof (induction n arbitrary: m)
  case 0
  then have "mx_lock_count m = 1" by (simp add: word_unat_eq_iff)
  then have "m\<lparr>mx_lock_count := 1\<rparr> = m" by (cases m) simp
  then show ?case by simp
next
  case (Suc n)
  then have count: "1 < mx_lock_count m" "mx_lock_count m \<noteq> 0"
    by (auto simp: word_less_nat_alt)
  let ?m = "m\<lparr>mx_lock_count := mx_lock_count m - 1\<rparr>"
  have "unat (mx_lock_count ?m) = Suc n"
    using Suc.prems(3) count(2) by (simp add: unat_minus_one)
  moreover from this have "mutex_inv ?m"
    using Suc.prems(1,2) by (auto simp: mutex_inv_def word_less_nat_alt)
  ultimately have "unlock_times (n + k) i ?m = unlock_times k i (?m\<lparr>mx_lock_count := 1\<rparr>)"
    using Suc.IH [of ?m] Suc.prems(2) by simp
  then show ?case
    using Suc.prems(2) count by (simp add: mutex_unlock_def sub_chk_one)
qed

section \<open>Properties\<close>

text \<open>
  C8: Mutual exclusion. After any sequence of lock, blocking and unlock calls of any
  threads on a fresh mutex, the mutex is well-formed (locked exactly when it has an
  owner, waiters only when locked), the number of holds each thread has, counted from the
  results returned to the callers, is the lock count for the owner and zero for everybody
  else, and so no two threads hold the mutex at once.
\<close>

theorem mutex_exclusion:
  assumes "trace mutex_step mutex_init es m"
  shows "mutex_inv m \<and>
         (\<forall>j. holds es j = (if map_option tid_id (mx_owner m) = Some j then uint (mx_lock_count m) else 0)) \<and>
         (\<forall>i j. 0 < holds es i \<and> 0 < holds es j \<longrightarrow> i = j)"
proof (intro conjI allI impI)
  have held: "mutex_good m" "holds es j = depth m j" for j
    using mutex_trace_good [OF assms] by simp_all
  show "mutex_inv m"
    using held(1) by (simp add: mutex_good_def)
  show "holds es j = (if map_option tid_id (mx_owner m) = Some j then uint (mx_lock_count m) else 0)" for j
    by (simp only: held(2) depth_def)
  have "map_option tid_id (mx_owner m) = Some i" if "0 < depth m i" for i
    using that unfolding depth_def by presburger
  then show "i = j" if "0 < holds es i \<and> 0 < holds es j" for i j
    using that by (metis held(2) option.inject)
qed

theorem mutex_exclusion_witness:
  "\<exists>m. trace mutex_step mutex_init [Lock \<lparr>tid_id = 4\<rparr> LockAcquired, Lock \<lparr>tid_id = 9\<rparr> LockWouldBlock] m \<and>
     mutex_inv m \<and> holds [Lock \<lparr>tid_id = 4\<rparr> LockAcquired, Lock \<lparr>tid_id = 9\<rparr> LockWouldBlock] 9 = 0"
proof -
  let ?m = "\<lparr>mx_wait_q = wq_new, mx_owner = Some \<lparr>tid_id = 4\<rparr>, mx_lock_count = 1\<rparr>"
  have "mutex_step mutex_init (Lock \<lparr>tid_id = 4\<rparr> LockAcquired) ?m" "mutex_step ?m (Lock \<lparr>tid_id = 9\<rparr> LockWouldBlock) ?m"
    by (auto intro!: lock simp: mutex_try_lock_def mutex_init_def)
  then have run: "trace mutex_step mutex_init [Lock \<lparr>tid_id = 4\<rparr> LockAcquired, Lock \<lparr>tid_id = 9\<rparr> LockWouldBlock] ?m"
    by (rule trace_two [of mutex_step])
  note excl = mutex_exclusion [OF run]
  then have "mutex_inv ?m" by (rule conjunct1)
  moreover have "holds [Lock \<lparr>tid_id = 4\<rparr> LockAcquired, Lock \<lparr>tid_id = 9\<rparr> LockWouldBlock] 9 = 0"
    using excl [THEN conjunct2, THEN conjunct1, rule_format, of 9] by simp
  ultimately show ?thesis using run by blast
qed

text \<open>
  C16: The owner's unlocks release the mutex. When the owner unlocks as often as it holds
  the mutex, no call panics, and at the end the mutex belongs to the waiter that was
  first in priority order, with a lock count of one, or is free if nobody waited.
\<close>

theorem mutex_full_release:
  assumes "mutex_inv m" and "mx_owner m = Some i"
  shows "\<exists>m'. unlock_times (unat (mx_lock_count m)) i m = Some m' \<and> mutex_inv m' \<and>
           (case wq_view (mx_wait_q m) of
              [] \<Rightarrow> mx_owner m' = None \<and> mx_lock_count m' = 0
            | t # ts \<Rightarrow> mx_owner m' = Some (th_id t) \<and> mx_lock_count m' = 1 \<and> wq_view (mx_wait_q m') = ts)"
proof -
  let ?m = "m\<lparr>mx_lock_count := 1\<rparr>"
  have inv: "mutex_inv ?m" and count: "mx_lock_count m \<noteq> 0"
    using assms by (auto simp: mutex_inv_def)
  then obtain n where n: "unat (mx_lock_count m) = Suc n"
    by (metis not0_implies_Suc unat_eq_0)
  then have last: "unlock_times (unat (mx_lock_count m)) i m = mutex_unlock i ?m \<bind> (\<lambda>(r, m). Some m)"
    using unlock_times_nested [OF assms, of n 1] by (simp add: split_def)
  show ?thesis
    using inv
  proof (cases rule: mutex_unlock_cases [where i = i])
    case (free j)
    moreover have "wq_len (mx_wait_q m) = 0"
      using free(4) inv wq_len_zero_iff by (auto simp: mutex_inv_def)
    ultimately show ?thesis using last inv by (simp add: mutex_inv_def)
  next
    case (transfer j t ts q)
    then show ?thesis using last inv by (simp add: mutex_inv_def)
  qed (use assms(2) in simp_all)
qed

theorem mutex_full_release_witness:
  "\<exists>m'. unlock_times 3 \<lparr>tid_id = 4\<rparr> \<lparr>mx_wait_q = wq_new, mx_owner = Some \<lparr>tid_id = 4\<rparr>, mx_lock_count = 3\<rparr> = Some m' \<and>
     mx_owner m' = None"
proof -
  let ?m = "\<lparr>mx_wait_q = wq_new, mx_owner = Some \<lparr>tid_id = 4\<rparr>, mx_lock_count = 3\<rparr>"
  have m: "mutex_inv ?m" "mx_owner ?m = Some \<lparr>tid_id = 4\<rparr>" "unat (mx_lock_count ?m) = 3" "wq_view (mx_wait_q ?m) = []"
    by (simp_all add: mutex_inv_def wq_new_inv wq_new_view)
  from mutex_full_release [OF m(1,2)] show ?thesis
    unfolding m(3,4) list.case by blast
qed

text \<open>
  The decision functions that the C shim calls agree with the mutex object: on every
  well-formed mutex lock_decide classifies exactly what try_lock does (including the
  nesting overflow, where the object would panic), and unlock_decide what unlock does.
\<close>

theorem mutex_decide_agrees:
  assumes "mutex_inv m"
  shows "lock_decide (mx_lock_count m) (mx_owner m = None) (map_option tid_id (mx_owner m) = Some (tid_id i)) nw =
           (case mutex_try_lock i m of
              None \<Rightarrow> LD_Overflow
            | Some (LockAcquired, m') \<Rightarrow> if mx_lock_count m' = 1 then LD_Acquire else LD_Reentrant
            | Some (LockWouldBlock, m') \<Rightarrow> if nw then LD_Busy else LD_Pend)
       \<and> (\<exists>r m'. mutex_unlock i m = Some (r, m') \<and>
           unlock_decide (mx_lock_count m) (mx_owner m = None) (map_option tid_id (mx_owner m) = Some (tid_id i)) =
           (case r of
              Inl e \<Rightarrow> if e = EINVAL then UD_NotLocked else UD_NotOwner
            | Inr Released \<Rightarrow> UD_Released
            | Inr _ \<Rightarrow> UD_FullyUnlocked))"
proof
  have "c + 1 \<noteq> 1" if "c \<noteq> 0" for c :: u32
    using that by simp
  then show "lock_decide (mx_lock_count m) (mx_owner m = None) (map_option tid_id (mx_owner m) = Some (tid_id i)) nw =
           (case mutex_try_lock i m of
              None \<Rightarrow> LD_Overflow
            | Some (LockAcquired, m') \<Rightarrow> if mx_lock_count m' = 1 then LD_Acquire else LD_Reentrant
            | Some (LockWouldBlock, m') \<Rightarrow> if nw then LD_Busy else LD_Pend)"
    using assms by (cases "mx_owner m") (auto simp: lock_decide_def mutex_try_lock_def mutex_inv_def
        add_chk_one_u32 u32_less_max_iff word_gt_0)
next
  show "\<exists>r m'. mutex_unlock i m = Some (r, m') \<and>
           unlock_decide (mx_lock_count m) (mx_owner m = None) (map_option tid_id (mx_owner m) = Some (tid_id i)) =
           (case r of
              Inl e \<Rightarrow> if e = EINVAL then UD_NotLocked else UD_NotOwner
            | Inr Released \<Rightarrow> UD_Released
            | Inr _ \<Rightarrow> UD_FullyUnlocked)"
    using assms by (cases rule: mutex_unlock_cases [where i = i]) (auto simp: unlock_decide_def error_codes)
qed

theorem mutex_decide_agrees_witness:
  "lock_decide 0 True False True = LD_Acquire \<and> unlock_decide 0 True False = UD_NotLocked"
proof -
  have "mutex_inv mutex_init"
    by (simp add: mutex_init_def mutex_inv_def wq_new_inv) (simp add: wq_new_def)
  from mutex_decide_agrees [OF this, of "\<lparr>tid_id = 1\<rparr>" True] show ?thesis
    by (auto simp: mutex_init_def mutex_try_lock_def mutex_unlock_def)
qed

end
