(* ===== verification/Condvar.thy ===== *)
theory Condvar
  imports Wait_Queue
begin

text \<open>
  The condition variable (src/condvar.rs): a wait queue and nothing else. The properties
  relate the batch operation to the single one: a broadcast empties the queue and counts
  exactly the threads that repeated signals would wake.
\<close>

section \<open>The condition variable object\<close>

datatype signal_result = SignalEmpty | Woke thread

record condvar =
  cv_wait_q :: wait_queue

definition condvar_inv :: "condvar \<Rightarrow> bool" where
  "condvar_inv c \<longleftrightarrow> wq_inv (cv_wait_q c)"

definition condvar_init :: condvar where
  "condvar_init = \<lparr>cv_wait_q = wq_new\<rparr>"

definition condvar_signal :: "condvar \<Rightarrow> (signal_result \<times> condvar) run" where
  "condvar_signal c = do {
     (th, wq) \<leftarrow> unpend_first OK_code (cv_wait_q c);
     let c = c\<lparr>cv_wait_q := wq\<rparr>;
     case th of
       Some t \<Rightarrow> Ret (Woke t, c)
     | None \<Rightarrow> Ret (SignalEmpty, c)
   }"

definition condvar_broadcast :: "condvar \<Rightarrow> (u32 \<times> condvar) run" where
  "condvar_broadcast c = do {
     (n, wq) \<leftarrow> unpend_all OK_code (cv_wait_q c);
     Ret (n, c\<lparr>cv_wait_q := wq\<rparr>)
   }"

definition condvar_wait_blocking :: "thread \<Rightarrow> condvar \<Rightarrow> (bool \<times> condvar) run" where
  "condvar_wait_blocking t c = do {
     (b, wq) \<leftarrow> pend (thread_block t) (cv_wait_q c);
     Ret (b, c\<lparr>cv_wait_q := wq\<rparr>)
   }"

definition condvar_num_waiters :: "condvar \<Rightarrow> u32" where
  "condvar_num_waiters c = wq_length (cv_wait_q c)"

definition condvar_has_waiters :: "condvar \<Rightarrow> bool" where
  "condvar_has_waiters c \<longleftrightarrow> 0 < wq_length (cv_wait_q c)"

section \<open>Decisions\<close>

datatype signal_action = SA_Noop | SA_WakeOne

definition signal_decide :: "bool \<Rightarrow> signal_action" where
  "signal_decide has_waiter = (if has_waiter then SA_WakeOne else SA_Noop)"

definition broadcast_decide :: "u32 \<Rightarrow> u32" where
  "broadcast_decide num_waiters = num_waiters"

datatype wait_action = WA_Pend | WA_ReturnEagain

definition wait_decide :: "bool \<Rightarrow> wait_action" where
  "wait_decide is_no_wait = (if is_no_wait then WA_ReturnEagain else WA_Pend)"

section \<open>Signalling until nobody waits\<close>

text \<open>The signal as a removal operation, and the threads woken by at most n signals.\<close>

definition signal_rem :: "condvar \<Rightarrow> (thread option \<times> condvar) run" where
  "signal_rem c = do {
     (r, c) \<leftarrow> condvar_signal c;
     Ret (case r of SignalEmpty \<Rightarrow> None | Woke t \<Rightarrow> Some t, c)
   }"

lemma signal_rem_eq:
  "signal_rem c = do { (t, wq) \<leftarrow> unpend_first OK_code (cv_wait_q c); Ret (t, c\<lparr>cv_wait_q := wq\<rparr>) }"
proof (cases "unpend_first OK_code (cv_wait_q c)")
  case (Some r)
  then show ?thesis
    by (cases r; cases "fst r") (auto simp: signal_rem_def condvar_signal_def)
qed (simp add: signal_rem_def condvar_signal_def)

lemma drain_signal:
  assumes "drain (unpend_first OK_code) n (cv_wait_q c) = Some (ts, q)"
  shows "drain signal_rem n c = Some (ts, c\<lparr>cv_wait_q := q\<rparr>)"
  using assms
proof (induction n arbitrary: c ts q)
  case 0
  then show ?case by (cases c) simp
next
  case (Suc n)
  then obtain t wq where t: "unpend_first OK_code (cv_wait_q c) = Some (t, wq)"
    by (auto split: Option.bind_splits)
  show ?case
  proof (cases t)
    case None
    then show ?thesis using Suc.prems t by (simp add: signal_rem_eq)
  next
    case (Some x)
    then obtain ts' where "drain (unpend_first OK_code) n wq = Some (ts', q)" "ts = x # ts'"
      using Suc.prems t by (auto split: Option.bind_splits)
    then show ?thesis
      using Suc.IH [of "c\<lparr>cv_wait_q := wq\<rparr>"] t Some by (simp add: signal_rem_eq)
  qed
qed

section \<open>Properties\<close>

text \<open>
  A broadcast is the signals it replaces. On a well-formed condition variable with n
  waiters, signalling until nobody is left wakes every waiter in priority order with
  return value 0, and a broadcast empties the queue in the same way and returns exactly
  the number of those threads; neither panics.
\<close>

theorem condvar_broadcast_is_signals:
  assumes "condvar_inv c"
  shows "\<exists>ts c' c''. drain signal_rem (Suc (unat (condvar_num_waiters c))) c = Some (ts, c') \<and>
           ts = map (thread_wake OK_code) (wq_view (cv_wait_q c)) \<and> sorted (map prio_of ts) \<and>
           condvar_broadcast c = Some (of_nat (length ts), c'') \<and>
           of_nat (length ts) = broadcast_decide (condvar_num_waiters c) \<and> wq_view (cv_wait_q c') = wq_view (cv_wait_q c'')"
proof -
  let ?q = "cv_wait_q c"
  have inv: "wq_inv ?q" using assms by (simp add: condvar_inv_def)
  have n: "Suc (unat (condvar_num_waiters c)) = Suc (length (wq_view ?q))"
    using wq_inv_slots(2) [OF inv] by (simp add: condvar_num_waiters_def wq_length_def)
  obtain q' where q': "drain (unpend_first OK_code) (Suc (length (wq_view ?q))) ?q =
      Some (map (thread_wake OK_code) (wq_view ?q), q')" "wq_view q' = []"
    using waitq.drain_view [OF inv, of "Suc (length (wq_view ?q))" OK_code] by blast
  have "sorted (map prio_of (map (thread_wake OK_code) (wq_view ?q)))"
    using waitq.inv_sorted [OF inv] by (simp add: comp_def)
  moreover have "condvar_broadcast c = Some (of_nat (length (wq_view ?q)), c\<lparr>cv_wait_q := wq_new\<rparr>)"
    using inv by (simp add: condvar_broadcast_def unpend_all_eq wq_len_view)
  moreover have "of_nat (length (wq_view ?q)) = broadcast_decide (condvar_num_waiters c)"
    using inv by (simp add: broadcast_decide_def condvar_num_waiters_def wq_length_def wq_len_view)
  ultimately show ?thesis
    using drain_signal [OF q'(1)] q'(2) n
    by (intro exI [of _ "map (thread_wake OK_code) (wq_view ?q)"] exI [of _ "c\<lparr>cv_wait_q := q'\<rparr>"]
        exI [of _ "c\<lparr>cv_wait_q := wq_new\<rparr>"])
       (simp add: wq_new_view del: drain.simps)
qed

theorem condvar_broadcast_is_signals_witness:
  "\<exists>ts c' c''. drain signal_rem 1 condvar_init = Some (ts, c') \<and> ts = [] \<and> condvar_broadcast condvar_init = Some (0, c'')"
proof -
  have inv: "condvar_inv condvar_init"
    by (simp add: condvar_inv_def condvar_init_def wq_new_inv)
  have n: "Suc (unat (condvar_num_waiters condvar_init)) = 1" "wq_view (cv_wait_q condvar_init) = []"
    by (simp_all add: condvar_num_waiters_def condvar_init_def wq_length_def wq_new_view) (simp add: wq_new_def)
  from condvar_broadcast_is_signals [OF inv] show ?thesis
    unfolding n by force
qed

end
