(* ===== verification/Sched.thy ===== *)
theory Sched
  imports Prio_Queue Kernel_Thread
begin

text \<open>
  The scheduler (src/sched.rs): the run queue with its array loops, the selection of the
  next thread on a uniprocessor and on one CPU of a multiprocessor (with the bookkeeping
  of the thread that an interrupt-level thread preempted), and the thread state machine.
  The run queue is the second provider of the bounded priority queue contract.
\<close>

section \<open>The run queue\<close>

definition MAX_RUNQ_SIZE :: u32 where
  "MAX_RUNQ_SIZE = 64"

record run_queue =
  rq_entries :: "thread option list"
  rq_len :: u32

definition runq_shift_left :: "thread option list \<Rightarrow> u32 \<Rightarrow> thread option list run" where
  "runq_shift_left entries len = do {
     es \<leftarrow> arr_set entries 0 None;
     n \<leftarrow> sub_chk len 1;
     shift_down 0 (unat n) es
   }"

definition runq_shift_and_insert ::
    "thread option list \<Rightarrow> nat \<Rightarrow> u32 \<Rightarrow> thread \<Rightarrow> thread option list run" where
  "runq_shift_and_insert entries insert_pos len t = do {
     es \<leftarrow> shift_up (unat len) insert_pos entries;
     arr_set es insert_pos (Some t)
   }"

text \<open>The queued threads, in queue order.\<close>

definition rq_view :: "run_queue \<Rightarrow> thread list" where
  "rq_view q = held (unat (rq_len q)) (rq_entries q)"

definition rq_inv :: "run_queue \<Rightarrow> bool" where
  "rq_inv q \<longleftrightarrow> rq_len q \<le> MAX_RUNQ_SIZE \<and> length (rq_entries q) = 64 \<and>
     list_all (\<lambda>e. e \<noteq> None) (take (unat (rq_len q)) (rq_entries q)) \<and>
     list_all (\<lambda>e. e = None) (drop (unat (rq_len q)) (rq_entries q)) \<and>
     sorted (map prio_of (rq_view q))"

definition rq_new :: run_queue where
  "rq_new = \<lparr>rq_entries = replicate 64 None, rq_len = 0\<rparr>"

definition rq_best :: "run_queue \<Rightarrow> thread option run" where
  "rq_best q = (if rq_len q = 0 then Ret None else arr_get (rq_entries q) 0)"

definition rq_add :: "thread \<Rightarrow> run_queue \<Rightarrow> (bool \<times> run_queue) run" where
  "rq_add t q =
     (if MAX_RUNQ_SIZE \<le> rq_len q then Ret (False, q)
      else do {
        insert_pos \<leftarrow> find_pos prio_of (prio_of t) 0 (unat (rq_len q)) (rq_entries q);
        es \<leftarrow> runq_shift_and_insert (rq_entries q) insert_pos (rq_len q) t;
        len' \<leftarrow> add_chk (rq_len q) 1;
        Ret (True, q\<lparr>rq_entries := es, rq_len := len'\<rparr>)
      })"

definition rq_remove_best :: "run_queue \<Rightarrow> (thread option \<times> run_queue) run" where
  "rq_remove_best q =
     (if rq_len q = 0 then Ret (None, q)
      else do {
        th \<leftarrow> arr_get (rq_entries q) 0;
        es \<leftarrow> runq_shift_left (rq_entries q) (rq_len q);
        len' \<leftarrow> sub_chk (rq_len q) 1;
        Ret (th, q\<lparr>rq_entries := es, rq_len := len'\<rparr>)
      })"

definition rq_is_empty :: "run_queue \<Rightarrow> bool" where
  "rq_is_empty q \<longleftrightarrow> rq_len q = 0"

definition rq_count :: "run_queue \<Rightarrow> u32" where
  "rq_count q = rq_len q"

section \<open>Selection of the next thread\<close>

datatype sched_choice = ChooseThread thread | ChooseIdle

text \<open>The difference of two u32 as i64 cannot overflow.\<close>

definition prio_cmp :: "thread \<Rightarrow> thread \<Rightarrow> int" where
  "prio_cmp a b = uint (prio_of a) - uint (prio_of b)"

definition should_preempt :: "bool \<Rightarrow> bool \<Rightarrow> bool \<Rightarrow> bool" where
  "should_preempt current_is_cooperative candidate_is_metairq swap_ok \<longleftrightarrow>
     (if swap_ok then True
      else if current_is_cooperative \<and> \<not> candidate_is_metairq then False
      else True)"

definition next_up :: "thread option \<Rightarrow> thread \<Rightarrow> sched_choice" where
  "next_up runq_best idle =
     (case runq_best of
        Some t \<Rightarrow> ChooseThread t
      | None \<Rightarrow> ChooseThread idle)"

record cpu_sched_state =
  cpu_metairq_preempted :: "thread option"
  cpu_swap_ok :: bool
  cpu_idle_thread :: thread

definition cpu_sched_new :: "thread \<Rightarrow> cpu_sched_state" where
  "cpu_sched_new idle = \<lparr>cpu_metairq_preempted = None, cpu_swap_ok = False, cpu_idle_thread = idle\<rparr>"

record smp_sched_outcome =
  out_choice :: sched_choice
  out_requeue_current :: bool

definition update_metairq_preempt ::
    "thread \<Rightarrow> thread \<Rightarrow> bool \<Rightarrow> cpu_sched_state \<Rightarrow> cpu_sched_state" where
  "update_metairq_preempt new_thread current current_is_cooperative c =
     (if th_is_metairq new_thread \<and> \<not> th_is_metairq current \<and> current_is_cooperative
      then c\<lparr>cpu_metairq_preempted := Some current\<rparr>
      else if \<not> th_is_metairq new_thread then c\<lparr>cpu_metairq_preempted := None\<rparr>
      else c)"

text \<open>
  The body of next_up_smp in the order of the code: prefer the thread a meta-interrupt
  preempted, fall back to the idle thread, let an active current thread keep the CPU, then
  the requeue test and the bookkeeping.
\<close>

definition smp_candidate :: "thread option \<Rightarrow> cpu_sched_state \<Rightarrow> thread option \<times> cpu_sched_state" where
  "smp_candidate runq_best c =
     (case cpu_metairq_preempted c of
        None \<Rightarrow> (runq_best, c)
      | Some mirqp \<Rightarrow>
          let best_is_metairq = (case runq_best of Some t \<Rightarrow> th_is_metairq t | None \<Rightarrow> False)
          in if \<not> best_is_metairq
             then (if th_state mirqp = Ready then (Some mirqp, c)
                   else (runq_best, c\<lparr>cpu_metairq_preempted := None\<rparr>))
             else (runq_best, c))"

definition next_up_smp ::
    "thread option \<Rightarrow> thread \<Rightarrow> cpu_sched_state \<Rightarrow> bool \<Rightarrow> bool \<Rightarrow> bool \<Rightarrow> smp_sched_outcome \<times> cpu_sched_state" where
  "next_up_smp runq_best current c current_is_active current_is_queued current_is_cooperative =
     (let (th, c) = smp_candidate runq_best c;
          candidate = (case th of Some t \<Rightarrow> t | None \<Rightarrow> cpu_idle_thread c);
          chosen =
            (if current_is_active then
               (let cmp = uint (prio_of current) - uint (prio_of candidate);
                    chosen = (if cmp < 0 \<or> (cmp = 0 \<and> \<not> cpu_swap_ok c) then current else candidate)
                in if \<not> should_preempt current_is_cooperative (th_is_metairq chosen) (cpu_swap_ok c)
                   then current else chosen)
             else candidate);
          is_switching = (th_id chosen \<noteq> th_id current);
          is_current_idle = (th_id current = th_id (cpu_idle_thread c));
          is_current_mirq_preempted =
            (case cpu_metairq_preempted c of Some mirqp \<Rightarrow> th_id current = th_id mirqp | None \<Rightarrow> False);
          requeue_current = (is_switching \<and> current_is_active \<and> \<not> current_is_queued \<and>
                             \<not> is_current_idle \<and> \<not> is_current_mirq_preempted);
          c = (if is_switching then update_metairq_preempt chosen current current_is_cooperative c else c)
      in (\<lparr>out_choice = ChooseThread chosen, out_requeue_current = requeue_current\<rparr>,
          c\<lparr>cpu_swap_ok := False\<rparr>))"

definition update_cache ::
    "thread option \<Rightarrow> thread \<Rightarrow> cpu_sched_state \<Rightarrow> bool \<Rightarrow> bool \<Rightarrow> bool \<Rightarrow> thread" where
  "update_cache runq_best current c preempt_ok current_is_cooperative candidate_is_metairq =
     (let th = (case runq_best of Some t \<Rightarrow> t | None \<Rightarrow> cpu_idle_thread c)
      in if should_preempt current_is_cooperative candidate_is_metairq preempt_ok then th else current)"

section \<open>The thread state machine\<close>

fun is_valid_transition :: "thread_state \<Rightarrow> thread_state \<Rightarrow> bool" where
  "is_valid_transition Ready Running = True"
| "is_valid_transition Running Ready = True"
| "is_valid_transition Running Blocked = True"
| "is_valid_transition Blocked Ready = True"
| "is_valid_transition _ Ready = True"
| "is_valid_transition _ _ = False"

datatype sched_thread_state = S_Ready | S_Running | S_Pending | S_Suspended | S_Sleeping | S_Dead | S_Aborting

fun sched_is_valid_transition :: "sched_thread_state \<Rightarrow> sched_thread_state \<Rightarrow> bool" where
  "sched_is_valid_transition S_Ready S_Running = True"
| "sched_is_valid_transition S_Ready S_Dead = True"
| "sched_is_valid_transition S_Ready S_Aborting = True"
| "sched_is_valid_transition S_Running S_Ready = True"
| "sched_is_valid_transition S_Running S_Pending = True"
| "sched_is_valid_transition S_Running S_Suspended = True"
| "sched_is_valid_transition S_Running S_Sleeping = True"
| "sched_is_valid_transition S_Running S_Dead = True"
| "sched_is_valid_transition S_Running S_Aborting = True"
| "sched_is_valid_transition S_Pending S_Ready = True"
| "sched_is_valid_transition S_Pending S_Suspended = True"
| "sched_is_valid_transition S_Pending S_Dead = True"
| "sched_is_valid_transition S_Pending S_Aborting = True"
| "sched_is_valid_transition S_Suspended S_Ready = True"
| "sched_is_valid_transition S_Suspended S_Dead = True"
| "sched_is_valid_transition S_Suspended S_Aborting = True"
| "sched_is_valid_transition S_Sleeping S_Ready = True"
| "sched_is_valid_transition S_Sleeping S_Dead = True"
| "sched_is_valid_transition S_Sleeping S_Aborting = True"
| "sched_is_valid_transition S_Aborting S_Dead = True"
| "sched_is_valid_transition _ _ = False"

fun sched_suspend :: "sched_thread_state \<Rightarrow> sched_thread_state result" where
  "sched_suspend S_Running = Ok S_Suspended"
| "sched_suspend S_Pending = Ok S_Suspended"
| "sched_suspend S_Suspended = Ok S_Suspended"
| "sched_suspend _ = Err EINVAL"

fun sched_resume :: "sched_thread_state \<Rightarrow> sched_thread_state result" where
  "sched_resume S_Suspended = Ok S_Ready"
| "sched_resume _ = Err EINVAL"

fun sched_abort :: "sched_thread_state \<Rightarrow> bool \<Rightarrow> sched_thread_state result" where
  "sched_abort S_Dead smp_remote = Err EINVAL"
| "sched_abort S_Aborting smp_remote = Err EINVAL"
| "sched_abort S_Running smp_remote = (if smp_remote then Ok S_Aborting else Ok S_Dead)"
| "sched_abort _ smp_remote = Ok S_Dead"

fun sched_sleep :: "sched_thread_state \<Rightarrow> sched_thread_state result" where
  "sched_sleep S_Running = Ok S_Sleeping"
| "sched_sleep _ = Err EINVAL"

fun sched_wakeup :: "sched_thread_state \<Rightarrow> sched_thread_state result" where
  "sched_wakeup S_Sleeping = Ok S_Ready"
| "sched_wakeup _ = Err EINVAL"

fun sched_pend :: "sched_thread_state \<Rightarrow> sched_thread_state result" where
  "sched_pend S_Running = Ok S_Pending"
| "sched_pend _ = Err EINVAL"

fun sched_unpend :: "sched_thread_state \<Rightarrow> sched_thread_state result" where
  "sched_unpend S_Pending = Ok S_Ready"
| "sched_unpend _ = Err EINVAL"

section \<open>The run queue provides the priority queue contract\<close>

lemma rq_inv_prefix:
  "rq_inv q \<longleftrightarrow> prefix_filled 64 (unat (rq_len q)) (rq_entries q) \<and> sorted (map prio_of (rq_view q))"
  by (auto simp: rq_inv_def prefix_filled_def MAX_RUNQ_SIZE_def word_le_nat_alt)

lemma rq_inv_slots:
  assumes "rq_inv q"
  shows "rq_entries q = slots 64 (rq_view q)" and "unat (rq_len q) = length (rq_view q)"
    and "length (rq_view q) \<le> 64" and "sorted (map prio_of (rq_view q))"
proof -
  have "prefix_filled 64 (unat (rq_len q)) (rq_entries q)" and sorted: "sorted (map prio_of (rq_view q))"
    using assms by (simp_all add: rq_inv_prefix)
  from prefix_filled_slots [OF this(1)] this(1)
  show "rq_entries q = slots 64 (rq_view q)" "unat (rq_len q) = length (rq_view q)" "length (rq_view q) \<le> 64"
    by (simp_all add: rq_view_def prefix_filled_def)
  show "sorted (map prio_of (rq_view q))" by (rule sorted)
qed

lemma rq_inv_cases:
  assumes "rq_inv q"
  obtains ts n where "q = \<lparr>rq_entries = slots 64 ts, rq_len = n\<rparr>" "unat n = length ts" "ts = rq_view q"
    "length ts \<le> 64" "sorted (map prio_of ts)"
  using that [of "rq_view q" "rq_len q"] rq_inv_slots [OF assms] by (cases q) simp

lemma rq_inv_intro:
  assumes "length ts \<le> 64" and "sorted (map prio_of ts)" and "unat n = length ts"
  shows "rq_inv \<lparr>rq_entries = slots 64 ts, rq_len = n\<rparr>" and "rq_view \<lparr>rq_entries = slots 64 ts, rq_len = n\<rparr> = ts"
proof -
  show "rq_view \<lparr>rq_entries = slots 64 ts, rq_len = n\<rparr> = ts"
    using assms(3) by (simp add: rq_view_def)
  then show "rq_inv \<lparr>rq_entries = slots 64 ts, rq_len = n\<rparr>"
    using assms slots_prefix_filled [OF assms(1)] by (simp add: rq_inv_prefix)
qed

lemma rq_len_zero_iff: "rq_inv q \<Longrightarrow> rq_len q = 0 \<longleftrightarrow> rq_view q = []"
  using rq_inv_slots(2) [of q] by (auto simp: unat_eq_0)

lemma rq_add_room:
  assumes "rq_inv q" and "length (rq_view q) < 64"
  shows "\<exists>q'. rq_add t q = Some (True, q') \<and> rq_inv q' \<and> rq_view q' = ins_stable prio_of t (rq_view q)"
proof -
  obtain ts n where q: "q = \<lparr>rq_entries = slots 64 ts, rq_len = n\<rparr>" "unat n = length ts" "ts = rq_view q"
      "sorted (map prio_of ts)"
    using rq_inv_cases [OF assms(1)] by metis
  have lt: "n < 64" and len: "length ts < 64"
    using q assms(2) by (simp_all add: word_less_nat_alt)
  have "\<not> MAX_RUNQ_SIZE \<le> n"
    using lt by (simp add: MAX_RUNQ_SIZE_def)
  then have "rq_add t q = Some (True, \<lparr>rq_entries = slots 64 (ins_stable prio_of t ts), rq_len = n + 1\<rparr>)"
    using lt by (simp add: q(1,2) rq_add_def runq_shift_and_insert_def insert_slots [OF len, of prio_of] add_chk_one)
  moreover have "unat (n + 1) = length (ins_stable prio_of t ts)"
    using unat_plus_one [OF lt] q(2) by simp
  ultimately show ?thesis
    using rq_inv_intro [of "ins_stable prio_of t ts" "n + 1"] len q(3,4) by (simp add: sorted_ins_stable)
qed

lemma rq_remove_best_first:
  assumes "rq_inv q" and "rq_view q = t # ts"
  shows "\<exists>q'. rq_remove_best q = Some (Some t, q') \<and> rq_inv q' \<and> rq_view q' = ts"
proof -
  obtain n where q: "q = \<lparr>rq_entries = slots 64 (t # ts), rq_len = n\<rparr>" "unat n = length (t # ts)"
      "length (t # ts) \<le> 64" "sorted (map prio_of (t # ts))"
    using rq_inv_cases [OF assms(1)] assms(2) by metis
  then have nz: "n \<noteq> 0" by auto
  with q(2) have n: "unat (n - 1) = length ts" by (simp add: unat_minus_one)
  have head: "arr_get (slots 64 (t # ts)) 0 = Some (Some t)"
    "arr_set (slots 64 (t # ts)) 0 None = Some ((slots 64 (t # ts))[0 := None])"
    using q(3) by (simp_all add: arr_get_def arr_set_def slots_def)
  have "rq_remove_best q = Some (Some t, \<lparr>rq_entries = slots 64 ts, rq_len = n - 1\<rparr>)"
    using n nz q(3)
    by (simp add: q(1) rq_remove_best_def runq_shift_left_def head sub_chk_one shift_down_slots)
  then show ?thesis
    using rq_inv_intro [of ts "n - 1"] q(3,4) n by simp
qed

lemma rq_new_inv: "rq_inv rq_new" and rq_new_view: "rq_view rq_new = []"
  using rq_inv_intro [of "[]" 0] by (simp_all add: rq_new_def)

interpretation runq: prio_queue rq_new rq_view rq_inv rq_add rq_remove_best prio_of
  "\<lambda>t. True" "\<lambda>x y. False" "\<lambda>t. t" 64
proof unfold_locales
  fix q t ts
  show "rq_view rq_new = []" by (rule rq_new_view)
  show "rq_inv rq_new" by (rule rq_new_inv)
  show "sorted (map prio_of (rq_view q))" if "rq_inv q"
    using that by (simp add: rq_inv_def)
  show "length (rq_view q) \<le> 64" if "rq_inv q"
    using that by (rule rq_inv_slots(3))
  show "rq_add t q = Some (False, q)" if "rq_inv q" "length (rq_view q) = 64"
    using that rq_inv_slots(2) [OF that(1)] by (simp add: rq_add_def MAX_RUNQ_SIZE_def word_le_nat_alt)
  show "rq_remove_best q = Some (None, q)" if "rq_inv q" "rq_view q = []"
    using that by (simp add: rq_remove_best_def rq_len_zero_iff)
qed (auto intro: rq_remove_best_first rq_add_room)

section \<open>Selection rules\<close>

text \<open>The thread that competes with the current one, after the first two steps of next_up_smp.\<close>

definition smp_contender :: "thread option \<Rightarrow> cpu_sched_state \<Rightarrow> thread" where
  "smp_contender runq_best c =
     (case fst (smp_candidate runq_best c) of Some t \<Rightarrow> t | None \<Rightarrow> cpu_idle_thread c)"

lemma smp_candidate_frame:
  "cpu_idle_thread (snd (smp_candidate b c)) = cpu_idle_thread c"
  "cpu_swap_ok (snd (smp_candidate b c)) = cpu_swap_ok c"
  by (auto simp: smp_candidate_def Let_def split: option.splits)

lemma prio_uint_less: "uint (prio_of a) - uint (prio_of b) < 0 \<longleftrightarrow> prio_of a < prio_of b"
  and prio_uint_eq: "uint (prio_of a) - uint (prio_of b) = 0 \<longleftrightarrow> prio_of a = prio_of b"
  by (simp_all add: word_less_def word_uint_eq_iff)

text \<open>Step 3 of next_up_smp on its own: what the comparison and the preemption test leave.\<close>

lemma keep_current_iff:
  "(let chosen = (if uint (prio_of cur) - uint (prio_of cand) < 0 \<or>
                     (uint (prio_of cur) - uint (prio_of cand) = 0 \<and> \<not> ok) then cur else cand)
    in if \<not> should_preempt coop (th_is_metairq chosen) ok then cur else chosen) =
   (if prio_of cur < prio_of cand \<or> (\<not> ok \<and> (prio_of cur = prio_of cand \<or> coop \<and> \<not> th_is_metairq cand))
    then cur else cand)"
  unfolding prio_uint_less prio_uint_eq Let_def should_preempt_def
  by (cases ok; cases coop; cases "th_is_metairq cand"; cases "prio_of cur < prio_of cand";
      cases "prio_of cur = prio_of cand"; simp)

lemma next_up_smp_choice:
  "out_choice (fst (next_up_smp b cur c act qd coop)) =
     ChooseThread
       (let cand = smp_contender b c in
        if act \<and> (prio_of cur < prio_of cand \<or>
                   (\<not> cpu_swap_ok c \<and> (prio_of cur = prio_of cand \<or> coop \<and> \<not> th_is_metairq cand)))
        then cur else cand)"
proof -
  have "out_choice (fst (next_up_smp b cur c act qd coop)) =
      ChooseThread (if act
        then let cand = smp_contender b c;
                 chosen = (if uint (prio_of cur) - uint (prio_of cand) < 0 \<or>
                   (uint (prio_of cur) - uint (prio_of cand) = 0 \<and> \<not> cpu_swap_ok c) then cur else cand)
             in if \<not> should_preempt coop (th_is_metairq chosen) (cpu_swap_ok c) then cur else chosen
        else smp_contender b c)"
    unfolding next_up_smp_def smp_contender_def Let_def split_def smp_candidate_frame by (simp only: fst_conv smp_sched_outcome.simps)
  then show ?thesis
    using keep_current_iff [of cur "smp_contender b c" "cpu_swap_ok c" coop] by (cases act) (simp_all add: Let_def)
qed

text \<open>
  The thread a meta-interrupt preempts is kept by value, with the state it has at that
  moment. When that state is Running, the next call does not find it ready.
\<close>

lemma metairq_snapshot_not_ready:
  assumes "th_state cur = Running" and "cpu_metairq_preempted c = Some cur" and "\<not> th_is_metairq t"
  shows "smp_contender (Some t) c = t \<and> cpu_metairq_preempted (snd (smp_candidate (Some t) c)) = None"
  using assms by (simp add: smp_contender_def smp_candidate_def)

section \<open>The thread state machine as a step relation\<close>

datatype sched_op = Suspend | Resume | Abort bool | Sleep | Wakeup | Pend_op | Unpend

fun sched_apply :: "sched_op \<Rightarrow> sched_thread_state \<Rightarrow> sched_thread_state result" where
  "sched_apply Suspend s = sched_suspend s"
| "sched_apply Resume s = sched_resume s"
| "sched_apply (Abort r) s = sched_abort s r"
| "sched_apply Sleep s = sched_sleep s"
| "sched_apply Wakeup s = sched_wakeup s"
| "sched_apply Pend_op s = sched_pend s"
| "sched_apply Unpend s = sched_unpend s"

text \<open>Besides the operations, the scheduler dispatches a ready thread and preempts a running one.\<close>

inductive sched_step :: "sched_thread_state \<Rightarrow> sched_op option \<Rightarrow> sched_thread_state \<Rightarrow> bool" where
  sched_call: "sched_apply f s = Inr s' \<Longrightarrow> sched_step s (Some f) s'"
| dispatch: "sched_step S_Ready None S_Running"
| preempt: "sched_step S_Running None S_Ready"

inductive_cases sched_step_cases: "sched_step s e s'"

lemma sched_apply_valid:
  assumes "sched_apply f s = Inr s'"
  shows "s' = s \<and> s = S_Suspended \<or> sched_is_valid_transition s s'"
  using assms by (cases f; cases s) (auto split: if_splits)

lemma sched_step_valid:
  assumes "sched_step s e s'"
  shows "s' = s \<or> sched_is_valid_transition s s'" and "s \<noteq> S_Dead" and "s \<noteq> S_Aborting"
  using assms
  by (auto elim!: sched_step_cases dest: sched_apply_valid) (auto elim: sched_apply.elims)

section \<open>Properties\<close>

text \<open>
  C17: The run queue is a stable priority queue. Up to 64 threads added to an empty queue
  are all accepted, and removing the best until the queue is empty delivers them in the
  stable sort of their priorities: nothing is lost, duplicated or served out of turn.
\<close>

theorem runq_service_order:
  assumes "length ts \<le> 64"
  shows "\<exists>q q'. fill rq_add ts rq_new = Some (replicate (length ts) True, q) \<and>
           drain rq_remove_best (Suc (length ts)) q = Some (sort_key prio_of ts, q') \<and> rq_view q' = []"
  using runq.fill_drain_sorts [of ts] assms by simp

theorem runq_service_order_witness:
  "\<exists>q q'. fill rq_add [thread_new 1 \<lparr>prio_value = 9\<rparr>, thread_new 2 \<lparr>prio_value = 4\<rparr>] rq_new = Some ([True, True], q) \<and>
     drain rq_remove_best 3 q = Some ([thread_new 2 \<lparr>prio_value = 4\<rparr>, thread_new 1 \<lparr>prio_value = 9\<rparr>], q') \<and> rq_view q' = []"
proof -
  let ?ts = "[thread_new 1 \<lparr>prio_value = 9\<rparr>, thread_new 2 \<lparr>prio_value = 4\<rparr>]"
  have eval: "sort_key prio_of ?ts = [thread_new 2 \<lparr>prio_value = 4\<rparr>, thread_new 1 \<lparr>prio_value = 9\<rparr>]"
      "replicate (length ?ts) True = [True, True]" "Suc (length ?ts) = 3" "length ?ts \<le> 64"
    by (simp_all add: thread_new_def prio_get_def)
  from runq_service_order [OF eval(4)] show ?thesis
    by (simp only: eval)
qed





end
