(* ===== verification/Ring_Queue.thy ===== *)
theory Ring_Queue
  imports Gale_Base
begin

text \<open>
  The contract of the index rings: the message queue and the ring buffer both keep only
  the indices of a circular buffer, hand out the slot to write to or read from, and leave
  the copying of the data to their C caller. The locale states what such an index ring
  promises; from it follows that a caller which stores at the slot of each put and loads
  from the slot of each get has a bounded first-in first-out queue, for every sequence of
  operations.
\<close>

section \<open>The caller of an index ring\<close>

datatype 'a ring_op = Send 'a | Recv

datatype 'a ring_out = Sent bool | Got "'a option"

text \<open>The caller: it owns the storage, one list element per slot.\<close>

definition ring_send ::
    "('q \<Rightarrow> (u32 result \<times> 'q) run) \<Rightarrow> 'a \<Rightarrow> 'q \<times> 'a list \<Rightarrow> ('a ring_out \<times> 'q \<times> 'a list) run" where
  "ring_send put x s = do {
     (r, q) \<leftarrow> put (fst s);
     case r of
       Inl e \<Rightarrow> Ret (Sent False, q, snd s)
     | Inr slot \<Rightarrow> do { buf \<leftarrow> arr_set (snd s) (unat slot) x; Ret (Sent True, q, buf) }
   }"

definition ring_recv ::
    "('q \<Rightarrow> (u32 result \<times> 'q) run) \<Rightarrow> 'q \<times> 'a list \<Rightarrow> ('a ring_out \<times> 'q \<times> 'a list) run" where
  "ring_recv get s = do {
     (r, q) \<leftarrow> get (fst s);
     case r of
       Inl e \<Rightarrow> Ret (Got None, q, snd s)
     | Inr slot \<Rightarrow> do { x \<leftarrow> arr_get (snd s) (unat slot); Ret (Got (Some x), q, snd s) }
   }"

fun ring_run ::
    "('q \<Rightarrow> (u32 result \<times> 'q) run) \<Rightarrow> ('q \<Rightarrow> (u32 result \<times> 'q) run) \<Rightarrow> 'a ring_op list \<Rightarrow> 'q \<times> 'a list \<Rightarrow>
     ('a ring_out list \<times> 'q \<times> 'a list) run" where
  "ring_run put get [] s = Ret ([], s)"
| "ring_run put get (Send x # fs) s = do {
     (out, s) \<leftarrow> ring_send put x s;
     (outs, s) \<leftarrow> ring_run put get fs s;
     Ret (out # outs, s)
   }"
| "ring_run put get (Recv # fs) s = do {
     (out, s) \<leftarrow> ring_recv get s;
     (outs, s) \<leftarrow> ring_run put get fs s;
     Ret (out # outs, s)
   }"

text \<open>The specification: a list of at most c elements.\<close>

fun fifo_step :: "nat \<Rightarrow> 'a ring_op \<Rightarrow> 'a list \<Rightarrow> 'a ring_out \<times> 'a list" where
  "fifo_step c (Send x) xs = (if length xs < c then (Sent True, xs @ [x]) else (Sent False, xs))"
| "fifo_step c Recv [] = (Got None, [])"
| "fifo_step c Recv (x # xs) = (Got (Some x), xs)"

fun fifo_run :: "nat \<Rightarrow> 'a ring_op list \<Rightarrow> 'a list \<Rightarrow> 'a ring_out list \<times> 'a list" where
  "fifo_run c [] xs = ([], xs)"
| "fifo_run c (f # fs) xs =
     (let (out, xs) = fifo_step c f xs; (outs, xs) = fifo_run c fs xs in (out # outs, xs))"

section \<open>Slots of a ring\<close>

text \<open>The elements of a ring of capacity c from slot h on, n of them.\<close>

definition ring_list :: "nat \<Rightarrow> nat \<Rightarrow> nat \<Rightarrow> 'a list \<Rightarrow> 'a list" where
  "ring_list c h n buf = map (\<lambda>k. buf ! ((h + k) mod c)) [0..<n]"

lemma length_ring_list [simp]: "length (ring_list c h n buf) = n"
  by (simp add: ring_list_def)

lemma mod_ring_neq:
  fixes c h j k :: nat
  assumes "j < k" and "k < c"
  shows "(h + k) mod c \<noteq> (h + j) mod c"
proof
  assume "(h + k) mod c = (h + j) mod c"
  then have "c dvd k - j"
    using assms mod_eq_dvd_iff_nat [of "h + j" "h + k" c] by simp
  then show False
    using assms nat_dvd_not_less [of "k - j" c] by simp
qed

lemma ring_list_put:
  assumes "n < c" and "length buf = c"
  shows "ring_list c h (Suc n) (buf[(h + n) mod c := x]) = ring_list c h n buf @ [x]"
  using assms mod_ring_neq [OF _ assms(1), of _ h] by (auto simp: ring_list_def)

lemma ring_list_get: "ring_list c h (Suc n) buf = buf ! (h mod c) # ring_list c ((h + 1) mod c) n buf"
proof -
  have "[0..<Suc n] = 0 # map Suc [0..<n]"
    by (simp add: upt_conv_Cons map_Suc_upt del: upt_Suc)
  then show ?thesis
    by (simp add: ring_list_def mod_simps)
qed

lemma ring_list_put_front:
  assumes "0 < c" and "h < c" and "n < c" and "length buf = c"
  shows "ring_list c ((h + c - 1) mod c) (Suc n) (buf[(h + c - 1) mod c := x]) = x # ring_list c h n buf"
proof -
  let ?h = "(h + c - 1) mod c"
  have h: "(?h + 1) mod c = h"
    using assms by (simp add: mod_simps)
  have shift: "(?h + Suc k) mod c = (h + k) mod c" for k
  proof -
    have "(?h + Suc k) mod c = ((?h + 1) mod c + k) mod c"
      by (simp only: mod_add_left_eq) simp
    then show ?thesis by (simp only: h)
  qed
  have "buf[?h := x] ! ((h + k) mod c) = buf ! ((h + k) mod c)" if "k < n" for k
    using mod_ring_neq [of 0 "Suc k" c ?h] that assms(1,3) shift [of k] by simp
  then have "ring_list c h n (buf[?h := x]) = ring_list c h n buf"
    by (simp add: ring_list_def)
  moreover have "ring_list c ?h (Suc n) (buf[?h := x]) = x # ring_list c h n (buf[?h := x])"
    using assms(1,4) by (simp only: ring_list_get h) simp
  ultimately show ?thesis by simp
qed

text \<open>The consistency of the indices, modulo the capacity.\<close>

lemma consistent_mod:
  fixes r u w m :: nat
  assumes "r < m" and "u \<le> m" and "w < m"
  shows "(if r + u < m then w = r + u else w + m = r + u) \<longleftrightarrow> w = (r + u) mod m"
  using assms by (auto simp: le_mod_geq)

text \<open>How the code advances an index, and what it means modulo the capacity.\<close>

definition next_index :: "u32 \<Rightarrow> u32 \<Rightarrow> u32 run" where
  "next_index idx cap = do {
     i \<leftarrow> add_chk idx 1;
     if i < cap then add_chk idx 1 else Ret 0
   }"

lemma next_index_mod:
  assumes "idx < cap"
  shows "\<exists>i. next_index idx cap = Some i \<and> unat i = (unat idx + 1) mod unat cap \<and> i < cap"
proof -
  have step: "add_chk idx 1 = Some (idx + 1)" "unat (idx + 1) = unat idx + 1"
    using assms by (simp_all add: add_chk_one unat_plus_one)
  show ?thesis
  proof (cases "idx + 1 < cap")
    case True
    then show ?thesis using step by (simp add: next_index_def word_less_nat_alt)
  next
    case False
    then have "unat idx + 1 = unat cap" using step(2) assms by (simp add: word_less_nat_alt)
    then show ?thesis using False step(1) assms by (auto simp: next_index_def word_gt_0)
  qed
qed

text \<open>The sum of two in-range indices, reduced once in 64 bits.\<close>

definition wrap_sum :: "u32 \<Rightarrow> u32 \<Rightarrow> u32 \<Rightarrow> u32 run" where
  "wrap_sum a b cap = do {
     sum \<leftarrow> add_chk (ucast a :: u64) (ucast b);
     let max = (ucast cap :: u64);
     if sum < max then Ret (ucast sum) else do { d \<leftarrow> sub_chk sum max; Ret (ucast d) }
   }"

lemma wrap_sum_mod:
  assumes "a < cap" and "b \<le> cap"
  shows "\<exists>s. wrap_sum a b cap = Some s \<and> unat s = (unat a + unat b) mod unat cap \<and> s < cap"
proof -
  let ?a = "ucast a :: u64" and ?b = "ucast b :: u64" and ?c = "ucast cap :: u64"
  have conv: "unat ?a = unat a" "unat ?b = unat b" "unat ?c = unat cap"
    by simp_all
  have lt: "unat a < unat cap" "unat b \<le> unat cap"
    using assms by (simp_all add: word_less_nat_alt word_le_nat_alt)
  have sum: "add_chk ?a ?b = Some (?a + ?b)" and usum: "unat (?a + ?b) = unat a + unat b"
    using unat_u32_less [of a] unat_u32_less [of b] by (auto simp: add_chk_def unat_word_ariths conv)
  have down: "unat (ucast w :: u32) = unat w" if "unat w < unat cap" for w :: u64
    using that unat_u32_less [of cap] by (simp add: unat_ucast_u32)
  show ?thesis
  proof (cases "unat a + unat b < unat cap")
    case True
    then have "wrap_sum a b cap = Some (ucast (?a + ?b))"
      using sum usum conv by (simp add: wrap_sum_def word_less_nat_alt)
    then show ?thesis using True down usum by (simp add: word_less_nat_alt)
  next
    case False
    then have "?c \<le> ?a + ?b" using usum conv by (simp add: word_le_nat_alt)
    moreover from this have "unat (?a + ?b - ?c) = unat a + unat b - unat cap"
      using usum conv unat_sub [of ?c "?a + ?b"] by simp
    moreover have "(unat a + unat b) mod unat cap = unat a + unat b - unat cap"
      using False lt by (simp add: le_mod_geq)
    ultimately show ?thesis
      using False lt sum usum conv down [of "?a + ?b - ?c"]
      by (simp add: wrap_sum_def sub_chk_def word_less_nat_alt word_le_nat_alt)
  qed
qed

section \<open>The contract of an index ring\<close>

locale index_ring =
  fixes cap :: "'q \<Rightarrow> nat"
    and first :: "'q \<Rightarrow> nat"
    and used :: "'q \<Rightarrow> nat"
    and inv :: "'q \<Rightarrow> bool"
    and put :: "'q \<Rightarrow> (u32 result \<times> 'q) run"
    and get :: "'q \<Rightarrow> (u32 result \<times> 'q) run"
  assumes bounds: "inv q \<Longrightarrow> 0 < cap q \<and> first q < cap q \<and> used q \<le> cap q"
    and put_room: "inv q \<Longrightarrow> used q < cap q \<Longrightarrow>
      \<exists>slot q'. put q = Some (Inr slot, q') \<and> unat slot = (first q + used q) mod cap q \<and>
        inv q' \<and> cap q' = cap q \<and> first q' = first q \<and> used q' = Suc (used q)"
    and put_full: "inv q \<Longrightarrow> used q = cap q \<Longrightarrow> \<exists>e. put q = Some (Inl e, q)"
    and get_some: "inv q \<Longrightarrow> 0 < used q \<Longrightarrow>
      \<exists>slot q'. get q = Some (Inr slot, q') \<and> unat slot = first q \<and>
        inv q' \<and> cap q' = cap q \<and> first q' = (first q + 1) mod cap q \<and> Suc (used q') = used q"
    and get_empty: "inv q \<Longrightarrow> used q = 0 \<Longrightarrow> \<exists>e. get q = Some (Inl e, q)"
begin

text \<open>The relation between the ring with its storage and the list it represents.\<close>

definition represents :: "'q \<times> 'a list \<Rightarrow> nat \<Rightarrow> 'a list \<Rightarrow> bool" where
  "represents s c xs \<longleftrightarrow> inv (fst s) \<and> cap (fst s) = c \<and> length (snd s) = c \<and>
     xs = ring_list c (first (fst s)) (used (fst s)) (snd s)"

lemma send_refines:
  assumes "represents s c xs"
  shows "\<exists>s'. ring_send put x s = Some (fst (fifo_step c (Send x) xs), s') \<and>
           represents s' c (snd (fifo_step c (Send x) xs))"
proof -
  obtain q buf where sq: "s = (q, buf)" by (cases s)
  have s: "inv q" "cap q = c" "length buf = c" "xs = ring_list c (first q) (used q) buf"
    using assms by (simp_all add: represents_def sq)
  show ?thesis
  proof (cases "used q < c")
    case True
    then obtain slot q' where q': "put q = Some (Inr slot, q')" "unat slot = (first q + used q) mod c"
        "inv q'" "cap q' = c" "first q' = first q" "used q' = Suc (used q)"
      using put_room [OF s(1)] s(2) by auto
    moreover have "unat slot < c"
      using q'(2) True by simp
    ultimately show ?thesis
      using True s ring_list_put [OF True s(3)]
      by (auto simp: ring_send_def arr_set_def represents_def sq)
  next
    case False
    then have "used q = cap q" using bounds [OF s(1)] s(2) by simp
    then show ?thesis
      using put_full [OF s(1)] s by (auto simp: ring_send_def represents_def sq)
  qed
qed

lemma recv_refines:
  assumes "represents s c xs"
  shows "\<exists>s'. ring_recv get s = Some (fst (fifo_step c Recv xs), s') \<and>
           represents s' c (snd (fifo_step c Recv xs))"
proof -
  obtain q buf where sq: "s = (q, buf)" by (cases s)
  have s: "inv q" "cap q = c" "length buf = c" "xs = ring_list c (first q) (used q) buf"
    using assms by (simp_all add: represents_def sq)
  show ?thesis
  proof (cases "used q")
    case 0
    then have "xs = []" using s(4) by (simp add: ring_list_def)
    then show ?thesis
      using get_empty [OF s(1) 0] s 0 by (auto simp: ring_recv_def represents_def sq)
  next
    case (Suc n)
    then obtain slot q' where q': "get q = Some (Inr slot, q')" "unat slot = first q"
        "inv q'" "cap q' = c" "first q' = (first q + 1) mod c" "used q' = n"
      using get_some [OF s(1)] s(2) by auto
    have lt: "first q < c" using bounds [OF s(1)] s(2) by simp
    then have "xs = buf ! first q # ring_list c (first q') n buf"
      using s(4) Suc q'(5) by (simp add: ring_list_get)
    then show ?thesis
      using q' s lt by (simp add: ring_recv_def arr_get_def represents_def sq)
  qed
qed

lemma run_refines:
  assumes "represents s c xs"
  shows "\<exists>s'. ring_run put get fs s = Some (fst (fifo_run c fs xs), s') \<and> represents s' c (snd (fifo_run c fs xs))"
  using assms
proof (induction fs arbitrary: s xs)
  case Nil
  then show ?case by simp
next
  case (Cons f fs)
  obtain s1 where s1: "represents s1 c (snd (fifo_step c f xs))"
      "(case f of Send x \<Rightarrow> ring_send put x s | Recv \<Rightarrow> ring_recv get s) = Some (fst (fifo_step c f xs), s1)"
  proof (cases f)
    case (Send x)
    then show ?thesis using send_refines [OF Cons.prems, of x] that by force
  next
    case Recv
    then show ?thesis using recv_refines [OF Cons.prems] that by force
  qed
  obtain s2 where "ring_run put get fs s1 = Some (fst (fifo_run c fs (snd (fifo_step c f xs))), s2)"
      "represents s2 c (snd (fifo_run c fs (snd (fifo_step c f xs))))"
    using Cons.IH [OF s1(1)] by blast
  with s1(2) show ?case
    by (cases f) (auto simp: Let_def split_def)
qed

end

end
