(* ===== verification/Msgq.thy ===== *)
theory Msgq
  imports Ring_Queue Kernel_Thread
begin

text \<open>
  The message queue (src/msgq.rs): the ring indices of the object and the decision
  functions of the C shim. The object is interpreted as an index ring, which makes it a
  bounded first-in first-out queue for its caller; urgent messages (put_front), peeking
  and purging are related to the same list view.
\<close>

section \<open>The message queue object\<close>

record msgq =
  mq_msg_size :: u32
  mq_max_msgs :: u32
  mq_read_idx :: u32
  mq_write_idx :: u32
  mq_used_msgs :: u32

definition mq_ring_consistent :: "msgq \<Rightarrow> bool" where
  "mq_ring_consistent q \<longleftrightarrow>
     (if unat (mq_read_idx q) + unat (mq_used_msgs q) < unat (mq_max_msgs q)
      then unat (mq_write_idx q) = unat (mq_read_idx q) + unat (mq_used_msgs q)
      else unat (mq_write_idx q) + unat (mq_max_msgs q) = unat (mq_read_idx q) + unat (mq_used_msgs q))"

definition mq_inv :: "msgq \<Rightarrow> bool" where
  "mq_inv q \<longleftrightarrow> 0 < mq_msg_size q \<and> 0 < mq_max_msgs q \<and> mq_read_idx q < mq_max_msgs q \<and>
     mq_write_idx q < mq_max_msgs q \<and> mq_used_msgs q \<le> mq_max_msgs q \<and> mq_ring_consistent q"

definition mq_init :: "u32 \<Rightarrow> u32 \<Rightarrow> msgq result" where
  "mq_init msg_size max_msgs =
     (if msg_size = 0 \<or> max_msgs = 0 then Err EINVAL
      else if checked_mul msg_size max_msgs = None then Err EINVAL
      else Ok \<lparr>mq_msg_size = msg_size, mq_max_msgs = max_msgs, mq_read_idx = 0, mq_write_idx = 0, mq_used_msgs = 0\<rparr>)"

definition mq_next_idx :: "msgq \<Rightarrow> u32 \<Rightarrow> u32 run" where
  "mq_next_idx q idx = next_index idx (mq_max_msgs q)"

definition mq_prev_idx :: "msgq \<Rightarrow> u32 \<Rightarrow> u32 run" where
  "mq_prev_idx q idx = (if idx = 0 then sub_chk (mq_max_msgs q) 1 else sub_chk idx 1)"

definition mq_put :: "msgq \<Rightarrow> (u32 result \<times> msgq) run" where
  "mq_put q =
     (if mq_max_msgs q \<le> mq_used_msgs q then Ret (Err ENOMSG, q)
      else do {
        let slot = mq_write_idx q;
        w \<leftarrow> mq_next_idx q (mq_write_idx q);
        n \<leftarrow> add_chk (mq_used_msgs q) 1;
        Ret (Ok slot, q\<lparr>mq_write_idx := w, mq_used_msgs := n\<rparr>)
      })"

definition mq_put_front :: "msgq \<Rightarrow> (u32 result \<times> msgq) run" where
  "mq_put_front q =
     (if mq_max_msgs q \<le> mq_used_msgs q then Ret (Err ENOMSG, q)
      else do {
        r \<leftarrow> mq_prev_idx q (mq_read_idx q);
        n \<leftarrow> add_chk (mq_used_msgs q) 1;
        Ret (Ok r, q\<lparr>mq_read_idx := r, mq_used_msgs := n\<rparr>)
      })"

definition mq_get :: "msgq \<Rightarrow> (u32 result \<times> msgq) run" where
  "mq_get q =
     (if mq_used_msgs q = 0 then Ret (Err ENOMSG, q)
      else do {
        let slot = mq_read_idx q;
        r \<leftarrow> mq_next_idx q (mq_read_idx q);
        n \<leftarrow> sub_chk (mq_used_msgs q) 1;
        Ret (Ok slot, q\<lparr>mq_read_idx := r, mq_used_msgs := n\<rparr>)
      })"

definition mq_peek_at :: "msgq \<Rightarrow> u32 \<Rightarrow> u32 result run" where
  "mq_peek_at q idx =
     (if mq_used_msgs q \<le> idx then Ret (Err ENOMSG)
      else do { slot \<leftarrow> wrap_sum (mq_read_idx q) idx (mq_max_msgs q); Ret (Ok slot) })"

definition mq_purge :: "msgq \<Rightarrow> u32 \<times> msgq" where
  "mq_purge q = (mq_used_msgs q, q\<lparr>mq_used_msgs := 0, mq_read_idx := mq_write_idx q\<rparr>)"

definition mq_num_free_get :: "msgq \<Rightarrow> u32 run" where
  "mq_num_free_get q = sub_chk (mq_max_msgs q) (mq_used_msgs q)"

definition mq_num_used_get :: "msgq \<Rightarrow> u32" where
  "mq_num_used_get q = mq_used_msgs q"

definition mq_is_full :: "msgq \<Rightarrow> bool" where
  "mq_is_full q \<longleftrightarrow> mq_used_msgs q = mq_max_msgs q"

definition mq_is_empty :: "msgq \<Rightarrow> bool" where
  "mq_is_empty q \<longleftrightarrow> mq_used_msgs q = 0"

section \<open>Decisions\<close>

datatype put_decision = PD_Store | PD_WakeReader | PD_Pend | PD_Full

record put_decide_result =
  pd_decision :: put_decision
  pd_new_write_idx :: u32
  pd_new_used :: u32

datatype get_decision = GE_Read | GE_WakeWriter | GE_Pend | GE_Empty

record get_decide_result =
  gd_decision :: get_decision
  gd_new_read_idx :: u32
  gd_new_used :: u32

definition put_decide :: "u32 \<Rightarrow> u32 \<Rightarrow> u32 \<Rightarrow> bool \<Rightarrow> bool \<Rightarrow> put_decide_result run" where
  "put_decide write_idx used_msgs max_msgs has_waiter is_no_wait =
     (if used_msgs < max_msgs then
        (if has_waiter
         then Ret \<lparr>pd_decision = PD_WakeReader, pd_new_write_idx = write_idx, pd_new_used = used_msgs\<rparr>
         else do {
           nxt \<leftarrow> next_index write_idx max_msgs;
           n \<leftarrow> add_chk used_msgs 1;
           Ret \<lparr>pd_decision = PD_Store, pd_new_write_idx = nxt, pd_new_used = n\<rparr>
         })
      else if is_no_wait
      then Ret \<lparr>pd_decision = PD_Full, pd_new_write_idx = write_idx, pd_new_used = used_msgs\<rparr>
      else Ret \<lparr>pd_decision = PD_Pend, pd_new_write_idx = write_idx, pd_new_used = used_msgs\<rparr>)"

definition get_decide :: "u32 \<Rightarrow> u32 \<Rightarrow> u32 \<Rightarrow> bool \<Rightarrow> bool \<Rightarrow> get_decide_result run" where
  "get_decide read_idx used_msgs max_msgs has_waiter is_no_wait =
     (if 0 < used_msgs then do {
        nxt \<leftarrow> next_index read_idx max_msgs;
        n \<leftarrow> sub_chk used_msgs 1;
        if has_waiter
        then Ret \<lparr>gd_decision = GE_WakeWriter, gd_new_read_idx = nxt, gd_new_used = n\<rparr>
        else Ret \<lparr>gd_decision = GE_Read, gd_new_read_idx = nxt, gd_new_used = n\<rparr>
      }
      else if is_no_wait
      then Ret \<lparr>gd_decision = GE_Empty, gd_new_read_idx = read_idx, gd_new_used = 0\<rparr>
      else Ret \<lparr>gd_decision = GE_Pend, gd_new_read_idx = read_idx, gd_new_used = 0\<rparr>)"

record put_front_decide_result =
  pf_ok :: bool
  pf_new_read_idx :: u32
  pf_new_used :: u32

definition put_front_decide :: "u32 \<Rightarrow> u32 \<Rightarrow> u32 \<Rightarrow> put_front_decide_result run" where
  "put_front_decide read_idx used_msgs max_msgs =
     (if used_msgs < max_msgs then do {
        prv \<leftarrow> (if read_idx = 0 then sub_chk max_msgs 1 else sub_chk read_idx 1);
        n \<leftarrow> add_chk used_msgs 1;
        Ret \<lparr>pf_ok = True, pf_new_read_idx = prv, pf_new_used = n\<rparr>
      }
      else Ret \<lparr>pf_ok = False, pf_new_read_idx = read_idx, pf_new_used = used_msgs\<rparr>)"

record peek_at_decide_result =
  pk_ok :: bool
  pk_slot_idx :: u32

definition peek_at_decide :: "u32 \<Rightarrow> u32 \<Rightarrow> u32 \<Rightarrow> u32 \<Rightarrow> peek_at_decide_result run" where
  "peek_at_decide read_idx used_msgs max_msgs idx =
     (if used_msgs \<le> idx then Ret \<lparr>pk_ok = False, pk_slot_idx = 0\<rparr>
      else do {
        slot \<leftarrow> wrap_sum read_idx idx max_msgs;
        Ret \<lparr>pk_ok = True, pk_slot_idx = slot\<rparr>
      })"

section \<open>The message queue is an index ring\<close>

lemma mq_inv_nat:
  "mq_inv q \<longleftrightarrow> 0 < mq_msg_size q \<and> unat (mq_read_idx q) < unat (mq_max_msgs q) \<and>
     unat (mq_used_msgs q) \<le> unat (mq_max_msgs q) \<and> mq_write_idx q < mq_max_msgs q \<and>
     unat (mq_write_idx q) = (unat (mq_read_idx q) + unat (mq_used_msgs q)) mod unat (mq_max_msgs q)"
proof -
  have "0 < unat (mq_max_msgs q)" if "unat (mq_read_idx q) < unat (mq_max_msgs q)"
    using that by simp
  then show ?thesis
    using consistent_mod [of "unat (mq_read_idx q)" "unat (mq_max_msgs q)" "unat (mq_used_msgs q)" "unat (mq_write_idx q)"]
    unfolding mq_inv_def mq_ring_consistent_def word_less_nat_alt word_le_nat_alt unat_0 by blast
qed

lemma mq_used_less: "mq_inv q \<Longrightarrow> \<not> mq_max_msgs q \<le> mq_used_msgs q \<Longrightarrow>
    add_chk (mq_used_msgs q) 1 = Some (mq_used_msgs q + 1) \<and> unat (mq_used_msgs q + 1) = Suc (unat (mq_used_msgs q))"
  by (simp add: not_le add_chk_one unat_plus_one)

lemma mq_put_room:
  assumes "mq_inv q" and "unat (mq_used_msgs q) < unat (mq_max_msgs q)"
  shows "\<exists>q'. mq_put q = Some (Inr (mq_write_idx q), q') \<and> mq_inv q' \<and> mq_max_msgs q' = mq_max_msgs q \<and>
           mq_read_idx q' = mq_read_idx q \<and> unat (mq_used_msgs q') = Suc (unat (mq_used_msgs q))"
proof -
  have room: "\<not> mq_max_msgs q \<le> mq_used_msgs q" and w: "mq_write_idx q < mq_max_msgs q"
    using assms by (simp_all add: word_le_nat_alt mq_inv_def)
  note n = mq_used_less [OF assms(1) room]
  obtain i where i: "next_index (mq_write_idx q) (mq_max_msgs q) = Some i" "i < mq_max_msgs q"
      "unat i = (unat (mq_write_idx q) + 1) mod unat (mq_max_msgs q)"
    using next_index_mod [OF w] by blast
  let ?q = "q\<lparr>mq_write_idx := i, mq_used_msgs := mq_used_msgs q + 1\<rparr>"
  have "unat i = (unat (mq_read_idx q) + Suc (unat (mq_used_msgs q))) mod unat (mq_max_msgs q)"
    using i(3) assms(1) by (simp add: mq_inv_nat mod_simps)
  then have "mq_inv ?q"
    using assms i(2) n by (simp add: mq_inv_nat)
  then show ?thesis
    using room n i(1) by (simp add: mq_put_def mq_next_idx_def)
qed

lemma mq_get_some:
  assumes "mq_inv q" and "0 < unat (mq_used_msgs q)"
  shows "\<exists>q'. mq_get q = Some (Inr (mq_read_idx q), q') \<and> mq_inv q' \<and> mq_max_msgs q' = mq_max_msgs q \<and>
           unat (mq_read_idx q') = (unat (mq_read_idx q) + 1) mod unat (mq_max_msgs q) \<and>
           Suc (unat (mq_used_msgs q')) = unat (mq_used_msgs q)"
proof -
  have nz: "mq_used_msgs q \<noteq> 0" and r: "mq_read_idx q < mq_max_msgs q"
    using assms by (auto simp: mq_inv_def)
  obtain i where i: "next_index (mq_read_idx q) (mq_max_msgs q) = Some i" "i < mq_max_msgs q"
      "unat i = (unat (mq_read_idx q) + 1) mod unat (mq_max_msgs q)"
    using next_index_mod [OF r] by blast
  let ?q = "q\<lparr>mq_read_idx := i, mq_used_msgs := mq_used_msgs q - 1\<rparr>"
  have u: "Suc (unat (mq_used_msgs q - 1)) = unat (mq_used_msgs q)"
    using nz assms(2) by (simp add: unat_minus_one)
  then have "(unat i + unat (mq_used_msgs q - 1)) mod unat (mq_max_msgs q) =
      (unat (mq_read_idx q) + unat (mq_used_msgs q)) mod unat (mq_max_msgs q)"
    unfolding i(3) mod_add_left_eq by (simp flip: u)
  then have "mq_inv ?q"
    using assms i(2) u by (simp add: mq_inv_nat word_less_nat_alt)
  then show ?thesis
    using nz u i by (simp add: mq_get_def mq_next_idx_def sub_chk_one)
qed

interpretation mq: index_ring "\<lambda>q. unat (mq_max_msgs q)" "\<lambda>q. unat (mq_read_idx q)"
  "\<lambda>q. unat (mq_used_msgs q)" mq_inv mq_put mq_get
proof unfold_locales
  fix q
  show "0 < unat (mq_max_msgs q) \<and> unat (mq_read_idx q) < unat (mq_max_msgs q) \<and>
      unat (mq_used_msgs q) \<le> unat (mq_max_msgs q)" if "mq_inv q"
    using that by (auto simp: mq_inv_nat)
  show "\<exists>slot q'. mq_put q = Some (Inr slot, q') \<and>
      unat slot = (unat (mq_read_idx q) + unat (mq_used_msgs q)) mod unat (mq_max_msgs q) \<and> mq_inv q' \<and>
      unat (mq_max_msgs q') = unat (mq_max_msgs q) \<and> unat (mq_read_idx q') = unat (mq_read_idx q) \<and>
      unat (mq_used_msgs q') = Suc (unat (mq_used_msgs q))"
    if "mq_inv q" "unat (mq_used_msgs q) < unat (mq_max_msgs q)"
    using mq_put_room [OF that] that(1) by (auto simp: mq_inv_nat)
  show "\<exists>e. mq_put q = Some (Inl e, q)" if "mq_inv q" "unat (mq_used_msgs q) = unat (mq_max_msgs q)"
    using that by (simp add: mq_put_def word_le_nat_alt)
  show "\<exists>slot q'. mq_get q = Some (Inr slot, q') \<and> unat slot = unat (mq_read_idx q) \<and> mq_inv q' \<and>
      unat (mq_max_msgs q') = unat (mq_max_msgs q) \<and>
      unat (mq_read_idx q') = (unat (mq_read_idx q) + 1) mod unat (mq_max_msgs q) \<and>
      Suc (unat (mq_used_msgs q')) = unat (mq_used_msgs q)" if "mq_inv q" "0 < unat (mq_used_msgs q)"
    using mq_get_some [OF that] by auto
  show "\<exists>e. mq_get q = Some (Inl e, q)" if "mq_inv q" "unat (mq_used_msgs q) = 0"
    using that by (simp add: mq_get_def unat_eq_0)
qed

section \<open>Urgent messages, peeking and purging\<close>

text \<open>The messages in the queue, in the order they will be received.\<close>

definition mq_contents :: "msgq \<Rightarrow> 'a list \<Rightarrow> 'a list" where
  "mq_contents q buf = ring_list (unat (mq_max_msgs q)) (unat (mq_read_idx q)) (unat (mq_used_msgs q)) buf"

lemma prev_index_mod:
  assumes "idx < cap"
  shows "(if idx = 0 then sub_chk cap 1 else sub_chk idx 1) = Some (if idx = 0 then cap - 1 else idx - 1)"
    and "unat (if idx = 0 then cap - 1 else idx - 1) = (unat idx + unat cap - 1) mod unat cap"
proof -
  have cap: "cap \<noteq> 0" and lt: "unat idx < unat cap"
    using assms by (auto simp: word_less_nat_alt)
  then show "(if idx = 0 then sub_chk cap 1 else sub_chk idx 1) = Some (if idx = 0 then cap - 1 else idx - 1)"
    by (cases "idx = 0") (simp_all add: sub_chk_one)
  show "unat (if idx = 0 then cap - 1 else idx - 1) = (unat idx + unat cap - 1) mod unat cap"
  proof (cases "idx = 0")
    case True
    have "(unat cap - 1) mod unat cap = unat cap - 1" using lt by (intro mod_less) linarith
    then show ?thesis
      using True unat_minus_one [OF cap] by (simp only: refl if_True unat_0 add_0)
  next
    case False
    then have "unat idx + unat cap - 1 = (unat idx - 1) + unat cap" "unat (idx - 1) = unat idx - 1"
      using unat_gt_0 [of idx] unat_minus_one [OF False] by linarith+
    moreover have "(unat idx - 1 + unat cap) mod unat cap = unat idx - 1"
      using lt by (simp only: mod_add_self2) (intro mod_less, linarith)
    ultimately show ?thesis
      using False by (simp only: if_False)
  qed
qed

lemma mq_put_front_room:
  assumes "mq_inv q" and "unat (mq_used_msgs q) < unat (mq_max_msgs q)"
  shows "\<exists>slot q'. mq_put_front q = Some (Inr slot, q') \<and> mq_inv q' \<and> mq_max_msgs q' = mq_max_msgs q \<and>
           slot = mq_read_idx q' \<and> unat slot = (unat (mq_read_idx q) + unat (mq_max_msgs q) - 1) mod unat (mq_max_msgs q) \<and>
           unat (mq_used_msgs q') = Suc (unat (mq_used_msgs q))"
proof -
  let ?m = "unat (mq_max_msgs q)" and ?r = "unat (mq_read_idx q)" and ?u = "unat (mq_used_msgs q)"
  have room: "\<not> mq_max_msgs q \<le> mq_used_msgs q" and r: "mq_read_idx q < mq_max_msgs q"
    using assms by (simp_all add: word_le_nat_alt mq_inv_def)
  note n = mq_used_less [OF assms(1) room]
  define i where "i = (if mq_read_idx q = 0 then mq_max_msgs q - 1 else mq_read_idx q - 1)"
  note prev = prev_index_mod [OF r, folded i_def]
  have m: "0 < ?m" using assms(2) by simp
  have "(unat i + Suc ?u) mod ?m = (?r + ?u) mod ?m"
  proof -
    have "(unat i + Suc ?u) mod ?m = (?r + ?m - 1 + Suc ?u) mod ?m"
      unfolding prev(2) by (rule mod_add_left_eq)
    also have "?r + ?m - 1 + Suc ?u = ?r + ?u + ?m" using m by simp
    finally show ?thesis by simp
  qed
  moreover have "unat i < ?m" using prev(2) m by simp
  ultimately have "mq_inv (q\<lparr>mq_read_idx := i, mq_used_msgs := mq_used_msgs q + 1\<rparr>)"
    using assms n by (simp add: mq_inv_nat)
  then show ?thesis
    using room n prev by (simp add: mq_put_front_def mq_prev_idx_def)
qed

section \<open>Properties\<close>

text \<open>
  The message queue is a bounded FIFO. For a successfully initialised queue whose
  caller stores each message at the slot put returns and loads it from the slot get
  returns, every sequence of sends and receives runs without panic and gives exactly the
  results of a list of at most max_msgs messages: a send is refused only when it is full,
  a receive only when it is empty, and messages come out in the order they went in.
\<close>

theorem msgq_fifo:
  assumes "mq_init sz n = Inr q" and "length buf = unat n"
  shows "\<exists>s'. ring_run mq_put mq_get fs (q, buf) = Some (fst (fifo_run (unat n) fs []), s')"
proof -
  have "mq.represents (q, buf) (unat n) []"
    using assms
    by (auto simp: mq_init_def mq.represents_def mq_inv_nat ring_list_def word_gt_0 unat_gt_0 split: if_splits)
  from mq.run_refines [OF this] show ?thesis by blast
qed

theorem msgq_fifo_witness:
  "\<exists>q s'. mq_init 4 2 = Inr q \<and>
     ring_run mq_put mq_get [Send True, Send False, Send True, Recv, Recv, Recv] (q, [False, False]) =
       Some ([Sent True, Sent True, Sent False, Got (Some True), Got (Some False), Got None], s')"
proof -
  have init: "mq_init 4 2 = Inr \<lparr>mq_msg_size = 4, mq_max_msgs = 2, mq_read_idx = 0, mq_write_idx = 0, mq_used_msgs = 0\<rparr>"
    by (simp add: mq_init_def checked_mul_def)
  have spec: "fst (fifo_run 2 [Send True, Send False, Send True, Recv, Recv, Recv] []) =
      [Sent True, Sent True, Sent False, Got (Some True), Got (Some False), Got None]"
    by simp
  show ?thesis
    using msgq_fifo [OF init, of "[False, False]" "[Send True, Send False, Send True, Recv, Recv, Recv]"] init spec
    by (simp del: ring_run.simps fifo_run.simps)
qed

text \<open>
  Urgent sends, peeks and purges act on the same list of messages. On a well-formed
  queue put_front is refused exactly when the queue is full, and otherwise puts the
  message stored at its slot in front of all others; peek_at with a valid position returns
  the slot of the message at that position and changes nothing; a purge returns the number
  of messages and leaves a well-formed empty queue. None of them panics.
\<close>

theorem msgq_front_peek_purge:
  assumes "mq_inv q" and "length buf = unat (mq_max_msgs q)"
  shows "(if mq_is_full q then mq_put_front q = Some (Inl ENOMSG, q)
          else \<exists>slot q'. mq_put_front q = Some (Inr slot, q') \<and> mq_inv q' \<and>
                 mq_contents q' (buf[unat slot := x]) = x # mq_contents q buf) \<and>
         (if unat i < length (mq_contents q buf)
          then \<exists>slot. mq_peek_at q i = Some (Inr slot) \<and> unat slot < length buf \<and> buf ! unat slot = mq_contents q buf ! unat i
          else mq_peek_at q i = Some (Inl ENOMSG)) \<and>
         (case mq_purge q of (n, q') \<Rightarrow> unat n = length (mq_contents q buf) \<and> mq_inv q' \<and> mq_contents q' buf = [])"
proof (intro conjI)
  let ?m = "unat (mq_max_msgs q)"
  have b: "mq_read_idx q < mq_max_msgs q" "mq_used_msgs q \<le> mq_max_msgs q" "unat (mq_read_idx q) < ?m" "0 < ?m"
    using mq.bounds [OF assms(1)] by (simp_all add: word_less_nat_alt word_le_nat_alt)
  show "if mq_is_full q then mq_put_front q = Some (Inl ENOMSG, q)
        else \<exists>slot q'. mq_put_front q = Some (Inr slot, q') \<and> mq_inv q' \<and>
               mq_contents q' (buf[unat slot := x]) = x # mq_contents q buf"
  proof (cases "mq_is_full q")
    case True
    then show ?thesis by (simp add: mq_is_full_def mq_put_front_def)
  next
    case False
    then have room: "unat (mq_used_msgs q) < ?m"
      using b(2) by (simp add: mq_is_full_def word_le_nat_alt word_unat_eq_iff)
    obtain slot q' where q': "mq_put_front q = Some (Inr slot, q')" "mq_inv q'" "mq_max_msgs q' = mq_max_msgs q"
        "slot = mq_read_idx q'" "unat slot = (unat (mq_read_idx q) + ?m - 1) mod ?m"
        "unat (mq_used_msgs q') = Suc (unat (mq_used_msgs q))"
      using mq_put_front_room [OF assms(1) room] by blast
    have "mq_contents q' (buf[unat slot := x]) = x # mq_contents q buf"
      using ring_list_put_front [OF b(4,3) room assms(2), of x] q'(3,6)
      unfolding mq_contents_def q'(4) [symmetric] q'(5) by simp
    with q' False show ?thesis by auto
  qed
  show "if unat i < length (mq_contents q buf)
        then \<exists>slot. mq_peek_at q i = Some (Inr slot) \<and> unat slot < length buf \<and> buf ! unat slot = mq_contents q buf ! unat i
        else mq_peek_at q i = Some (Inl ENOMSG)"
  proof (cases "i < mq_used_msgs q")
    case True
    then obtain slot where "wrap_sum (mq_read_idx q) i (mq_max_msgs q) = Some slot"
        "unat slot = (unat (mq_read_idx q) + unat i) mod ?m"
      using wrap_sum_mod [OF b(1), of i] b(2) by force
    then show ?thesis
      using True assms(2) b(4) by (auto simp: mq_peek_at_def mq_contents_def ring_list_def word_less_nat_alt word_le_nat_alt)
  next
    case False
    then show ?thesis by (simp add: mq_peek_at_def mq_contents_def word_less_nat_alt word_le_nat_alt)
  qed
  show "case mq_purge q of (n, q') \<Rightarrow> unat n = length (mq_contents q buf) \<and> mq_inv q' \<and> mq_contents q' buf = []"
    using assms by (auto simp: mq_purge_def mq_contents_def mq_inv_nat ring_list_def word_less_nat_alt)
qed

theorem msgq_front_peek_purge_witness:
  "\<exists>slot q'. mq_put_front \<lparr>mq_msg_size = 4, mq_max_msgs = 3, mq_read_idx = 0, mq_write_idx = 1, mq_used_msgs = 1\<rparr> = Some (Inr slot, q') \<and>
     mq_contents q' ([10, 20, 30 :: nat][unat slot := 7]) = [7, 10]"
proof -
  let ?q = "\<lparr>mq_msg_size = 4, mq_max_msgs = 3, mq_read_idx = 0, mq_write_idx = 1, mq_used_msgs = 1\<rparr>"
  have "mq_inv ?q" "length [10, 20, 30 :: nat] = unat (mq_max_msgs ?q)" "\<not> mq_is_full ?q"
    "mq_contents ?q [10, 20, 30 :: nat] = [10]"
    by (simp_all add: mq_inv_nat mq_is_full_def mq_contents_def ring_list_def)
  from msgq_front_peek_purge [OF this(1,2), of 7 0] this(3,4) show ?thesis by auto
qed

text \<open>
  The decision functions of the C shim compute what the object does: on a well-formed
  queue with no opposite waiter, put_decide, get_decide and put_front_decide give exactly
  the new indices and count of put, get and put_front, refuse in the same cases and do not
  panic; peek_at_decide gives the slot of peek_at. With a waiting reader put_decide hands
  the message over and leaves the ring as it is.
\<close>

theorem msgq_decide_agrees:
  assumes "mq_inv q"
  shows "(\<exists>r q'. mq_put q = Some (r, q') \<and>
            put_decide (mq_write_idx q) (mq_used_msgs q) (mq_max_msgs q) False nw =
              Some \<lparr>pd_decision = (case r of Inl e \<Rightarrow> if nw then PD_Full else PD_Pend | Inr slot \<Rightarrow> PD_Store),
                    pd_new_write_idx = mq_write_idx q', pd_new_used = mq_used_msgs q'\<rparr>) \<and>
         (\<exists>r q'. mq_get q = Some (r, q') \<and>
            get_decide (mq_read_idx q) (mq_used_msgs q) (mq_max_msgs q) False nw =
              Some \<lparr>gd_decision = (case r of Inl e \<Rightarrow> if nw then GE_Empty else GE_Pend | Inr slot \<Rightarrow> GE_Read),
                    gd_new_read_idx = mq_read_idx q', gd_new_used = mq_used_msgs q'\<rparr>) \<and>
         (\<exists>r q'. mq_put_front q = Some (r, q') \<and>
            put_front_decide (mq_read_idx q) (mq_used_msgs q) (mq_max_msgs q) =
              Some \<lparr>pf_ok = (\<exists>slot. r = Inr slot), pf_new_read_idx = mq_read_idx q', pf_new_used = mq_used_msgs q'\<rparr>) \<and>
         (\<exists>r. mq_peek_at q i = Some r \<and>
            peek_at_decide (mq_read_idx q) (mq_used_msgs q) (mq_max_msgs q) i =
              Some (case r of Inl e \<Rightarrow> \<lparr>pk_ok = False, pk_slot_idx = 0\<rparr> | Inr slot \<Rightarrow> \<lparr>pk_ok = True, pk_slot_idx = slot\<rparr>)) \<and>
         (mq_used_msgs q < mq_max_msgs q \<longrightarrow>
            put_decide (mq_write_idx q) (mq_used_msgs q) (mq_max_msgs q) True nw =
              Some \<lparr>pd_decision = PD_WakeReader, pd_new_write_idx = mq_write_idx q, pd_new_used = mq_used_msgs q\<rparr>)"
proof -
  have b: "mq_read_idx q < mq_max_msgs q" "mq_write_idx q < mq_max_msgs q" "mq_used_msgs q \<le> mq_max_msgs q"
    using assms by (simp_all add: mq_inv_def)
  obtain w where w: "next_index (mq_write_idx q) (mq_max_msgs q) = Some w" using next_index_mod [OF b(2)] by blast
  obtain r where r: "next_index (mq_read_idx q) (mq_max_msgs q) = Some r" using next_index_mod [OF b(1)] by blast
  note prev = prev_index_mod(1) [OF b(1)]
  have slot: "\<exists>s. wrap_sum (mq_read_idx q) i (mq_max_msgs q) = Some s" if "i < mq_used_msgs q"
    using wrap_sum_mod [OF b(1), of i] b(3) that by force
  show ?thesis
    using w r prev slot mq_used_less [OF assms]
    by (cases "mq_max_msgs q \<le> mq_used_msgs q"; cases "mq_used_msgs q = 0"; cases "mq_used_msgs q \<le> i")
       (auto simp: mq_put_def mq_get_def mq_put_front_def mq_peek_at_def put_decide_def get_decide_def
         put_front_decide_def peek_at_decide_def mq_next_idx_def mq_prev_idx_def sub_chk_one not_le word_gt_0)
qed

theorem msgq_decide_agrees_witness:
  "put_decide 1 1 3 True False = Some \<lparr>pd_decision = PD_WakeReader, pd_new_write_idx = 1, pd_new_used = 1\<rparr>"
proof -
  let ?q = "\<lparr>mq_msg_size = 4, mq_max_msgs = 3, mq_read_idx = 0, mq_write_idx = 1, mq_used_msgs = 1\<rparr>"
  have "mq_inv ?q" by (simp add: mq_inv_nat)
  from msgq_decide_agrees [OF this, of False 0] show ?thesis by simp
qed

end
