(* ===== verification/Ring_Buf.thy ===== *)
theory Ring_Buf
  imports Ring_Queue Kernel_Thread
begin

text \<open>
  The byte ring buffer (src/ring_buf.rs): the index object with single and bulk transfers,
  and the functions on free-running 32-bit counters that the C shim uses. The object is
  the second index ring; the bulk transfers are shown to be repeated single ones, and the
  counter functions to be exact although the counters wrap around.
\<close>

section \<open>The ring buffer object\<close>

record ring_buf =
  rb_capacity :: u32
  rb_head :: u32
  rb_tail :: u32
  rb_size :: u32

definition rb_ring_consistent :: "ring_buf \<Rightarrow> bool" where
  "rb_ring_consistent q \<longleftrightarrow>
     (if unat (rb_head q) + unat (rb_size q) < unat (rb_capacity q)
      then unat (rb_tail q) = unat (rb_head q) + unat (rb_size q)
      else unat (rb_tail q) + unat (rb_capacity q) = unat (rb_head q) + unat (rb_size q))"

definition rb_inv :: "ring_buf \<Rightarrow> bool" where
  "rb_inv q \<longleftrightarrow> 0 < rb_capacity q \<and> rb_head q < rb_capacity q \<and> rb_tail q < rb_capacity q \<and>
     rb_size q \<le> rb_capacity q \<and> rb_ring_consistent q"

definition rb_init :: "u32 \<Rightarrow> ring_buf result" where
  "rb_init capacity =
     (if capacity = 0 then Err EINVAL
      else Ok \<lparr>rb_capacity = capacity, rb_head = 0, rb_tail = 0, rb_size = 0\<rparr>)"

definition rb_next_idx :: "ring_buf \<Rightarrow> u32 \<Rightarrow> u32 run" where
  "rb_next_idx q idx = next_index idx (rb_capacity q)"

definition rb_put :: "ring_buf \<Rightarrow> (u32 result \<times> ring_buf) run" where
  "rb_put q =
     (if rb_capacity q \<le> rb_size q then Ret (Err EAGAIN, q)
      else do {
        let slot = rb_tail q;
        t \<leftarrow> rb_next_idx q (rb_tail q);
        n \<leftarrow> add_chk (rb_size q) 1;
        Ret (Ok slot, q\<lparr>rb_tail := t, rb_size := n\<rparr>)
      })"

definition rb_get :: "ring_buf \<Rightarrow> (u32 result \<times> ring_buf) run" where
  "rb_get q =
     (if rb_size q = 0 then Ret (Err EAGAIN, q)
      else do {
        let slot = rb_head q;
        h \<leftarrow> rb_next_idx q (rb_head q);
        n \<leftarrow> sub_chk (rb_size q) 1;
        Ret (Ok slot, q\<lparr>rb_head := h, rb_size := n\<rparr>)
      })"

definition rb_put_n :: "u32 \<Rightarrow> ring_buf \<Rightarrow> (u32 \<times> ring_buf) run" where
  "rb_put_n cnt q = do {
     free \<leftarrow> sub_chk (rb_capacity q) (rb_size q);
     let n = (if cnt \<le> free then cnt else free);
     t \<leftarrow> wrap_sum (rb_tail q) n (rb_capacity q);
     s \<leftarrow> add_chk (rb_size q) n;
     Ret (n, q\<lparr>rb_tail := t, rb_size := s\<rparr>)
   }"

definition rb_get_n :: "u32 \<Rightarrow> ring_buf \<Rightarrow> (u32 \<times> ring_buf) run" where
  "rb_get_n cnt q = do {
     let n = (if cnt \<le> rb_size q then cnt else rb_size q);
     h \<leftarrow> wrap_sum (rb_head q) n (rb_capacity q);
     s \<leftarrow> sub_chk (rb_size q) n;
     Ret (n, q\<lparr>rb_head := h, rb_size := s\<rparr>)
   }"

definition rb_peek_at :: "ring_buf \<Rightarrow> u32 \<Rightarrow> u32 result run" where
  "rb_peek_at q idx =
     (if rb_size q \<le> idx then Ret (Err EINVAL)
      else do { slot \<leftarrow> wrap_sum (rb_head q) idx (rb_capacity q); Ret (Ok slot) })"

definition rb_reset :: "ring_buf \<Rightarrow> ring_buf" where
  "rb_reset q = q\<lparr>rb_head := 0, rb_tail := 0, rb_size := 0\<rparr>"

definition rb_space_get :: "ring_buf \<Rightarrow> u32 run" where
  "rb_space_get q = sub_chk (rb_capacity q) (rb_size q)"

definition rb_size_get :: "ring_buf \<Rightarrow> u32" where
  "rb_size_get q = rb_size q"

definition rb_is_empty :: "ring_buf \<Rightarrow> bool" where
  "rb_is_empty q \<longleftrightarrow> rb_size q = 0"

definition rb_is_full :: "ring_buf \<Rightarrow> bool" where
  "rb_is_full q \<longleftrightarrow> rb_size q = rb_capacity q"

section \<open>Decisions on free-running counters\<close>

text \<open>The counters use wrapping subtraction, which is word subtraction.\<close>

record claim_decision =
  cl_claim_size :: u32
  cl_buffer_offset :: u32

definition claim_decide :: "u32 \<Rightarrow> u32 \<Rightarrow> u32 \<Rightarrow> u32 \<Rightarrow> claim_decision run" where
  "claim_decide head base buf_size requested =
     (if buf_size = 0 then Ret \<lparr>cl_claim_size = 0, cl_buffer_offset = 0\<rparr>
      else do {
        let raw_offset = head - base;
        let head_offset = (if buf_size \<le> raw_offset then raw_offset mod buf_size else raw_offset);
        wrap_size \<leftarrow> sub_chk buf_size head_offset;
        let claim_size = (if requested \<le> wrap_size then requested else wrap_size);
        Ret \<lparr>cl_claim_size = claim_size, cl_buffer_offset = head_offset\<rparr>
      })"

definition finish_decide :: "u32 \<Rightarrow> u32 \<Rightarrow> u32 \<Rightarrow> bool" where
  "finish_decide head tail sz \<longleftrightarrow> sz \<le> head - tail"

definition space_get_decide :: "u32 \<Rightarrow> u32 \<Rightarrow> u32 \<Rightarrow> u32 run" where
  "space_get_decide put_head get_tail buf_size =
     (if buf_size = 0 then Ret 0
      else let allocated = put_head - get_tail
           in if buf_size < allocated then Ret 0 else sub_chk buf_size allocated)"

definition size_get_decide :: "u32 \<Rightarrow> u32 \<Rightarrow> u32" where
  "size_get_decide put_tail get_head = put_tail - get_head"

section \<open>The ring buffer is an index ring\<close>

lemma rb_inv_nat:
  "rb_inv q \<longleftrightarrow> unat (rb_head q) < unat (rb_capacity q) \<and> unat (rb_size q) \<le> unat (rb_capacity q) \<and>
     rb_tail q < rb_capacity q \<and>
     unat (rb_tail q) = (unat (rb_head q) + unat (rb_size q)) mod unat (rb_capacity q)"
proof -
  have "0 < unat (rb_capacity q)" if "unat (rb_head q) < unat (rb_capacity q)"
    using that by simp
  then show ?thesis
    using consistent_mod [of "unat (rb_head q)" "unat (rb_capacity q)" "unat (rb_size q)" "unat (rb_tail q)"]
    unfolding rb_inv_def rb_ring_consistent_def word_less_nat_alt word_le_nat_alt unat_0 by blast
qed

text \<open>
  Moving the tail or the head by n: the two ways the indices change, from which the single
  and the bulk transfers follow alike.
\<close>

lemma rb_move_tail:
  assumes "rb_inv q" and "unat (rb_size q) + n \<le> unat (rb_capacity q)" and "t < rb_capacity q"
    and "unat t = (unat (rb_tail q) + n) mod unat (rb_capacity q)" and "unat s = unat (rb_size q) + n"
  shows "rb_inv (q\<lparr>rb_tail := t, rb_size := s\<rparr>)"
proof -
  have "unat t = (unat (rb_head q) + unat (rb_size q) + n) mod unat (rb_capacity q)"
    using assms(1,4) by (simp only: rb_inv_nat mod_add_left_eq)
  then show ?thesis
    using assms by (simp add: rb_inv_nat add.assoc)
qed

lemma rb_move_head:
  assumes "rb_inv q" and "n \<le> unat (rb_size q)" and "h < rb_capacity q"
    and "unat h = (unat (rb_head q) + n) mod unat (rb_capacity q)" and "unat s = unat (rb_size q) - n"
  shows "rb_inv (q\<lparr>rb_head := h, rb_size := s\<rparr>)"
proof -
  have "(unat h + unat s) mod unat (rb_capacity q) = (unat (rb_head q) + n + (unat (rb_size q) - n)) mod unat (rb_capacity q)"
    by (simp only: assms(4,5) mod_add_left_eq)
  moreover have "unat (rb_head q) + n + (unat (rb_size q) - n) = unat (rb_head q) + unat (rb_size q)"
    using assms(2) by simp
  moreover have "unat s \<le> unat (rb_capacity q)"
    using assms(1,5) unfolding rb_inv_nat by linarith
  ultimately show ?thesis
    using assms(1,3) by (simp add: rb_inv_nat word_less_nat_alt)
qed

lemma rb_put_room:
  assumes "rb_inv q" and "unat (rb_size q) < unat (rb_capacity q)"
  shows "\<exists>q'. rb_put q = Some (Inr (rb_tail q), q') \<and> rb_inv q' \<and> rb_capacity q' = rb_capacity q \<and>
           rb_head q' = rb_head q \<and> unat (rb_size q') = Suc (unat (rb_size q)) \<and>
           unat (rb_tail q') = (unat (rb_tail q) + 1) mod unat (rb_capacity q)"
proof -
  have room: "rb_size q < rb_capacity q" and t: "rb_tail q < rb_capacity q"
    using assms by (simp_all add: word_less_nat_alt rb_inv_def)
  have n: "add_chk (rb_size q) 1 = Some (rb_size q + 1)" "unat (rb_size q + 1) = unat (rb_size q) + 1"
    using room by (simp_all add: add_chk_one unat_plus_one)
  obtain i where i: "next_index (rb_tail q) (rb_capacity q) = Some i" "i < rb_capacity q"
      "unat i = (unat (rb_tail q) + 1) mod unat (rb_capacity q)"
    using next_index_mod [OF t] by blast
  then have "rb_inv (q\<lparr>rb_tail := i, rb_size := rb_size q + 1\<rparr>)"
    using rb_move_tail [OF assms(1) _ i(2,3) n(2)] assms(2) by simp
  then show ?thesis
    using room n i by (simp add: rb_put_def rb_next_idx_def not_le [symmetric])
qed

lemma rb_get_some:
  assumes "rb_inv q" and "0 < unat (rb_size q)"
  shows "\<exists>q'. rb_get q = Some (Inr (rb_head q), q') \<and> rb_inv q' \<and> rb_capacity q' = rb_capacity q \<and>
           unat (rb_head q') = (unat (rb_head q) + 1) mod unat (rb_capacity q) \<and> rb_tail q' = rb_tail q \<and>
           Suc (unat (rb_size q')) = unat (rb_size q)"
proof -
  have nz: "rb_size q \<noteq> 0" and h: "rb_head q < rb_capacity q"
    using assms by (auto simp: rb_inv_def)
  have n: "sub_chk (rb_size q) 1 = Some (rb_size q - 1)" "unat (rb_size q - 1) = unat (rb_size q) - 1"
    using nz by (simp_all add: sub_chk_one unat_minus_one)
  obtain i where i: "next_index (rb_head q) (rb_capacity q) = Some i" "i < rb_capacity q"
      "unat i = (unat (rb_head q) + 1) mod unat (rb_capacity q)"
    using next_index_mod [OF h] by blast
  then have "rb_inv (q\<lparr>rb_head := i, rb_size := rb_size q - 1\<rparr>)"
    using rb_move_head [OF assms(1) _ i(2,3) n(2)] assms(2) by simp
  then show ?thesis
    using nz n i assms(2) by (simp add: rb_get_def rb_next_idx_def)
qed

interpretation rb: index_ring "\<lambda>q. unat (rb_capacity q)" "\<lambda>q. unat (rb_head q)"
  "\<lambda>q. unat (rb_size q)" rb_inv rb_put rb_get
proof unfold_locales
  fix q
  show "0 < unat (rb_capacity q) \<and> unat (rb_head q) < unat (rb_capacity q) \<and>
      unat (rb_size q) \<le> unat (rb_capacity q)" if "rb_inv q"
    using that by (auto simp: rb_inv_nat)
  show "\<exists>slot q'. rb_put q = Some (Inr slot, q') \<and>
      unat slot = (unat (rb_head q) + unat (rb_size q)) mod unat (rb_capacity q) \<and> rb_inv q' \<and>
      unat (rb_capacity q') = unat (rb_capacity q) \<and> unat (rb_head q') = unat (rb_head q) \<and>
      unat (rb_size q') = Suc (unat (rb_size q))"
    if "rb_inv q" "unat (rb_size q) < unat (rb_capacity q)"
    using rb_put_room [OF that] that(1) by (auto simp: rb_inv_nat)
  show "\<exists>e. rb_put q = Some (Inl e, q)" if "rb_inv q" "unat (rb_size q) = unat (rb_capacity q)"
    using that by (simp add: rb_put_def word_le_nat_alt)
  show "\<exists>slot q'. rb_get q = Some (Inr slot, q') \<and> unat slot = unat (rb_head q) \<and> rb_inv q' \<and>
      unat (rb_capacity q') = unat (rb_capacity q) \<and>
      unat (rb_head q') = (unat (rb_head q) + 1) mod unat (rb_capacity q) \<and>
      Suc (unat (rb_size q')) = unat (rb_size q)" if "rb_inv q" "0 < unat (rb_size q)"
    using rb_get_some [OF that] by auto
  show "\<exists>e. rb_get q = Some (Inl e, q)" if "rb_inv q" "unat (rb_size q) = 0"
    using that by (simp add: rb_get_def unat_eq_0)
qed

section \<open>Bulk transfers\<close>

fun rb_put_times :: "nat \<Rightarrow> ring_buf \<Rightarrow> ring_buf run" where
  "rb_put_times 0 q = Ret q"
| "rb_put_times (Suc n) q = do { (r, q) \<leftarrow> rb_put q; rb_put_times n q }"

fun rb_get_times :: "nat \<Rightarrow> ring_buf \<Rightarrow> ring_buf run" where
  "rb_get_times 0 q = Ret q"
| "rb_get_times (Suc n) q = do { (r, q) \<leftarrow> rb_get q; rb_get_times n q }"

lemma rb_put_times_ok:
  assumes "rb_inv q" and "unat (rb_size q) + n \<le> unat (rb_capacity q)"
  shows "\<exists>q'. rb_put_times n q = Some q' \<and> rb_inv q' \<and> rb_capacity q' = rb_capacity q \<and>
           rb_head q' = rb_head q \<and> unat (rb_size q') = unat (rb_size q) + n"
  using assms
proof (induction n arbitrary: q)
  case (Suc n)
  obtain q1 where q1: "rb_put q = Some (Inr (rb_tail q), q1)" "rb_inv q1" "rb_capacity q1 = rb_capacity q"
      "rb_head q1 = rb_head q" "unat (rb_size q1) = Suc (unat (rb_size q))"
    using rb_put_room [OF Suc.prems(1)] Suc.prems(2) by auto
  then show ?case using Suc.IH [OF q1(2)] Suc.prems(2) by auto
qed simp

lemma rb_get_times_ok:
  assumes "rb_inv q" and "n \<le> unat (rb_size q)"
  shows "\<exists>q'. rb_get_times n q = Some q' \<and> rb_inv q' \<and> rb_capacity q' = rb_capacity q \<and> rb_tail q' = rb_tail q \<and>
           unat (rb_head q') = (unat (rb_head q) + n) mod unat (rb_capacity q) \<and>
           unat (rb_size q') = unat (rb_size q) - n"
  using assms
proof (induction n arbitrary: q)
  case 0
  then show ?case by (simp add: rb_inv_nat)
next
  case (Suc n)
  obtain q1 where q1: "rb_get q = Some (Inr (rb_head q), q1)" "rb_inv q1" "rb_capacity q1 = rb_capacity q"
      "unat (rb_head q1) = (unat (rb_head q) + 1) mod unat (rb_capacity q)" "rb_tail q1 = rb_tail q"
      "Suc (unat (rb_size q1)) = unat (rb_size q)"
    using rb_get_some [OF Suc.prems(1)] Suc.prems(2) by auto
  then have "n \<le> unat (rb_size q1)" using Suc.prems(2) by simp
  from Suc.IH [OF q1(2) this] q1 show ?case
    by (auto simp: mod_add_left_eq)
qed

lemma rb_put_n_ok:
  assumes "rb_inv q"
  shows "\<exists>n q'. rb_put_n k q = Some (n, q') \<and> unat n = min (unat k) (unat (rb_capacity q) - unat (rb_size q)) \<and>
           rb_inv q' \<and> rb_capacity q' = rb_capacity q \<and> rb_head q' = rb_head q \<and> unat (rb_size q') = unat (rb_size q) + unat n"
proof -
  have b: "rb_tail q < rb_capacity q" "rb_size q \<le> rb_capacity q"
    using assms by (simp_all add: rb_inv_def)
  define free where "free = rb_capacity q - rb_size q"
  define n where "n = (if k \<le> free then k else free)"
  have free: "sub_chk (rb_capacity q) (rb_size q) = Some free" "unat free = unat (rb_capacity q) - unat (rb_size q)"
    using b(2) by (simp_all add: sub_chk_def free_def unat_sub)
  have n: "unat n = min (unat k) (unat (rb_capacity q) - unat (rb_size q))" "n \<le> rb_capacity q"
    using free(2) by (auto simp: n_def word_le_nat_alt)
  obtain t where t: "wrap_sum (rb_tail q) n (rb_capacity q) = Some t" "t < rb_capacity q"
      "unat t = (unat (rb_tail q) + unat n) mod unat (rb_capacity q)"
    using wrap_sum_mod [OF b(1) n(2)] by blast
  have sz: "unat (rb_size q) + unat n \<le> unat (rb_capacity q)"
    using n(1) b(2) by (simp add: word_le_nat_alt)
  then have s: "add_chk (rb_size q) n = Some (rb_size q + n)" "unat (rb_size q + n) = unat (rb_size q) + unat n"
    using unat_u32_less [of "rb_capacity q"] by (simp_all add: add_chk_def unat_word_ariths)
  have "rb_put_n k q = Some (n, q\<lparr>rb_tail := t, rb_size := rb_size q + n\<rparr>)"
    using free(1) t(1) s(1) by (simp add: rb_put_n_def n_def Let_def)
  then show ?thesis
    using rb_move_tail [OF assms sz t(2,3) s(2)] n(1) s(2) by simp
qed

lemma rb_get_n_ok:
  assumes "rb_inv q"
  shows "\<exists>n q'. rb_get_n k q = Some (n, q') \<and> unat n = min (unat k) (unat (rb_size q)) \<and>
           rb_inv q' \<and> rb_capacity q' = rb_capacity q \<and> rb_tail q' = rb_tail q \<and>
           unat (rb_head q') = (unat (rb_head q) + unat n) mod unat (rb_capacity q) \<and>
           unat (rb_size q') = unat (rb_size q) - unat n"
proof -
  have b: "rb_head q < rb_capacity q" "rb_size q \<le> rb_capacity q"
    using assms by (simp_all add: rb_inv_def)
  define n where "n = (if k \<le> rb_size q then k else rb_size q)"
  have n: "unat n = min (unat k) (unat (rb_size q))" "n \<le> rb_size q" "unat n \<le> unat (rb_size q)"
    by (auto simp: n_def word_le_nat_alt)
  obtain h where h: "wrap_sum (rb_head q) n (rb_capacity q) = Some h" "h < rb_capacity q"
      "unat h = (unat (rb_head q) + unat n) mod unat (rb_capacity q)"
    using wrap_sum_mod [OF b(1), of n] n(2) b(2) by (meson order_trans)
  have s: "sub_chk (rb_size q) n = Some (rb_size q - n)" "unat (rb_size q - n) = unat (rb_size q) - unat n"
    using n(2) by (simp_all add: sub_chk_def unat_sub)
  have "rb_get_n k q = Some (n, q\<lparr>rb_head := h, rb_size := rb_size q - n\<rparr>)"
    using h(1) s(1) by (simp add: rb_get_n_def n_def Let_def)
  then show ?thesis
    using rb_move_head [OF assms n(3) h(2,3) s(2)] n(1) s(2) h(3) by simp
qed

text \<open>A well-formed buffer is determined by capacity, head and size.\<close>

lemma rb_eqI:
  fixes q q' :: ring_buf
  assumes "rb_inv q" and "rb_inv q'" and "rb_capacity q = rb_capacity q'"
    and "unat (rb_head q) = unat (rb_head q')" and "unat (rb_size q) = unat (rb_size q')"
  shows "q = q'"
  using assms by (intro ring_buf.equality) (auto simp: rb_inv_nat word_unat_eq_iff)

section \<open>Properties\<close>

text \<open>
  C20: The ring buffer is a bounded FIFO: for a successfully initialised buffer whose caller
  stores and loads the bytes at the slots it is given, every sequence of puts and gets
  runs without panic and returns what a list of at most capacity elements returns.
\<close>

theorem ringbuf_fifo:
  assumes "rb_init n = Inr q" and "length buf = unat n"
  shows "\<exists>s'. ring_run rb_put rb_get fs (q, buf) = Some (fst (fifo_run (unat n) fs []), s')"
proof -
  have "rb.represents (q, buf) (unat n) []"
    using assms
    by (auto simp: rb_init_def rb.represents_def rb_inv_nat ring_list_def word_gt_0 unat_gt_0 split: if_splits)
  from rb.run_refines [OF this] show ?thesis by blast
qed

theorem ringbuf_fifo_witness:
  "\<exists>q s'. rb_init 1 = Inr q \<and>
     ring_run rb_put rb_get [Send True, Send False, Recv, Recv] (q, [False]) =
       Some ([Sent True, Sent False, Got (Some True), Got None], s')"
proof -
  have init: "rb_init 1 = Inr \<lparr>rb_capacity = 1, rb_head = 0, rb_tail = 0, rb_size = 0\<rparr>"
    by (simp add: rb_init_def)
  have spec: "fst (fifo_run 1 [Send True, Send False, Recv, Recv] []) = [Sent True, Sent False, Got (Some True), Got None]"
    by simp
  show ?thesis
    using ringbuf_fifo [OF init, of "[False]" "[Send True, Send False, Recv, Recv]"] init spec
    by (simp del: ring_run.simps fifo_run.simps)
qed

text \<open>
  Bulk transfers are repeated single ones. On a well-formed buffer put_n transfers as
  much as there is room for and get_n as much as there is, neither panics although the
  tail index is computed in 64 bits, and the resulting state is exactly that of as many
  single puts or gets.
\<close>

theorem ringbuf_bulk:
  assumes "rb_inv q"
  shows "(\<exists>n q'. rb_put_n k q = Some (n, q') \<and> rb_inv q' \<and>
            unat n = min (unat k) (unat (rb_capacity q) - unat (rb_size q)) \<and> rb_put_times (unat n) q = Some q') \<and>
         (\<exists>n q'. rb_get_n k q = Some (n, q') \<and> rb_inv q' \<and>
            unat n = min (unat k) (unat (rb_size q)) \<and> rb_get_times (unat n) q = Some q')"
proof
  obtain n q' where q': "rb_put_n k q = Some (n, q')" "unat n = min (unat k) (unat (rb_capacity q) - unat (rb_size q))"
      "rb_inv q'" "rb_capacity q' = rb_capacity q" "rb_head q' = rb_head q" "unat (rb_size q') = unat (rb_size q) + unat n"
    using rb_put_n_ok [OF assms] by blast
  have "unat (rb_size q) + unat n \<le> unat (rb_capacity q)"
    using q'(2) rb.bounds [OF assms] by arith
  then obtain q2 where "rb_put_times (unat n) q = Some q2" "rb_inv q2" "rb_capacity q2 = rb_capacity q"
      "rb_head q2 = rb_head q" "unat (rb_size q2) = unat (rb_size q) + unat n"
    using rb_put_times_ok [OF assms] by blast
  then have "rb_put_times (unat n) q = Some q'"
    using q' rb_eqI [of q2 q'] by simp
  then show "\<exists>n q'. rb_put_n k q = Some (n, q') \<and> rb_inv q' \<and>
      unat n = min (unat k) (unat (rb_capacity q) - unat (rb_size q)) \<and> rb_put_times (unat n) q = Some q'"
    using q'(1,2,3) by blast
next
  obtain n q' where q': "rb_get_n k q = Some (n, q')" "unat n = min (unat k) (unat (rb_size q))" "rb_inv q'"
      "rb_capacity q' = rb_capacity q" "rb_tail q' = rb_tail q"
      "unat (rb_head q') = (unat (rb_head q) + unat n) mod unat (rb_capacity q)"
      "unat (rb_size q') = unat (rb_size q) - unat n"
    using rb_get_n_ok [OF assms] by blast
  then obtain q2 where "rb_get_times (unat n) q = Some q2" "rb_inv q2" "rb_capacity q2 = rb_capacity q"
      "unat (rb_head q2) = (unat (rb_head q) + unat n) mod unat (rb_capacity q)"
      "unat (rb_size q2) = unat (rb_size q) - unat n"
    using rb_get_times_ok [OF assms, of "unat n"] by auto
  then have "rb_get_times (unat n) q = Some q'"
    using q' rb_eqI [of q2 q'] by simp
  then show "\<exists>n q'. rb_get_n k q = Some (n, q') \<and> rb_inv q' \<and>
      unat n = min (unat k) (unat (rb_size q)) \<and> rb_get_times (unat n) q = Some q'"
    using q'(1,2,3) by blast
qed

theorem ringbuf_bulk_witness:
  "\<exists>n q'. rb_put_n 9 \<lparr>rb_capacity = 4, rb_head = 3, rb_tail = 1, rb_size = 2\<rparr> = Some (n, q') \<and> unat n = 2"
proof -
  have "rb_inv \<lparr>rb_capacity = 4, rb_head = 3, rb_tail = 1, rb_size = 2\<rparr>"
    by (simp add: rb_inv_nat)
  from ringbuf_bulk [OF this, of 9] show ?thesis by auto
qed

text \<open>
  C21: The counter functions are exact across wrap-around. For free-running counters of any
  size whose difference fits the buffer, seen only modulo 2 to the 32, size_get_decide is
  the difference, space_get_decide the rest of the buffer, and finish_decide accepts
  exactly the sizes up to the claimed amount. A claim is contiguous: it never extends past
  the end of the buffer and never exceeds the request.
\<close>

theorem ringbuf_counters_wrap:
  fixes h t b :: nat
  assumes "t \<le> h" and "h \<le> t + b" and "0 < b" and "b < 2 ^ 32"
  shows "unat (size_get_decide (of_nat h) (of_nat t)) = h - t \<and>
         map_option unat (space_get_decide (of_nat h) (of_nat t) (of_nat b)) = Some (b - (h - t)) \<and>
         (finish_decide (of_nat h) (of_nat t) s \<longleftrightarrow> unat s \<le> h - t) \<and>
         (\<exists>d. claim_decide hp base (of_nat b) req = Some d \<and> cl_claim_size d \<le> req \<and>
              unat (cl_buffer_offset d) = unat (hp - base) mod b \<and>
              unat (cl_buffer_offset d) + unat (cl_claim_size d) \<le> b)"
proof (intro conjI)
  have diff: "(of_nat h :: u32) - of_nat t = of_nat (h - t)"
    using assms(1) by (simp add: of_nat_diff)
  have small: "unat (of_nat d :: u32) = d" if "d < 2 ^ 32" for d
    using that by (simp add: unat_of_nat)
  have "h - t < 2 ^ 32" using assms by linarith
  note b = small [OF assms(4)] and n = small [OF this]
  show "unat (size_get_decide (of_nat h) (of_nat t)) = h - t"
    by (simp only: size_get_decide_def diff n)
  have "(of_nat b :: u32) \<noteq> 0" "(of_nat (h - t) :: u32) \<le> of_nat b"
    using assms(2,3) b n by (auto simp: word_le_nat_alt unat_eq_0 [symmetric])
  then show "map_option unat (space_get_decide (of_nat h) (of_nat t) (of_nat b)) = Some (b - (h - t))"
    by (simp only: space_get_decide_def diff Let_def sub_chk_def not_le [symmetric] if_False if_True simp_thms)
       (simp add: unat_sub b n del: of_nat_diff)
  show "finish_decide (of_nat h) (of_nat t) s \<longleftrightarrow> unat s \<le> h - t"
    by (simp only: finish_decide_def diff word_le_nat_alt n)
  let ?b = "of_nat b :: u32"
  define off where "off = (if ?b \<le> hp - base then (hp - base) mod ?b else hp - base)"
  have off: "unat off = unat (hp - base) mod b"
    using b by (auto simp: off_def unat_mod word_le_nat_alt)
  then have lt: "unat off < b" using assms(3) by simp
  define w where "w = ?b - off"
  have w: "sub_chk ?b off = Some w" "unat w = b - unat off"
    using lt b by (simp_all add: sub_chk_def w_def unat_sub word_le_nat_alt)
  have "claim_decide hp base ?b req = Some \<lparr>cl_claim_size = (if req \<le> w then req else w), cl_buffer_offset = off\<rparr>"
    using \<open>?b \<noteq> 0\<close> w(1) by (simp add: claim_decide_def off_def Let_def)
  then show "\<exists>d. claim_decide hp base (of_nat b) req = Some d \<and> cl_claim_size d \<le> req \<and>
              unat (cl_buffer_offset d) = unat (hp - base) mod b \<and>
              unat (cl_buffer_offset d) + unat (cl_claim_size d) \<le> b"
    using w(2) off lt by (auto simp: word_le_nat_alt)
qed

theorem ringbuf_counters_wrap_witness:
  "unat (size_get_decide (of_nat 4294967298) (of_nat 4294967290)) = 8 \<and>
   map_option unat (space_get_decide (of_nat 4294967298) (of_nat 4294967290) (of_nat 16)) = Some 8"
  using ringbuf_counters_wrap [of 4294967290 4294967298 16] by simp

end
