(* ===== verification/Counted.thy ===== *)
theory Counted
  imports Kernel_Thread
begin

text \<open>
  The objects that only count: the stack, the FIFO, the LIFO, the queue and the memory
  slab (src/stack.rs, src/fifo.rs, src/lifo.rs, src/queue.rs, src/mem_slab.rs). Their data
  lives in C structures; the Rust code keeps the number of items and decides. All five
  implement one contract, a counter between zero and a bound whose operations report
  success or an error code, and the behaviour of any sequence of operations follows from
  the contract once for all.
\<close>

section \<open>The contract\<close>

text \<open>Running a sequence of operations: True stands for the incrementing one.\<close>

fun counter_run ::
    "('s \<Rightarrow> (i32 \<times> 's) run) \<Rightarrow> ('s \<Rightarrow> (i32 \<times> 's) run) \<Rightarrow> bool list \<Rightarrow> 's \<Rightarrow> (i32 list \<times> 's) run" where
  "counter_run inc dec [] s = Ret ([], s)"
| "counter_run inc dec (f # fs) s = do {
     (r, s) \<leftarrow> (if f then inc s else dec s);
     (rs, s) \<leftarrow> counter_run inc dec fs s;
     Ret (r # rs, s)
   }"

text \<open>The specification: a number between 0 and c, with the code for full and for empty.\<close>

fun count_run :: "i32 \<Rightarrow> i32 \<Rightarrow> nat \<Rightarrow> bool list \<Rightarrow> nat \<Rightarrow> i32 list \<times> nat" where
  "count_run full none c [] n = ([], n)"
| "count_run full none c (True # fs) n =
     (let (r, n) = (if n < c then (OK_code, n + 1) else (full, n)); (rs, n) = count_run full none c fs n in (r # rs, n))"
| "count_run full none c (False # fs) n =
     (let (r, n) = (if 0 < n then (OK_code, n - 1) else (none, n)); (rs, n) = count_run full none c fs n in (r # rs, n))"

text \<open>How many operations of one kind succeeded.\<close>

definition n_ok :: "bool \<Rightarrow> bool list \<Rightarrow> i32 list \<Rightarrow> nat" where
  "n_ok f fs rs = length (filter (\<lambda>p. p = (f, OK_code)) (zip fs rs))"

locale bounded_counter =
  fixes level :: "'s \<Rightarrow> nat"
    and cap :: "'s \<Rightarrow> nat"
    and inv :: "'s \<Rightarrow> bool"
    and inc :: "'s \<Rightarrow> (i32 \<times> 's) run"
    and dec :: "'s \<Rightarrow> (i32 \<times> 's) run"
    and full_code :: i32
    and empty_code :: i32
  assumes level_le: "inv s \<Longrightarrow> level s \<le> cap s"
    and inc_room: "inv s \<Longrightarrow> level s < cap s \<Longrightarrow>
      \<exists>s'. inc s = Some (OK_code, s') \<and> inv s' \<and> level s' = Suc (level s) \<and> cap s' = cap s"
    and inc_full: "inv s \<Longrightarrow> level s = cap s \<Longrightarrow> inc s = Some (full_code, s)"
    and dec_some: "inv s \<Longrightarrow> 0 < level s \<Longrightarrow>
      \<exists>s'. dec s = Some (OK_code, s') \<and> inv s' \<and> Suc (level s') = level s \<and> cap s' = cap s"
    and dec_empty: "inv s \<Longrightarrow> level s = 0 \<Longrightarrow> dec s = Some (empty_code, s)"
    and codes: "full_code \<noteq> OK_code" "empty_code \<noteq> OK_code"
begin

lemma run_counts:
  assumes "inv s"
  shows "\<exists>s'. counter_run inc dec fs s = Some (fst (count_run full_code empty_code (cap s) fs (level s)), s') \<and>
           inv s' \<and> cap s' = cap s \<and> level s' = snd (count_run full_code empty_code (cap s) fs (level s))"
  using assms
proof (induction fs arbitrary: s)
  case Nil
  then show ?case by simp
next
  case (Cons f fs)
  define step where "step = (if f then (if level s < cap s then (OK_code, Suc (level s)) else (full_code, level s))
    else (if 0 < level s then (OK_code, level s - 1) else (empty_code, level s)))"
  obtain s1 where s1: "(if f then inc s else dec s) = Some (fst step, s1)" "inv s1" "cap s1 = cap s" "level s1 = snd step"
  proof (cases f)
    case True
    then show ?thesis
      using that inc_room [OF Cons.prems] inc_full [OF Cons.prems] level_le [OF Cons.prems] Cons.prems
      by (cases "level s < cap s") (auto simp: step_def)
  next
    case False
    then show ?thesis
      using that dec_some [OF Cons.prems] dec_empty [OF Cons.prems] Cons.prems
      by (cases "0 < level s") (auto simp: step_def)
  qed
  have "count_run full_code empty_code (cap s) (f # fs) (level s) =
      (let (rs, n) = count_run full_code empty_code (cap s) fs (snd step) in (fst step # rs, n))"
    by (cases f) (simp_all add: step_def Let_def split_def)
  with Cons.IH [OF s1(2)] s1 show ?case
    by (auto simp: Let_def split_def)
qed

text \<open>Conservation: what is in is what went in and did not come out.\<close>

lemma run_conserves:
  assumes "inv s" and "counter_run inc dec fs s = Some (rs, s')"
  shows "inv s' \<and> cap s' = cap s \<and> length rs = length fs \<and> level s' + n_ok False fs rs = level s + n_ok True fs rs"
  using assms
proof (induction fs arbitrary: s rs)
  case Nil
  then show ?case by (simp add: n_ok_def)
next
  case (Cons f fs)
  then obtain r s1 rs' where r: "(if f then inc s else dec s) = Some (r, s1)"
      "counter_run inc dec fs s1 = Some (rs', s')" "rs = r # rs'"
    by (auto split: Option.bind_splits)
  have "inv s1 \<and> cap s1 = cap s \<and>
      level s1 + (if \<not> f \<and> r = OK_code then 1 else 0) = level s + (if f \<and> r = OK_code then 1 else 0)"
  proof (cases f)
    case True
    then show ?thesis
      using r(1) inc_room [OF Cons.prems(1)] inc_full [OF Cons.prems(1)] level_le [OF Cons.prems(1)] Cons.prems(1) codes
      by (cases "level s < cap s") auto
  next
    case False
    then show ?thesis
      using r(1) dec_some [OF Cons.prems(1)] dec_empty [OF Cons.prems(1)] Cons.prems(1) codes
      by (cases "0 < level s") auto
  qed
  moreover have "n_ok b (f # fs) rs = n_ok b fs rs' + (if f = b \<and> r = OK_code then 1 else 0)" for b
    by (auto simp: n_ok_def r(3))
  ultimately show ?case
    using Cons.IH [OF _ r(2)] r(3) by (auto split: if_splits)
qed

end

section \<open>Stack (stack.rs)\<close>

record stack =
  st_capacity :: u32
  st_count :: u32

definition stack_inv :: "stack \<Rightarrow> bool" where
  "stack_inv s \<longleftrightarrow> 0 < st_capacity s \<and> st_count s \<le> st_capacity s"

definition stack_init :: "u32 \<Rightarrow> stack result" where
  "stack_init capacity = (if capacity = 0 then Err EINVAL else Ok \<lparr>st_capacity = capacity, st_count = 0\<rparr>)"

definition stack_push :: "stack \<Rightarrow> (i32 \<times> stack) run" where
  "stack_push s =
     (if st_capacity s \<le> st_count s then Ret (ENOMEM, s)
      else do { c \<leftarrow> add_chk (st_count s) 1; Ret (OK_code, s\<lparr>st_count := c\<rparr>) })"

definition stack_pop :: "stack \<Rightarrow> (i32 \<times> stack) run" where
  "stack_pop s =
     (if st_count s = 0 then Ret (EBUSY, s)
      else do { c \<leftarrow> sub_chk (st_count s) 1; Ret (OK_code, s\<lparr>st_count := c\<rparr>) })"

definition stack_num_free :: "stack \<Rightarrow> u32 run" where
  "stack_num_free s = sub_chk (st_capacity s) (st_count s)"

definition stack_num_used :: "stack \<Rightarrow> u32" where
  "stack_num_used s = st_count s"

definition stack_is_full :: "stack \<Rightarrow> bool" where
  "stack_is_full s \<longleftrightarrow> st_count s = st_capacity s"

definition stack_is_empty :: "stack \<Rightarrow> bool" where
  "stack_is_empty s \<longleftrightarrow> st_count s = 0"

datatype push_decision = PushStore | PushWakeWaiter | PushFull

datatype pop_decision = PopPop | PopPend | PopBusy

definition push_decide :: "u32 \<Rightarrow> u32 \<Rightarrow> bool \<Rightarrow> (push_decision \<times> u32) run" where
  "push_decide cnt capacity has_waiter =
     (if has_waiter then Ret (PushWakeWaiter, cnt)
      else if cnt < capacity then do { c \<leftarrow> add_chk cnt 1; Ret (PushStore, c) }
      else Ret (PushFull, cnt))"

definition pop_decide :: "u32 \<Rightarrow> bool \<Rightarrow> (pop_decision \<times> u32) run" where
  "pop_decide cnt is_no_wait =
     (if 0 < cnt then do { c \<leftarrow> sub_chk cnt 1; Ret (PopPop, c) }
      else if is_no_wait then Ret (PopBusy, 0)
      else Ret (PopPend, 0))"

section \<open>FIFO (fifo.rs) and LIFO (lifo.rs)\<close>

datatype put_dec = PutWakeThread | PutInsert | PutOverflow

datatype get_dec = GetDequeued | GetEmpty

definition fifo_put_decide :: "u32 \<Rightarrow> bool \<Rightarrow> put_dec" where
  "fifo_put_decide cnt has_waiter =
     (if has_waiter then PutWakeThread
      else if cnt < u32_max - 1 then PutInsert
      else PutOverflow)"

definition fifo_get_decide :: "u32 \<Rightarrow> get_dec" where
  "fifo_get_decide cnt = (if 0 < cnt then GetDequeued else GetEmpty)"

record fifo =
  ff_count :: u32

definition fifo_inv :: "fifo \<Rightarrow> bool" where
  "fifo_inv s \<longleftrightarrow> ff_count s < u32_max"

definition fifo_init :: fifo where
  "fifo_init = \<lparr>ff_count = 0\<rparr>"

definition fifo_put :: "fifo \<Rightarrow> (i32 \<times> fifo) run" where
  "fifo_put s =
     (if u32_max - 1 \<le> ff_count s then Ret (EOVERFLOW, s)
      else do { c \<leftarrow> add_chk (ff_count s) 1; Ret (OK_code, s\<lparr>ff_count := c\<rparr>) })"

definition fifo_get :: "fifo \<Rightarrow> (i32 \<times> fifo) run" where
  "fifo_get s =
     (if ff_count s = 0 then Ret (EAGAIN, s)
      else do { c \<leftarrow> sub_chk (ff_count s) 1; Ret (OK_code, s\<lparr>ff_count := c\<rparr>) })"

definition fifo_num_items :: "fifo \<Rightarrow> u32" where
  "fifo_num_items s = ff_count s"

definition fifo_peek_head :: "fifo \<Rightarrow> bool" where
  "fifo_peek_head s \<longleftrightarrow> 0 < ff_count s"

record lifo =
  lf_count :: u32

definition lifo_put_decide :: "u32 \<Rightarrow> bool \<Rightarrow> put_dec" where
  "lifo_put_decide cnt has_waiter =
     (if has_waiter then PutWakeThread
      else if cnt < u32_max - 1 then PutInsert
      else PutOverflow)"

definition lifo_get_decide :: "u32 \<Rightarrow> get_dec" where
  "lifo_get_decide cnt = (if 0 < cnt then GetDequeued else GetEmpty)"

definition lifo_init :: lifo where
  "lifo_init = \<lparr>lf_count = 0\<rparr>"

definition lifo_put :: "lifo \<Rightarrow> (i32 \<times> lifo) run" where
  "lifo_put s =
     (if u32_max \<le> lf_count s then Ret (EOVERFLOW, s)
      else do { c \<leftarrow> add_chk (lf_count s) 1; Ret (OK_code, s\<lparr>lf_count := c\<rparr>) })"

definition lifo_get :: "lifo \<Rightarrow> (i32 \<times> lifo) run" where
  "lifo_get s =
     (if lf_count s = 0 then Ret (EAGAIN, s)
      else do { c \<leftarrow> sub_chk (lf_count s) 1; Ret (OK_code, s\<lparr>lf_count := c\<rparr>) })"

definition lifo_num_items :: "lifo \<Rightarrow> u32" where
  "lifo_num_items s = lf_count s"

section \<open>Queue (queue.rs)\<close>

definition queue_insert_decide :: "u32 \<Rightarrow> bool \<Rightarrow> put_dec" where
  "queue_insert_decide cnt has_waiter =
     (if has_waiter then PutWakeThread
      else if cnt < u32_max - 1 then PutInsert
      else PutOverflow)"

definition queue_get_decide :: "u32 \<Rightarrow> get_dec" where
  "queue_get_decide cnt = (if 0 < cnt then GetDequeued else GetEmpty)"

record queue =
  qu_count :: u32

definition queue_init :: queue where
  "queue_init = \<lparr>qu_count = 0\<rparr>"

definition queue_append :: "queue \<Rightarrow> (i32 \<times> queue) run" where
  "queue_append s =
     (if qu_count s = u32_max then Ret (EOVERFLOW, s)
      else do { c \<leftarrow> add_chk (qu_count s) 1; Ret (OK_code, s\<lparr>qu_count := c\<rparr>) })"

definition queue_prepend :: "queue \<Rightarrow> (i32 \<times> queue) run" where
  "queue_prepend s =
     (if qu_count s = u32_max then Ret (EOVERFLOW, s)
      else do { c \<leftarrow> add_chk (qu_count s) 1; Ret (OK_code, s\<lparr>qu_count := c\<rparr>) })"

definition queue_get :: "queue \<Rightarrow> (i32 \<times> queue) run" where
  "queue_get s =
     (if qu_count s = 0 then Ret (EAGAIN, s)
      else do { c \<leftarrow> sub_chk (qu_count s) 1; Ret (OK_code, s\<lparr>qu_count := c\<rparr>) })"

definition queue_count_get :: "queue \<Rightarrow> u32" where
  "queue_count_get s = qu_count s"

section \<open>Memory slab (mem_slab.rs)\<close>

record mem_slab =
  ms_num_blocks :: u32
  ms_block_size :: u32
  ms_num_used :: u32

definition slab_inv :: "mem_slab \<Rightarrow> bool" where
  "slab_inv s \<longleftrightarrow> 0 < ms_num_blocks s \<and> 0 < ms_block_size s \<and> ms_num_used s \<le> ms_num_blocks s"

definition slab_init :: "u32 \<Rightarrow> u32 \<Rightarrow> mem_slab result" where
  "slab_init block_size num_blocks =
     (if block_size = 0 \<or> num_blocks = 0 then Err EINVAL
      else Ok \<lparr>ms_num_blocks = num_blocks, ms_block_size = block_size, ms_num_used = 0\<rparr>)"

definition slab_alloc :: "mem_slab \<Rightarrow> (i32 \<times> mem_slab) run" where
  "slab_alloc s =
     (if ms_num_blocks s \<le> ms_num_used s then Ret (ENOMEM, s)
      else do { c \<leftarrow> add_chk (ms_num_used s) 1; Ret (OK_code, s\<lparr>ms_num_used := c\<rparr>) })"

definition slab_free :: "mem_slab \<Rightarrow> (i32 \<times> mem_slab) run" where
  "slab_free s =
     (if ms_num_used s = 0 then Ret (EINVAL, s)
      else do { c \<leftarrow> sub_chk (ms_num_used s) 1; Ret (OK_code, s\<lparr>ms_num_used := c\<rparr>) })"

definition slab_num_free_get :: "mem_slab \<Rightarrow> u32 run" where
  "slab_num_free_get s = sub_chk (ms_num_blocks s) (ms_num_used s)"

definition slab_num_used_get :: "mem_slab \<Rightarrow> u32" where
  "slab_num_used_get s = ms_num_used s"

datatype alloc_decision = AllocAlloc | AllocPend | AllocNoMem

datatype free_decision = FreeFree | FreeWakeThread

definition slab_alloc_decide :: "u32 \<Rightarrow> u32 \<Rightarrow> bool \<Rightarrow> (alloc_decision \<times> u32) run" where
  "slab_alloc_decide num_used num_blocks is_no_wait =
     (if num_used < num_blocks then do { c \<leftarrow> add_chk num_used 1; Ret (AllocAlloc, c) }
      else if is_no_wait then Ret (AllocNoMem, num_used)
      else Ret (AllocPend, num_used))"

definition slab_free_decide :: "u32 \<Rightarrow> bool \<Rightarrow> (free_decision \<times> u32) run" where
  "slab_free_decide num_used has_waiter =
     (if has_waiter then Ret (FreeWakeThread, num_used)
      else if 0 < num_used then do { c \<leftarrow> sub_chk num_used 1; Ret (FreeFree, c) }
      else Ret (FreeFree, 0))"

section \<open>The five objects are bounded counters\<close>

text \<open>One step of a checked 32-bit counter below its bound, and above zero.\<close>

lemma count_up:
  assumes "unat (c :: u32) < unat (m :: u32)"
  shows "add_chk c 1 = Some (c + 1)" and "unat (c + 1) = Suc (unat c)"
proof -
  have "c < m" using assms by (simp add: word_less_nat_alt)
  then show "add_chk c 1 = Some (c + 1)" "unat (c + 1) = Suc (unat c)"
    by (simp_all add: add_chk_one unat_plus_one)
qed

lemma count_down:
  assumes "0 < unat (c :: u32)"
  shows "sub_chk c 1 = Some (c - 1)" and "Suc (unat (c - 1)) = unat c"
proof -
  have "c \<noteq> 0" using assms by auto
  then show "sub_chk c 1 = Some (c - 1)" "Suc (unat (c - 1)) = unat c"
    using assms by (simp_all add: sub_chk_one unat_minus_one)
qed

interpretation stack_ctr: bounded_counter "\<lambda>s. unat (st_count s)" "\<lambda>s. unat (st_capacity s)"
  stack_inv stack_push stack_pop ENOMEM EBUSY
proof unfold_locales
  fix s
  assume inv: "stack_inv s"
  then show "unat (st_count s) \<le> unat (st_capacity s)" by (simp add: stack_inv_def word_le_nat_alt)
  show "\<exists>s'. stack_push s = Some (OK_code, s') \<and> stack_inv s' \<and> unat (st_count s') = Suc (unat (st_count s)) \<and>
      unat (st_capacity s') = unat (st_capacity s)" if "unat (st_count s) < unat (st_capacity s)"
    using inv that count_up [OF that] by (simp add: stack_push_def stack_inv_def word_le_nat_alt)
  show "stack_push s = Some (ENOMEM, s)" if "unat (st_count s) = unat (st_capacity s)"
    using that by (simp add: stack_push_def word_le_nat_alt)
  show "\<exists>s'. stack_pop s = Some (OK_code, s') \<and> stack_inv s' \<and> Suc (unat (st_count s')) = unat (st_count s) \<and>
      unat (st_capacity s') = unat (st_capacity s)" if "0 < unat (st_count s)"
    using inv that count_down [OF that] by (auto simp: stack_pop_def stack_inv_def word_le_nat_alt)
  show "stack_pop s = Some (EBUSY, s)" if "unat (st_count s) = 0"
    using that by (simp add: stack_pop_def unat_eq_0)
qed (simp_all add: error_codes)

interpretation fifo_ctr: bounded_counter "\<lambda>s. unat (ff_count s)" "\<lambda>s. 4294967294"
  fifo_inv fifo_put fifo_get EOVERFLOW EAGAIN
proof unfold_locales
  fix s
  assume inv: "fifo_inv s"
  have bound: "unat (u32_max - 1) = 4294967294" by (simp add: u32_max_def)
  from inv show "unat (ff_count s) \<le> 4294967294" by (simp add: fifo_inv_def word_less_nat_alt)
  show "\<exists>s'. fifo_put s = Some (OK_code, s') \<and> fifo_inv s' \<and> unat (ff_count s') = Suc (unat (ff_count s)) \<and>
      (4294967294 :: nat) = 4294967294" if "unat (ff_count s) < 4294967294"
    using that count_up [of "ff_count s" "u32_max - 1"] bound
    by (simp add: fifo_put_def fifo_inv_def word_le_nat_alt word_less_nat_alt)
  show "fifo_put s = Some (EOVERFLOW, s)" if "unat (ff_count s) = 4294967294"
    using that bound by (simp add: fifo_put_def word_le_nat_alt)
  show "\<exists>s'. fifo_get s = Some (OK_code, s') \<and> fifo_inv s' \<and> Suc (unat (ff_count s')) = unat (ff_count s) \<and>
      (4294967294 :: nat) = 4294967294" if "0 < unat (ff_count s)"
    using inv that count_down [OF that] by (auto simp: fifo_get_def fifo_inv_def word_less_nat_alt)
  show "fifo_get s = Some (EAGAIN, s)" if "unat (ff_count s) = 0"
    using that by (simp add: fifo_get_def unat_eq_0)
qed (simp_all add: error_codes)

interpretation lifo_ctr: bounded_counter "\<lambda>s. unat (lf_count s)" "\<lambda>s. 4294967295"
  "\<lambda>s. True" lifo_put lifo_get EOVERFLOW EAGAIN
proof unfold_locales
  fix s :: lifo
  show "unat (lf_count s) \<le> 4294967295" using unat_u32_less [of "lf_count s"] by simp
  show "\<exists>s'. lifo_put s = Some (OK_code, s') \<and> True \<and> unat (lf_count s') = Suc (unat (lf_count s)) \<and>
      (4294967295 :: nat) = 4294967295" if "unat (lf_count s) < 4294967295"
    using that count_up [of "lf_count s" u32_max] by (simp add: lifo_put_def word_le_nat_alt)
  show "lifo_put s = Some (EOVERFLOW, s)" if "unat (lf_count s) = 4294967295"
    using that by (simp add: lifo_put_def word_le_nat_alt)
  show "\<exists>s'. lifo_get s = Some (OK_code, s') \<and> True \<and> Suc (unat (lf_count s')) = unat (lf_count s) \<and>
      (4294967295 :: nat) = 4294967295" if "0 < unat (lf_count s)"
    using that count_down [OF that] by (auto simp: lifo_get_def)
  show "lifo_get s = Some (EAGAIN, s)" if "unat (lf_count s) = 0"
    using that by (simp add: lifo_get_def unat_eq_0)
qed (simp_all add: error_codes)

interpretation queue_ctr: bounded_counter "\<lambda>s. unat (qu_count s)" "\<lambda>s. 4294967295"
  "\<lambda>s. True" queue_append queue_get EOVERFLOW EAGAIN
proof unfold_locales
  fix s :: queue
  have max_iff: "qu_count s = u32_max \<longleftrightarrow> unat (qu_count s) = 4294967295"
    by (metis unat_u32_max word_unat_eq_iff)
  show "unat (qu_count s) \<le> 4294967295" using unat_u32_less [of "qu_count s"] by simp
  show "\<exists>s'. queue_append s = Some (OK_code, s') \<and> True \<and> unat (qu_count s') = Suc (unat (qu_count s)) \<and>
      (4294967295 :: nat) = 4294967295" if "unat (qu_count s) < 4294967295"
    using that count_up [of "qu_count s" u32_max] max_iff by (simp add: queue_append_def)
  show "queue_append s = Some (EOVERFLOW, s)" if "unat (qu_count s) = 4294967295"
    using that max_iff by (simp add: queue_append_def)
  show "\<exists>s'. queue_get s = Some (OK_code, s') \<and> True \<and> Suc (unat (qu_count s')) = unat (qu_count s) \<and>
      (4294967295 :: nat) = 4294967295" if "0 < unat (qu_count s)"
    using that count_down [OF that] by (auto simp: queue_get_def)
  show "queue_get s = Some (EAGAIN, s)" if "unat (qu_count s) = 0"
    using that by (simp add: queue_get_def unat_eq_0)
qed (simp_all add: error_codes)

interpretation slab_ctr: bounded_counter "\<lambda>s. unat (ms_num_used s)" "\<lambda>s. unat (ms_num_blocks s)"
  slab_inv slab_alloc slab_free ENOMEM EINVAL
proof unfold_locales
  fix s
  assume inv: "slab_inv s"
  then show "unat (ms_num_used s) \<le> unat (ms_num_blocks s)" by (simp add: slab_inv_def word_le_nat_alt)
  show "\<exists>s'. slab_alloc s = Some (OK_code, s') \<and> slab_inv s' \<and> unat (ms_num_used s') = Suc (unat (ms_num_used s)) \<and>
      unat (ms_num_blocks s') = unat (ms_num_blocks s)" if "unat (ms_num_used s) < unat (ms_num_blocks s)"
    using inv that count_up [OF that] by (simp add: slab_alloc_def slab_inv_def word_le_nat_alt)
  show "slab_alloc s = Some (ENOMEM, s)" if "unat (ms_num_used s) = unat (ms_num_blocks s)"
    using that by (simp add: slab_alloc_def word_le_nat_alt)
  show "\<exists>s'. slab_free s = Some (OK_code, s') \<and> slab_inv s' \<and> Suc (unat (ms_num_used s')) = unat (ms_num_used s) \<and>
      unat (ms_num_blocks s') = unat (ms_num_blocks s)" if "0 < unat (ms_num_used s)"
    using inv that count_down [OF that] by (auto simp: slab_free_def slab_inv_def word_le_nat_alt)
  show "slab_free s = Some (EINVAL, s)" if "unat (ms_num_used s) = 0"
    using that by (simp add: slab_free_def unat_eq_0)
qed (simp_all add: error_codes)

section \<open>Properties\<close>

text \<open>
  C22: Every counting object behaves as a bounded counter over any sequence of operations.
  From a fresh object no sequence panics, and the codes returned are those of a number
  between zero and the bound: success while there is room (or something to take), the
  object's own full or empty code otherwise. The bound is the capacity for the stack and
  the slab, the largest 32-bit number for the LIFO and the queue, one less for the FIFO.
\<close>

theorem counted_objects_run:
  assumes "stack_init c = Inr s" and "slab_init bs nb = Inr m"
  shows "(\<exists>s'. counter_run stack_push stack_pop fs s = Some (fst (count_run ENOMEM EBUSY (unat c) fs 0), s')) \<and>
         (\<exists>s'. counter_run slab_alloc slab_free fs m = Some (fst (count_run ENOMEM EINVAL (unat nb) fs 0), s')) \<and>
         (\<exists>s'. counter_run fifo_put fifo_get fs fifo_init = Some (fst (count_run EOVERFLOW EAGAIN 4294967294 fs 0), s')) \<and>
         (\<exists>s'. counter_run lifo_put lifo_get fs lifo_init = Some (fst (count_run EOVERFLOW EAGAIN 4294967295 fs 0), s')) \<and>
         (\<exists>s'. counter_run queue_append queue_get fs queue_init = Some (fst (count_run EOVERFLOW EAGAIN 4294967295 fs 0), s'))"
proof -
  have s: "stack_inv s" "unat (st_capacity s) = unat c" "unat (st_count s) = 0"
    using assms(1) by (auto simp: stack_init_def stack_inv_def word_gt_0 split: if_splits)
  have m: "slab_inv m" "unat (ms_num_blocks m) = unat nb" "unat (ms_num_used m) = 0"
    using assms(2) by (auto simp: slab_init_def slab_inv_def word_gt_0 split: if_splits)
  have f: "fifo_inv fifo_init" "unat (ff_count fifo_init) = 0" "unat (lf_count lifo_init) = 0" "unat (qu_count queue_init) = 0"
    by (simp_all add: fifo_inv_def fifo_init_def u32_max_def lifo_init_def queue_init_def)
  show ?thesis
    using stack_ctr.run_counts [OF s(1), of fs] slab_ctr.run_counts [OF m(1), of fs]
      fifo_ctr.run_counts [OF f(1), of fs] lifo_ctr.run_counts [OF TrueI, of fs lifo_init]
      queue_ctr.run_counts [OF TrueI, of fs queue_init]
    unfolding s(2,3) m(2,3) f(2-4) by blast
qed

theorem counted_objects_run_witness:
  "\<exists>s'. counter_run stack_push stack_pop [True, True, True, False, False, False] \<lparr>st_capacity = 2, st_count = 0\<rparr> =
     Some ([OK_code, OK_code, ENOMEM, OK_code, OK_code, EBUSY], s')"
proof -
  have init: "stack_init 2 = Inr \<lparr>st_capacity = 2, st_count = 0\<rparr>"
    "slab_init 1 1 = Inr \<lparr>ms_num_blocks = 1, ms_block_size = 1, ms_num_used = 0\<rparr>"
    by (simp_all add: stack_init_def slab_init_def)
  have spec: "fst (count_run ENOMEM EBUSY (unat (2 :: u32)) [True, True, True, False, False, False] 0) =
      [OK_code, OK_code, ENOMEM, OK_code, OK_code, EBUSY]"
    by simp
  from counted_objects_run [OF init, of "[True, True, True, False, False, False]"] show ?thesis
    unfolding spec by blast
qed

text \<open>
  Slab blocks are conserved. After any sequence of allocations and frees on a fresh
  slab, the blocks in use are the successful allocations minus the successful frees, they
  never exceed the number of blocks, and the free blocks reported are the rest.
\<close>

theorem slab_conservation:
  assumes "slab_init bs nb = Inr s" and "counter_run slab_alloc slab_free fs s = Some (rs, s')"
  shows "unat (slab_num_used_get s') + n_ok False fs rs = n_ok True fs rs \<and>
         unat (slab_num_used_get s') \<le> unat nb \<and>
         map_option unat (slab_num_free_get s') = Some (unat nb - unat (slab_num_used_get s'))"
proof -
  have s: "slab_inv s" "unat (ms_num_blocks s) = unat nb" "unat (ms_num_used s) = 0"
    using assms(1) by (auto simp: slab_init_def slab_inv_def word_gt_0 split: if_splits)
  have run: "slab_inv s'" "unat (ms_num_blocks s') = unat nb"
      "unat (ms_num_used s') + n_ok False fs rs = n_ok True fs rs"
    using slab_ctr.run_conserves [OF s(1) assms(2)] s(2,3) by auto
  then show ?thesis
    using slab_ctr.level_le [OF run(1)]
    by (simp add: slab_num_used_get_def slab_num_free_get_def sub_chk_def word_le_nat_alt unat_sub)
qed

theorem slab_conservation_witness:
  "\<exists>rs s'. counter_run slab_alloc slab_free [True, False, False] \<lparr>ms_num_blocks = 3, ms_block_size = 8, ms_num_used = 0\<rparr> = Some (rs, s') \<and>
     unat (slab_num_used_get s') + n_ok False [True, False, False] rs = n_ok True [True, False, False] rs"
proof -
  let ?s = "\<lparr>ms_num_blocks = 3, ms_block_size = 8, ms_num_used = 0\<rparr>"
  have init: "slab_init 8 3 = Inr ?s" by (simp add: slab_init_def)
  have run: "counter_run slab_alloc slab_free [True, False, False] ?s = Some ([OK_code, OK_code, EINVAL], ?s)"
    by (simp add: slab_alloc_def slab_free_def add_chk_def sub_chk_def)
  from slab_conservation [OF init run] run show ?thesis by blast
qed

text \<open>
  The decision functions of the C shim agree with the objects: without a waiter,
  push_decide and pop_decide give the count that push and pop leave and refuse in the same
  cases, slab_alloc_decide likewise, and the FIFO inserts exactly when its put succeeds;
  with a waiter the item is handed over and the count is unchanged.
\<close>

theorem counted_decide_agrees:
  assumes "stack_inv s" and "slab_inv m" and "fifo_inv f"
  shows "(\<exists>r s'. stack_push s = Some (r, s') \<and>
            push_decide (st_count s) (st_capacity s) False =
              Some (if r = OK_code then PushStore else PushFull, st_count s')) \<and>
         (\<exists>r s'. stack_pop s = Some (r, s') \<and>
            pop_decide (st_count s) nw =
              Some (if r = OK_code then PopPop else if nw then PopBusy else PopPend, st_count s')) \<and>
         (\<exists>r m'. slab_alloc m = Some (r, m') \<and>
            slab_alloc_decide (ms_num_used m) (ms_num_blocks m) nw =
              Some (if r = OK_code then AllocAlloc else if nw then AllocNoMem else AllocPend, ms_num_used m')) \<and>
         (\<exists>r f'. fifo_put f = Some (r, f') \<and>
            fifo_put_decide (ff_count f) False = (if r = OK_code then PutInsert else PutOverflow)) \<and>
         push_decide (st_count s) (st_capacity s) True = Some (PushWakeWaiter, st_count s)"
proof (intro conjI)
  show "\<exists>r s'. stack_push s = Some (r, s') \<and> push_decide (st_count s) (st_capacity s) False =
              Some (if r = OK_code then PushStore else PushFull, st_count s')"
    by (cases "st_count s < st_capacity s")
       (simp_all add: stack_push_def push_decide_def add_chk_one not_less not_le error_codes)
  show "\<exists>r s'. stack_pop s = Some (r, s') \<and> pop_decide (st_count s) nw =
              Some (if r = OK_code then PopPop else if nw then PopBusy else PopPend, st_count s')"
    by (cases "st_count s = 0") (simp_all add: stack_pop_def pop_decide_def sub_chk_one word_gt_0 error_codes)
  show "\<exists>r m'. slab_alloc m = Some (r, m') \<and> slab_alloc_decide (ms_num_used m) (ms_num_blocks m) nw =
              Some (if r = OK_code then AllocAlloc else if nw then AllocNoMem else AllocPend, ms_num_used m')"
    by (cases "ms_num_used m < ms_num_blocks m")
       (simp_all add: slab_alloc_def slab_alloc_decide_def add_chk_one not_less not_le error_codes)
  show "\<exists>r f'. fifo_put f = Some (r, f') \<and>
            fifo_put_decide (ff_count f) False = (if r = OK_code then PutInsert else PutOverflow)"
    by (cases "ff_count f < u32_max - 1")
       (simp_all add: fifo_put_def fifo_put_decide_def add_chk_one not_less not_le error_codes)
  show "push_decide (st_count s) (st_capacity s) True = Some (PushWakeWaiter, st_count s)"
    by (simp add: push_decide_def)
qed

theorem counted_decide_agrees_witness:
  "push_decide 1 4 True = Some (PushWakeWaiter, 1)"
proof -
  have "stack_inv \<lparr>st_capacity = 4, st_count = 1\<rparr>" "slab_inv \<lparr>ms_num_blocks = 1, ms_block_size = 1, ms_num_used = 0\<rparr>"
    "fifo_inv fifo_init"
    by (simp_all add: stack_inv_def slab_inv_def fifo_inv_def fifo_init_def u32_max_def)
  from counted_decide_agrees [OF this, of True] show ?thesis by simp
qed

text \<open>
  The LIFO and the queue decide on a smaller bound than their objects enforce: at one item
  below the largest 32-bit number the decision is an overflow, while put and append succeed.
\<close>

lemma lifo_queue_decide_bound:
  "lifo_put_decide (u32_max - 1) False = PutOverflow \<and>
   (\<exists>s'. lifo_put \<lparr>lf_count = u32_max - 1\<rparr> = Some (OK_code, s')) \<and>
   queue_insert_decide (u32_max - 1) False = PutOverflow \<and>
   (\<exists>s'. queue_append \<lparr>qu_count = u32_max - 1\<rparr> = Some (OK_code, s'))"
  by (simp add: lifo_put_decide_def queue_insert_decide_def lifo_put_def queue_append_def add_chk_def u32_max_def)

end
