(* ===== verification/Timing.thy ===== *)
theory Timing
  imports Kernel_Thread
begin

text \<open>
  The event flags (src/event.rs) and the tick-driven components: the timer
  (src/timer.rs), the timeout (src/timeout.rs) and the time slice (src/timeslice.rs). The
  event operations are related to operations on sets of flag numbers; for the others the
  properties say when they fire over whole sequences of ticks.
\<close>

section \<open>Event (event.rs)\<close>

record event =
  ev_events :: u32

definition event_init :: event where
  "event_init = \<lparr>ev_events = 0\<rparr>"

definition event_post :: "u32 \<Rightarrow> event \<Rightarrow> u32 \<times> event" where
  "event_post new_events e = (let e = e\<lparr>ev_events := ev_events e OR new_events\<rparr> in (ev_events e, e))"

definition event_set :: "u32 \<Rightarrow> event \<Rightarrow> u32 \<times> event" where
  "event_set new_events e = (ev_events e, e\<lparr>ev_events := new_events\<rparr>)"

definition event_set_masked :: "u32 \<Rightarrow> u32 \<Rightarrow> event \<Rightarrow> u32 \<times> event" where
  "event_set_masked new_events msk e =
     (ev_events e, e\<lparr>ev_events := (ev_events e AND NOT msk) OR (new_events AND msk)\<rparr>)"

definition event_clear :: "u32 \<Rightarrow> event \<Rightarrow> u32 \<times> event" where
  "event_clear clear_events e =
     (let e = e\<lparr>ev_events := ev_events e AND NOT clear_events\<rparr> in (ev_events e, e))"

definition wait_check_any :: "u32 \<Rightarrow> event \<Rightarrow> bool" where
  "wait_check_any desired e \<longleftrightarrow> ev_events e AND desired \<noteq> 0"

definition wait_check_all :: "u32 \<Rightarrow> event \<Rightarrow> bool" where
  "wait_check_all desired e \<longleftrightarrow> ev_events e AND desired = desired"

definition events_get :: "event \<Rightarrow> u32" where
  "events_get e = ev_events e"

datatype wait_decision = Matched | WaitPend | WaitTimeout

definition WAIT_ALL :: u8 where
  "WAIT_ALL = 1"

record wait_decide_result =
  wd_decision :: wait_decision
  wd_matched_events :: u32

definition event_wait_decide :: "u32 \<Rightarrow> u32 \<Rightarrow> u8 \<Rightarrow> bool \<Rightarrow> wait_decide_result" where
  "event_wait_decide current_events desired wait_type is_no_wait =
     (let matched = current_events AND desired;
          condition_met = (if wait_type = WAIT_ALL then current_events AND desired = desired else matched \<noteq> 0)
      in if condition_met then \<lparr>wd_decision = Matched, wd_matched_events = matched\<rparr>
         else if is_no_wait then \<lparr>wd_decision = WaitTimeout, wd_matched_events = 0\<rparr>
         else \<lparr>wd_decision = WaitPend, wd_matched_events = 0\<rparr>)"

definition post_decide :: "u32 \<Rightarrow> u32 \<Rightarrow> u32 \<Rightarrow> u32" where
  "post_decide current_events new_events msk = (current_events AND NOT msk) OR (new_events AND msk)"

section \<open>Timer (timer.rs)\<close>

record timer =
  tm_status :: u32
  tm_period :: u32
  tm_running :: bool

definition timer_init :: "u32 \<Rightarrow> timer" where
  "timer_init period = \<lparr>tm_status = 0, tm_period = period, tm_running = False\<rparr>"

definition timer_start :: "timer \<Rightarrow> timer" where
  "timer_start t = t\<lparr>tm_status := 0, tm_running := True\<rparr>"

definition timer_stop :: "timer \<Rightarrow> timer" where
  "timer_stop t = t\<lparr>tm_status := 0, tm_running := False\<rparr>"

definition timer_expire :: "timer \<Rightarrow> (u32 result \<times> timer) run" where
  "timer_expire t =
     (if tm_status t = u32_max then Ret (Err EOVERFLOW, t)
      else do { s \<leftarrow> add_chk (tm_status t) 1; Ret (Ok s, t\<lparr>tm_status := s\<rparr>) })"

definition timer_status_get :: "timer \<Rightarrow> u32 \<times> timer" where
  "timer_status_get t = (tm_status t, t\<lparr>tm_status := 0\<rparr>)"

definition timer_is_running :: "timer \<Rightarrow> bool" where
  "timer_is_running t = tm_running t"

definition timer_period_get :: "timer \<Rightarrow> u32" where
  "timer_period_get t = tm_period t"

definition timer_status_peek :: "timer \<Rightarrow> u32" where
  "timer_status_peek t = tm_status t"

definition expire_decide :: "u32 \<Rightarrow> u32 \<Rightarrow> (u32 \<times> bool) run" where
  "expire_decide status period = do {
     new_status \<leftarrow> (if status < u32_max then add_chk status 1 else Ret status);
     Ret (new_status, 0 < period)
   }"

section \<open>Timeout (timeout.rs)\<close>

definition K_FOREVER_TICKS :: u64 where
  "K_FOREVER_TICKS = u64_max"

definition K_NO_WAIT_TICKS :: u64 where
  "K_NO_WAIT_TICKS = 0"

record timeout =
  to_deadline :: u64
  to_active :: bool
  to_current_tick :: u64

definition timeout_init :: "u64 \<Rightarrow> timeout" where
  "timeout_init current_tick = \<lparr>to_deadline = 0, to_active = False, to_current_tick = current_tick\<rparr>"

definition timeout_add :: "u64 \<Rightarrow> timeout \<Rightarrow> (u64 result \<times> timeout) run" where
  "timeout_add duration t = do {
     lim \<leftarrow> sub_chk K_FOREVER_TICKS (to_current_tick t);
     if lim \<le> duration then Ret (Err EINVAL, t)
     else do {
       d \<leftarrow> add_chk (to_current_tick t) duration;
       Ret (Ok d, t\<lparr>to_deadline := d, to_active := True\<rparr>)
     }
   }"

definition timeout_add_absolute :: "u64 \<Rightarrow> timeout \<Rightarrow> u64 result \<times> timeout" where
  "timeout_add_absolute deadline t =
     (if deadline < to_current_tick t \<or> K_FOREVER_TICKS \<le> deadline then (Err EINVAL, t)
      else (Ok deadline, t\<lparr>to_deadline := deadline, to_active := True\<rparr>))"

text \<open>The next two build a new timeout and leave the old one as it is.\<close>

definition timeout_add_forever :: "timeout \<Rightarrow> timeout" where
  "timeout_add_forever t =
     \<lparr>to_deadline = K_FOREVER_TICKS, to_active = True, to_current_tick = to_current_tick t\<rparr>"

definition timeout_add_no_wait :: "timeout \<Rightarrow> timeout" where
  "timeout_add_no_wait t =
     \<lparr>to_deadline = K_NO_WAIT_TICKS, to_active = True, to_current_tick = to_current_tick t\<rparr>"

definition timeout_abort :: "timeout \<Rightarrow> i32 \<times> timeout" where
  "timeout_abort t = (if to_active t then (OK_code, t\<lparr>to_active := False\<rparr>) else (EINVAL, t))"

definition timeout_announce :: "u64 \<Rightarrow> timeout \<Rightarrow> (bool result \<times> timeout) run" where
  "timeout_announce ticks t = do {
     lim \<leftarrow> sub_chk K_FOREVER_TICKS (to_current_tick t);
     if lim \<le> ticks then Ret (Err EINVAL, t)
     else do {
       new_tick \<leftarrow> add_chk (to_current_tick t) ticks;
       let t = t\<lparr>to_current_tick := new_tick\<rparr>;
       if to_active t \<and> to_deadline t \<noteq> K_FOREVER_TICKS \<and> to_deadline t \<le> to_current_tick t
       then Ret (Ok True, t\<lparr>to_active := False\<rparr>)
       else Ret (Ok False, t)
     }
   }"

definition timeout_remaining :: "timeout \<Rightarrow> u64 run" where
  "timeout_remaining t =
     (if \<not> to_active t then Ret 0
      else if to_deadline t = K_FOREVER_TICKS then Ret K_FOREVER_TICKS
      else if to_current_tick t < to_deadline t then sub_chk (to_deadline t) (to_current_tick t)
      else Ret 0)"

definition timeout_expires :: "timeout \<Rightarrow> u64" where
  "timeout_expires t = (if to_active t then to_deadline t else to_current_tick t)"

definition timepoint_calc :: "timeout \<Rightarrow> u64 \<Rightarrow> u64 result run" where
  "timepoint_calc t duration = do {
     lim \<leftarrow> sub_chk K_FOREVER_TICKS (to_current_tick t);
     if lim \<le> duration then Ret (Err EINVAL)
     else do { tp \<leftarrow> add_chk (to_current_tick t) duration; Ret (Ok tp) }
   }"

definition timepoint_timeout :: "timeout \<Rightarrow> u64 \<Rightarrow> u64 run" where
  "timepoint_timeout t timepoint =
     (if timepoint = K_FOREVER_TICKS then Ret K_FOREVER_TICKS
      else if timepoint = K_NO_WAIT_TICKS then Ret 0
      else if to_current_tick t < timepoint then sub_chk timepoint (to_current_tick t)
      else Ret 0)"

definition add_decide :: "u64 \<Rightarrow> u64 \<Rightarrow> u64 result run" where
  "add_decide current_tick duration =
     (if K_FOREVER_TICKS \<le> current_tick then Ret (Err EINVAL)
      else do {
        lim \<leftarrow> sub_chk K_FOREVER_TICKS current_tick;
        if lim \<le> duration then Ret (Err EINVAL)
        else do { dl \<leftarrow> add_chk current_tick duration; Ret (Ok dl) }
      })"

definition abort_decide :: "bool \<Rightarrow> bool" where
  "abort_decide is_active = is_active"

definition announce_decide :: "u64 \<Rightarrow> u64 \<Rightarrow> u64 \<Rightarrow> bool \<Rightarrow> (u64 \<times> bool) result run" where
  "announce_decide current_tick ticks deadline active = do {
     lim \<leftarrow> sub_chk K_FOREVER_TICKS current_tick;
     if lim \<le> ticks then Ret (Err EINVAL)
     else do {
       new_tick \<leftarrow> add_chk current_tick ticks;
       Ret (Ok (new_tick, active \<and> deadline \<noteq> K_FOREVER_TICKS \<and> deadline \<le> new_tick))
     }
   }"

section \<open>Time slice (timeslice.rs)\<close>

record time_slice =
  sl_slice_ticks :: u32
  sl_slice_max_ticks :: u32
  sl_expired :: bool
  sl_enabled :: bool

definition slice_init_disabled :: time_slice where
  "slice_init_disabled = \<lparr>sl_slice_ticks = 0, sl_slice_max_ticks = 0, sl_expired = False, sl_enabled = False\<rparr>"

definition slice_set_config :: "u32 \<Rightarrow> time_slice \<Rightarrow> time_slice" where
  "slice_set_config max_ticks s =
     (let s = (if 0 < max_ticks
               then s\<lparr>sl_slice_max_ticks := max_ticks, sl_slice_ticks := max_ticks, sl_enabled := True\<rparr>
               else s\<lparr>sl_slice_max_ticks := 0, sl_slice_ticks := 0, sl_enabled := False\<rparr>)
      in s\<lparr>sl_expired := False\<rparr>)"

definition slice_reset :: "time_slice \<Rightarrow> time_slice" where
  "slice_reset s = s\<lparr>sl_slice_ticks := sl_slice_max_ticks s, sl_expired := False\<rparr>"

definition slice_tick :: "time_slice \<Rightarrow> time_slice run" where
  "slice_tick s =
     (if 0 < sl_slice_ticks s then do {
        n \<leftarrow> sub_chk (sl_slice_ticks s) 1;
        let s = s\<lparr>sl_slice_ticks := n\<rparr>;
        if sl_slice_ticks s = 0 then Ret (s\<lparr>sl_expired := True\<rparr>) else Ret s
      }
      else Ret (s\<lparr>sl_expired := True\<rparr>))"

definition slice_is_expired :: "time_slice \<Rightarrow> bool" where
  "slice_is_expired s = sl_expired s"

definition slice_consume_expired :: "time_slice \<Rightarrow> bool \<times> time_slice" where
  "slice_consume_expired s = (sl_expired s, s\<lparr>sl_expired := False\<rparr>)"

definition reset_decide :: "u32 \<Rightarrow> u32" where
  "reset_decide slice_max_ticks = slice_max_ticks"

definition tick_decide :: "u32 \<Rightarrow> (u32 \<times> bool) run" where
  "tick_decide slice_ticks =
     (if 0 < slice_ticks then do { new \<leftarrow> sub_chk slice_ticks 1; Ret (new, new = 0) }
      else Ret (0, True))"

definition timeslice_tick_full_decide :: "u32 \<Rightarrow> u32 \<Rightarrow> bool \<Rightarrow> bool \<times> u32" where
  "timeslice_tick_full_decide ticks_remaining slice_ticks is_cooperative =
     (if slice_ticks = 0 then (False, ticks_remaining)
      else if is_cooperative then (False, ticks_remaining)
      else if ticks_remaining = 0 then (True, slice_ticks)
      else (False, ticks_remaining))"

section \<open>Flags as sets\<close>

definition flags :: "u32 \<Rightarrow> nat set" where
  "flags w = {i. i < 32 \<and> bit w i}"

lemma flags_simps:
  "flags (a OR b) = flags a \<union> flags b" "flags (a AND b) = flags a \<inter> flags b"
  "flags (NOT a) = {..<32} - flags a" "flags 0 = {}"
  by (auto simp: flags_def bit_or_iff bit_and_iff bit_not_iff)

lemma flags_diff: "flags a \<inter> ({..<32} - S) = flags a - S"
  by (auto simp: flags_def)

lemma flags_inj: "flags a = flags b \<longleftrightarrow> a = b"
proof
  assume "flags a = flags b"
  then show "a = b" by (intro bit_word_eqI) (auto simp: flags_def set_eq_iff)
qed simp

section \<open>Sequences of ticks\<close>

fun announce_all :: "u64 list \<Rightarrow> timeout \<Rightarrow> (bool result list \<times> timeout) run" where
  "announce_all [] t = Ret ([], t)"
| "announce_all (x # xs) t = do {
     (r, t) \<leftarrow> timeout_announce x t;
     (rs, t) \<leftarrow> announce_all xs t;
     Ret (r # rs, t)
   }"

text \<open>The ticks announced by the first i calls.\<close>

definition elapsed :: "u64 list \<Rightarrow> nat \<Rightarrow> nat" where
  "elapsed xs i = sum_list (map unat (take i xs))"

lemma add_below_forever:
  assumes "unat now + unat x < unat u64_max"
  shows "sub_chk K_FOREVER_TICKS now = Some (K_FOREVER_TICKS - now)" and "\<not> K_FOREVER_TICKS - now \<le> x"
    and "add_chk now x = Some (now + x)" and "unat (now + x) = unat now + unat x"
proof -
  have le: "now \<le> K_FOREVER_TICKS"
    using unat_u64_less [of now] by (simp add: K_FOREVER_TICKS_def word_le_nat_alt)
  then show "sub_chk K_FOREVER_TICKS now = Some (K_FOREVER_TICKS - now)"
    by (simp add: sub_chk_def)
  have "unat (K_FOREVER_TICKS - now) = unat u64_max - unat now"
    using unat_sub [OF le] by (simp add: K_FOREVER_TICKS_def)
  then show "\<not> K_FOREVER_TICKS - now \<le> x"
    using assms by (simp add: word_le_nat_alt)
  show "add_chk now x = Some (now + x)" "unat (now + x) = unat now + unat x"
    using assms by (simp_all add: add_chk_def unat_word_ariths)
qed

lemma announce_all_fires:
  assumes "to_deadline t \<noteq> K_FOREVER_TICKS" and "unat (to_current_tick t) + sum_list (map unat xs) < unat u64_max"
  shows "\<exists>t' rs. announce_all xs t = Some (map Inr rs, t') \<and> length rs = length xs \<and>
           (\<forall>i<length xs. rs ! i \<longleftrightarrow> to_active t \<and>
              unat (to_deadline t) \<le> unat (to_current_tick t) + elapsed xs (Suc i) \<and>
              (\<forall>j<i. unat (to_current_tick t) + elapsed xs (Suc j) < unat (to_deadline t)))"
  using assms
proof (induction xs arbitrary: t)
  case Nil
  then show ?case by simp
next
  case (Cons x xs)
  have "unat (to_current_tick t) + unat x < unat u64_max" using Cons.prems(2) by simp
  note tick = add_below_forever [OF this]
  define fired where "fired \<longleftrightarrow> to_active t \<and> unat (to_deadline t) \<le> unat (to_current_tick t) + unat x"
  define t1 where "t1 = t\<lparr>to_current_tick := to_current_tick t + x, to_active := to_active t \<and> \<not> fired\<rparr>"
  have step: "timeout_announce x t = Some (Inr fired, t1)"
    using tick Cons.prems(1)
    by (cases t) (auto simp: timeout_announce_def fired_def t1_def word_le_nat_alt Let_def)
  have t1: "to_deadline t1 = to_deadline t" "unat (to_current_tick t1) = unat (to_current_tick t) + unat x"
      "to_active t1 \<longleftrightarrow> to_active t \<and> \<not> fired"
    using tick(4) by (simp_all add: t1_def)
  obtain t' rs where rs: "announce_all xs t1 = Some (map Inr rs, t')" "length rs = length xs"
      "\<forall>i<length xs. rs ! i \<longleftrightarrow> to_active t1 \<and>
         unat (to_deadline t1) \<le> unat (to_current_tick t1) + elapsed xs (Suc i) \<and>
         (\<forall>j<i. unat (to_current_tick t1) + elapsed xs (Suc j) < unat (to_deadline t1))"
    using Cons.IH [of t1] Cons.prems t1 by auto
  have el: "elapsed (x # xs) (Suc i) = unat x + elapsed xs i" for i
    by (simp add: elapsed_def)
  have zero: "elapsed xs 0 = 0" by (simp add: elapsed_def)
  have "(fired # rs) ! i \<longleftrightarrow> to_active t \<and>
      unat (to_deadline t) \<le> unat (to_current_tick t) + elapsed (x # xs) (Suc i) \<and>
      (\<forall>j<i. unat (to_current_tick t) + elapsed (x # xs) (Suc j) < unat (to_deadline t))"
    if "i < length (x # xs)" for i
  proof (cases i)
    case 0
    then show ?thesis by (simp add: fired_def el zero)
  next
    case (Suc k)
    then have "rs ! k \<longleftrightarrow> to_active t1 \<and> unat (to_deadline t1) \<le> unat (to_current_tick t1) + elapsed xs (Suc k) \<and>
        (\<forall>j<k. unat (to_current_tick t1) + elapsed xs (Suc j) < unat (to_deadline t1))"
      using rs(3) that by simp
    then show ?thesis
      by (auto simp: Suc el t1 All_less_Suc2 fired_def zero add.assoc)
  qed
  then show ?case
    using step rs(1,2) by (intro exI [of _ t'] exI [of _ "fired # rs"]) simp
qed

fun slice_ticks :: "nat \<Rightarrow> time_slice \<Rightarrow> time_slice run" where
  "slice_ticks 0 s = Ret s"
| "slice_ticks (Suc n) s = do { s \<leftarrow> slice_tick s; slice_ticks n s }"

lemma slice_ticks_ok:
  "\<exists>s'. slice_ticks n s = Some s' \<and> unat (sl_slice_ticks s') = unat (sl_slice_ticks s) - n \<and>
     (sl_expired s' \<longleftrightarrow> sl_expired s \<or> (0 < n \<and> unat (sl_slice_ticks s) \<le> n)) \<and>
     sl_slice_max_ticks s' = sl_slice_max_ticks s \<and> sl_enabled s' = sl_enabled s"
proof (induction n arbitrary: s)
  case 0
  then show ?case by simp
next
  case (Suc n)
  show ?case
  proof (cases "sl_slice_ticks s = 0")
    case True
    then show ?thesis using Suc.IH [of "s\<lparr>sl_expired := True\<rparr>"] by (simp add: slice_tick_def)
  next
    case False
    let ?m = "sl_slice_ticks s - 1"
    let ?s = "s\<lparr>sl_slice_ticks := ?m, sl_expired := sl_expired s \<or> ?m = 0\<rparr>"
    have m: "unat (sl_slice_ticks s) = Suc (unat ?m)" "?m = 0 \<longleftrightarrow> unat ?m = 0"
      using False unat_minus_one [OF False] unat_gt_0 [of "sl_slice_ticks s"] unat_eq_0 [of ?m] by linarith+
    have "slice_tick s = Some ?s"
      using False by (cases s) (simp add: slice_tick_def sub_chk_one word_gt_0 Let_def)
    then show ?thesis
      using Suc.IH [of ?s] m by auto
  qed
qed

section \<open>Timer calls\<close>

datatype timer_op = TStart | TStop | TExpire | TRead

text \<open>A run of timer calls: the state, the expiries counted and the expiries reported by reads.\<close>

fun timer_run :: "timer_op list \<Rightarrow> timer \<Rightarrow> (nat \<times> nat \<times> timer) run" where
  "timer_run [] t = Ret (0, 0, t)"
| "timer_run (TStart # fs) t = timer_run fs (timer_start t)"
| "timer_run (TStop # fs) t = timer_run fs (timer_stop t)"
| "timer_run (TExpire # fs) t = do {
     (r, t) \<leftarrow> timer_expire t;
     (n, k, t) \<leftarrow> timer_run fs t;
     Ret ((case r of Inl e \<Rightarrow> n | Inr s \<Rightarrow> Suc n), k, t)
   }"
| "timer_run (TRead # fs) t = (let (s, t) = timer_status_get t in do {
     (n, k, t) \<leftarrow> timer_run fs t;
     Ret (n, k + unat s, t)
   })"

section \<open>Properties\<close>

text \<open>
  Event operations are set operations on flag numbers: post adds flags, set replaces
  them, the masked set replaces exactly the flags of the mask, clear removes; waiting for
  any flag succeeds exactly when a desired flag is set, waiting for all when all are, and
  the decision function reports exactly the flags that are both set and desired when it
  matches, and nothing otherwise.
\<close>

theorem event_set_semantics:
  "flags (ev_events (snd (event_post n e))) = flags (ev_events e) \<union> flags n \<and>
   flags (ev_events (snd (event_set n e))) = flags n \<and>
   flags (ev_events (snd (event_set_masked n m e))) = (flags (ev_events e) - flags m) \<union> (flags n \<inter> flags m) \<and>
   flags (ev_events (snd (event_clear n e))) = flags (ev_events e) - flags n \<and>
   (wait_check_any d e = (flags (ev_events e) \<inter> flags d \<noteq> {})) \<and>
   (wait_check_all d e = (flags d \<subseteq> flags (ev_events e))) \<and>
   flags (wd_matched_events (event_wait_decide (ev_events e) d ty nw)) =
     (if (if ty = WAIT_ALL then wait_check_all d e else wait_check_any d e) then flags (ev_events e) \<inter> flags d else {}) \<and>
   (wd_decision (event_wait_decide (ev_events e) d ty nw) = Matched) =
     (if ty = WAIT_ALL then wait_check_all d e else wait_check_any d e) \<and>
   post_decide (ev_events e) n m = ev_events (snd (event_set_masked n m e))"
proof -
  have any: "wait_check_any d e = (flags (ev_events e) \<inter> flags d \<noteq> {})"
    using flags_inj [of "ev_events e AND d" 0] by (simp add: wait_check_any_def flags_simps)
  have all: "wait_check_all d e = (flags d \<subseteq> flags (ev_events e))"
    using flags_inj [of "ev_events e AND d" d] by (auto simp: wait_check_all_def flags_simps)
  have met: "(if ty = WAIT_ALL then ev_events e AND d = d else ev_events e AND d \<noteq> 0) =
      (if ty = WAIT_ALL then wait_check_all d e else wait_check_any d e)"
    by (simp add: wait_check_any_def wait_check_all_def)
  show ?thesis
  proof (intro conjI)
    show "wait_check_any d e = (flags (ev_events e) \<inter> flags d \<noteq> {})" by (rule any)
    show "wait_check_all d e = (flags d \<subseteq> flags (ev_events e))" by (rule all)
    show "flags (wd_matched_events (event_wait_decide (ev_events e) d ty nw)) =
        (if (if ty = WAIT_ALL then wait_check_all d e else wait_check_any d e) then flags (ev_events e) \<inter> flags d else {})"
      unfolding met [symmetric] by (simp add: event_wait_decide_def flags_simps(4) Let_def flip: flags_simps(2))
    show "(wd_decision (event_wait_decide (ev_events e) d ty nw) = Matched) =
        (if ty = WAIT_ALL then wait_check_all d e else wait_check_any d e)"
      unfolding met [symmetric] by (simp add: event_wait_decide_def Let_def)
  qed (simp_all add: event_post_def event_set_def event_set_masked_def event_clear_def flags_simps flags_diff
      Let_def post_decide_def)
qed

text \<open>
  C23: A timeout fires once, at its deadline. After a successful add of d ticks, and any
  sequence of announcements whose total does not reach the end of the 64-bit tick range,
  no announcement fails or panics, and exactly the first one by which d or more ticks have
  elapsed reports that the timeout fired.
\<close>

theorem timeout_fires_once:
  assumes "timeout_add d (timeout_init now) = Some (Inr dl, t)"
    and "unat now + sum_list (map unat xs) < unat u64_max"
  shows "\<exists>t' rs. announce_all xs t = Some (map Inr rs, t') \<and> length rs = length xs \<and>
           (\<forall>i<length xs. rs ! i \<longleftrightarrow> unat d \<le> elapsed xs (Suc i) \<and> (\<forall>j<i. elapsed xs (Suc j) < unat d))"
proof -
  have sum: "\<not> K_FOREVER_TICKS - now \<le> d" "add_chk now d = Some dl"
      "t = \<lparr>to_deadline = dl, to_active = True, to_current_tick = now\<rparr>"
    using assms(1) by (auto simp: timeout_add_def timeout_init_def sub_chk_def split: if_splits Option.bind_splits)
  then have dl: "unat dl = unat now + unat d"
    by (auto simp: add_chk_def unat_word_ariths split: if_splits)
  have "now \<le> K_FOREVER_TICKS"
    using unat_u64_less [of now] by (simp add: K_FOREVER_TICKS_def word_le_nat_alt)
  then have "dl \<noteq> K_FOREVER_TICKS"
    using sum(1) dl unat_sub [of now K_FOREVER_TICKS]
    by (auto simp: word_le_nat_alt K_FOREVER_TICKS_def)
  with announce_all_fires [of t xs] assms(2) sum(3) dl show ?thesis by simp
qed

theorem timeout_fires_once_witness:
  "\<exists>t' rs. announce_all [2, 3, 1] \<lparr>to_deadline = 14, to_active = True, to_current_tick = 10\<rparr> = Some (map Inr rs, t') \<and>
     length rs = 3 \<and> rs ! 1"
proof -
  have "timeout_add 4 (timeout_init 10) = Some (Inr 14, \<lparr>to_deadline = 14, to_active = True, to_current_tick = 10\<rparr>)"
    by (simp add: timeout_add_def timeout_init_def sub_chk_def add_chk_def K_FOREVER_TICKS_def u64_max_def)
  from timeout_fires_once [OF this, of "[2, 3, 1]"]
  obtain t' rs where "announce_all [2, 3, 1] \<lparr>to_deadline = 14, to_active = True, to_current_tick = 10\<rparr> = Some (map Inr rs, t')"
      "length rs = 3" "\<forall>i<3. rs ! i \<longleftrightarrow> 4 \<le> elapsed [2, 3, 1] (Suc i) \<and> (\<forall>j<i. elapsed [2, 3, 1] (Suc j) < 4)"
    by auto
  then show ?thesis
    by (intro exI [of _ t'] exI [of _ rs]) (simp add: elapsed_def)
qed

text \<open>
  A time slice expires after exactly its ticks. A slice configured with m > 0 ticks is
  not expired for the first m - 1 ticks and is expired from the m-th on; ticking never
  panics or wraps, and a reset (also after expiry) starts the same count again.
\<close>

theorem slice_expires_exactly:
  assumes "0 < m"
  shows "\<exists>s'. slice_ticks n (slice_set_config m s) = Some s' \<and> (slice_is_expired s' \<longleftrightarrow> unat m \<le> n) \<and>
           (\<exists>s''. slice_ticks k (slice_reset s') = Some s'' \<and> (slice_is_expired s'' \<longleftrightarrow> unat m \<le> k))"
proof -
  let ?s = "slice_set_config m s"
  have s: "sl_slice_ticks ?s = m" "\<not> sl_expired ?s" "sl_slice_max_ticks ?s = m"
    using assms by (simp_all add: slice_set_config_def Let_def)
  have pos: "0 < unat m" using assms by (simp add: unat_gt_0 word_gt_0)
  obtain s' where s': "slice_ticks n ?s = Some s'" "sl_expired s' \<longleftrightarrow> 0 < n \<and> unat m \<le> n" "sl_slice_max_ticks s' = m"
    using slice_ticks_ok [of n ?s] s by auto
  obtain s'' where "slice_ticks k (slice_reset s') = Some s''" "sl_expired s'' \<longleftrightarrow> 0 < k \<and> unat m \<le> k"
    using slice_ticks_ok [of k "slice_reset s'"] s'(3) by (auto simp: slice_reset_def)
  with s' pos show ?thesis by (auto simp: slice_is_expired_def)
qed

theorem slice_expires_exactly_witness:
  "\<exists>s'. slice_ticks 3 (slice_set_config 4 slice_init_disabled) = Some s' \<and> \<not> slice_is_expired s'"
  using slice_expires_exactly [of 4 3 slice_init_disabled 0] by auto

text \<open>
  A timer reports every expiry exactly once. Over any sequence of expiries and reads
  no call panics, and the expiries already reported by reads plus those still pending are
  the pending ones at the start plus all that were counted.
\<close>

theorem timer_reports_all:
  assumes "set fs \<subseteq> {TExpire, TRead}"
  shows "\<exists>n k t'. timer_run fs t = Some (n, k, t') \<and>
           k + unat (timer_status_peek t') = unat (timer_status_peek t) + n"
  using assms
proof (induction fs arbitrary: t)
  case Nil
  then show ?case by simp
next
  case (Cons f fs)
  then consider "f = TExpire" | "f = TRead" by auto
  then show ?case
  proof cases
    case 1
    show ?thesis
    proof (cases "tm_status t = u32_max")
      case True
      then show ?thesis using Cons 1 by (auto simp: timer_expire_def)
    next
      case False
      then have "unat (tm_status t + 1) = Suc (unat (tm_status t))"
        using unat_plus_one [of "tm_status t" u32_max] u32_less_max_iff by simp
      then show ?thesis
        using Cons.IH [of "t\<lparr>tm_status := tm_status t + 1\<rparr>"] Cons.prems 1 False
        by (auto simp: timer_expire_def add_chk_one_u32 timer_status_peek_def)
    qed
  next
    case 2
    then show ?thesis
      using Cons.IH [of "t\<lparr>tm_status := 0\<rparr>"] Cons.prems
      by (auto simp: timer_status_get_def timer_status_peek_def)
  qed
qed

theorem timer_reports_all_witness:
  "\<exists>n k t'. timer_run [TExpire, TExpire, TRead, TExpire] (timer_init 5) = Some (n, k, t') \<and>
     k + unat (timer_status_peek t') = unat (timer_status_peek (timer_init 5)) + n"
  using timer_reports_all [of "[TExpire, TExpire, TRead, TExpire]" "timer_init 5"] by (simp del: timer_run.simps)

end
