(* ===== verification/Pipe.thy ===== *)
theory Pipe
  imports Kernel_Thread
begin

text \<open>
  The byte pipe (src/pipe.rs): the byte count and state flags of the object and the
  decision functions of the C shim. The bytes themselves live in the C ring buffer; the
  property is that the count balances over any sequence of calls.
\<close>

definition FLAG_OPEN :: u8 where
  "FLAG_OPEN = 1"

definition FLAG_RESET :: u8 where
  "FLAG_RESET = 2"

record pipe =
  pi_size :: u32
  pi_used :: u32
  pi_flags :: u8

definition pipe_inv :: "pipe \<Rightarrow> bool" where
  "pipe_inv p \<longleftrightarrow> 0 < pi_size p \<and> pi_used p \<le> pi_size p"

definition pipe_init :: "u32 \<Rightarrow> pipe result" where
  "pipe_init sz = (if sz = 0 then Err EINVAL else Ok \<lparr>pi_size = sz, pi_used = 0, pi_flags = FLAG_OPEN\<rparr>)"

definition pipe_write_check :: "u32 \<Rightarrow> pipe \<Rightarrow> (u32 result \<times> pipe) run" where
  "pipe_write_check request_len p =
     (if pi_flags p AND FLAG_RESET \<noteq> 0 then Ret (Err ECANCELED, p)
      else if pi_flags p AND FLAG_OPEN = 0 then Ret (Err EPIPE, p)
      else if request_len = 0 then Ret (Err ENOMSG, p)
      else do {
        free \<leftarrow> sub_chk (pi_size p) (pi_used p);
        if free = 0 then Ret (Err EAGAIN, p)
        else do {
          let n = (if request_len \<le> free then request_len else free);
          u \<leftarrow> add_chk (pi_used p) n;
          Ret (Ok n, p\<lparr>pi_used := u\<rparr>)
        }
      })"

definition pipe_read_check :: "u32 \<Rightarrow> pipe \<Rightarrow> (u32 result \<times> pipe) run" where
  "pipe_read_check request_len p =
     (if pi_flags p AND FLAG_RESET \<noteq> 0 then Ret (Err ECANCELED, p)
      else if request_len = 0 then Ret (Err ENOMSG, p)
      else if pi_used p = 0 then
        (if pi_flags p AND FLAG_OPEN = 0 then Ret (Err EPIPE, p) else Ret (Err EAGAIN, p))
      else do {
        let n = (if request_len \<le> pi_used p then request_len else pi_used p);
        u \<leftarrow> sub_chk (pi_used p) n;
        Ret (Ok n, p\<lparr>pi_used := u\<rparr>)
      })"

definition pipe_reset :: "pipe \<Rightarrow> pipe" where
  "pipe_reset p = p\<lparr>pi_used := 0, pi_flags := pi_flags p OR FLAG_RESET\<rparr>"

definition pipe_close :: "pipe \<Rightarrow> pipe" where
  "pipe_close p = p\<lparr>pi_flags := 0\<rparr>"

definition pipe_space_get :: "pipe \<Rightarrow> u32 run" where
  "pipe_space_get p = sub_chk (pi_size p) (pi_used p)"

definition pipe_data_get :: "pipe \<Rightarrow> u32" where
  "pipe_data_get p = pi_used p"

definition pipe_is_open :: "pipe \<Rightarrow> bool" where
  "pipe_is_open p \<longleftrightarrow> pi_flags p AND FLAG_OPEN \<noteq> 0"

definition pipe_is_resetting :: "pipe \<Rightarrow> bool" where
  "pipe_is_resetting p \<longleftrightarrow> pi_flags p AND FLAG_RESET \<noteq> 0"

definition pipe_clear_reset :: "pipe \<Rightarrow> pipe" where
  "pipe_clear_reset p = p\<lparr>pi_flags := pi_flags p AND NOT FLAG_RESET\<rparr>"

section \<open>Decisions\<close>

datatype write_decision = WriteOk | WakeReader | WritePend | WriteError

record write_decide_result =
  wr_decision :: write_decision
  wr_ret :: i32
  wr_actual_bytes :: u32
  wr_new_used :: u32

datatype read_decision = ReadOk | WakeWriter | ReadPend | ReadError

record read_decide_result =
  rd_decision :: read_decision
  rd_ret :: i32
  rd_actual_bytes :: u32
  rd_new_used :: u32

definition pipe_write_decide :: "u32 \<Rightarrow> u32 \<Rightarrow> u8 \<Rightarrow> u32 \<Rightarrow> bool \<Rightarrow> write_decide_result run" where
  "pipe_write_decide used sz flags request_len has_reader =
     (if flags AND FLAG_RESET \<noteq> 0
      then Ret \<lparr>wr_decision = WriteError, wr_ret = ECANCELED, wr_actual_bytes = 0, wr_new_used = used\<rparr>
      else if flags AND FLAG_OPEN = 0
      then Ret \<lparr>wr_decision = WriteError, wr_ret = EPIPE, wr_actual_bytes = 0, wr_new_used = used\<rparr>
      else if used = 0 \<and> has_reader
      then (let actual = (if 0 < sz \<and> 0 < request_len then (if request_len \<le> sz then request_len else sz) else 0)
            in Ret \<lparr>wr_decision = WakeReader, wr_ret = OK_code, wr_actual_bytes = actual, wr_new_used = 0\<rparr>)
      else if sz = 0 \<or> sz \<le> used
      then Ret \<lparr>wr_decision = WritePend, wr_ret = OK_code, wr_actual_bytes = 0, wr_new_used = used\<rparr>
      else do {
        free \<leftarrow> sub_chk sz used;
        let n = (if request_len \<le> free then request_len else free);
        nu \<leftarrow> add_chk used n;
        Ret \<lparr>wr_decision = WriteOk, wr_ret = OK_code, wr_actual_bytes = n, wr_new_used = nu\<rparr>
      })"

definition pipe_read_decide :: "u32 \<Rightarrow> u32 \<Rightarrow> u8 \<Rightarrow> u32 \<Rightarrow> bool \<Rightarrow> read_decide_result run" where
  "pipe_read_decide used sz flags request_len has_writer =
     (if flags AND FLAG_RESET \<noteq> 0
      then Ret \<lparr>rd_decision = ReadError, rd_ret = ECANCELED, rd_actual_bytes = 0, rd_new_used = used\<rparr>
      else if sz \<le> used \<and> has_writer then do {
        let n = (if request_len \<le> used then request_len else used);
        nu \<leftarrow> sub_chk used n;
        Ret \<lparr>rd_decision = WakeWriter, rd_ret = OK_code, rd_actual_bytes = n, rd_new_used = nu\<rparr>
      }
      else if 0 < used then do {
        let n = (if request_len \<le> used then request_len else used);
        nu \<leftarrow> sub_chk used n;
        Ret \<lparr>rd_decision = ReadOk, rd_ret = OK_code, rd_actual_bytes = n, rd_new_used = nu\<rparr>
      }
      else if flags AND FLAG_OPEN = 0
      then Ret \<lparr>rd_decision = ReadError, rd_ret = EPIPE, rd_actual_bytes = 0, rd_new_used = 0\<rparr>
      else Ret \<lparr>rd_decision = ReadPend, rd_ret = OK_code, rd_actual_bytes = 0, rd_new_used = 0\<rparr>)"

section \<open>Sequences of calls\<close>

datatype pipe_op = PWrite u32 | PRead u32 | PReset | PClose | PClearReset

text \<open>A call with the bytes it accepts, delivers and discards.\<close>

record pipe_flow =
  fl_in :: nat
  fl_out :: nat
  fl_lost :: nat

fun pipe_step :: "pipe_op \<Rightarrow> pipe \<Rightarrow> (pipe_flow \<times> pipe) run" where
  "pipe_step (PWrite n) p = do {
     (r, p) \<leftarrow> pipe_write_check n p;
     Ret (\<lparr>fl_in = (case r of Inl e \<Rightarrow> 0 | Inr k \<Rightarrow> unat k), fl_out = 0, fl_lost = 0\<rparr>, p)
   }"
| "pipe_step (PRead n) p = do {
     (r, p) \<leftarrow> pipe_read_check n p;
     Ret (\<lparr>fl_in = 0, fl_out = (case r of Inl e \<Rightarrow> 0 | Inr k \<Rightarrow> unat k), fl_lost = 0\<rparr>, p)
   }"
| "pipe_step PReset p = Ret (\<lparr>fl_in = 0, fl_out = 0, fl_lost = unat (pi_used p)\<rparr>, pipe_reset p)"
| "pipe_step PClose p = Ret (\<lparr>fl_in = 0, fl_out = 0, fl_lost = 0\<rparr>, pipe_close p)"
| "pipe_step PClearReset p = Ret (\<lparr>fl_in = 0, fl_out = 0, fl_lost = 0\<rparr>, pipe_clear_reset p)"

fun pipe_run :: "pipe_op list \<Rightarrow> pipe \<Rightarrow> (pipe_flow list \<times> pipe) run" where
  "pipe_run [] p = Ret ([], p)"
| "pipe_run (f # fs) p = do {
     (x, p) \<leftarrow> pipe_step f p;
     (xs, p) \<leftarrow> pipe_run fs p;
     Ret (x # xs, p)
   }"

lemma pipe_write_check_ok:
  assumes "pipe_inv p"
  shows "\<exists>r p'. pipe_write_check n p = Some (r, p') \<and> pipe_inv p' \<and> pi_size p' = pi_size p \<and>
           unat (pi_used p') = unat (pi_used p) + (case r of Inl e \<Rightarrow> 0 | Inr k \<Rightarrow> unat k)"
proof -
  have le: "pi_used p \<le> pi_size p" using assms by (simp add: pipe_inv_def)
  define free where "free = pi_size p - pi_used p"
  define k where "k = (if n \<le> free then n else free)"
  have f: "sub_chk (pi_size p) (pi_used p) = Some free" "unat free = unat (pi_size p) - unat (pi_used p)"
    using le by (simp_all add: sub_chk_def free_def unat_sub)
  have "unat k \<le> unat free" by (auto simp: k_def word_le_nat_alt)
  then have sum: "unat (pi_used p) + unat k \<le> unat (pi_size p)"
    using f(2) le by (simp add: word_le_nat_alt)
  then have a: "add_chk (pi_used p) k = Some (pi_used p + k)" "unat (pi_used p + k) = unat (pi_used p) + unat k"
    using unat_u32_less [of "pi_size p"] by (simp_all add: add_chk_def unat_word_ariths)
  have body: "(let n = (if n \<le> free then n else free) in
      do { u \<leftarrow> add_chk (pi_used p) n; Ret (Inr n, p\<lparr>pi_used := u\<rparr>) }) = Some (Inr k, p\<lparr>pi_used := pi_used p + k\<rparr>)"
    using a(1) by (simp only: k_def [symmetric] Let_def) simp
  show ?thesis
    unfolding pipe_write_check_def f(1) bind.bind_lunit body
    using assms a(2) sum by (auto simp: pipe_inv_def word_le_nat_alt)
qed

lemma pipe_read_check_ok:
  assumes "pipe_inv p"
  shows "\<exists>r p'. pipe_read_check n p = Some (r, p') \<and> pipe_inv p' \<and> pi_size p' = pi_size p \<and>
           unat (pi_used p') + (case r of Inl e \<Rightarrow> 0 | Inr k \<Rightarrow> unat k) = unat (pi_used p)"
proof -
  define k where "k = (if n \<le> pi_used p then n else pi_used p)"
  have le: "k \<le> pi_used p" by (auto simp: k_def)
  then have s: "sub_chk (pi_used p) k = Some (pi_used p - k)" "unat (pi_used p - k) + unat k = unat (pi_used p)"
    by (simp_all add: sub_chk_def unat_sub word_le_nat_alt)
  then have down: "unat (pi_used p - k) \<le> unat (pi_used p)" by linarith
  have body: "(let n = (if n \<le> pi_used p then n else pi_used p) in
      do { u \<leftarrow> sub_chk (pi_used p) n; Ret (Inr n, p\<lparr>pi_used := u\<rparr>) }) = Some (Inr k, p\<lparr>pi_used := pi_used p - k\<rparr>)"
    using s(1) by (simp only: k_def [symmetric] Let_def) simp
  show ?thesis
    unfolding pipe_read_check_def body
    using assms s(2) down by (auto simp: pipe_inv_def word_le_nat_alt)
qed

lemma pipe_step_ok:
  assumes "pipe_inv p"
  shows "\<exists>x p'. pipe_step f p = Some (x, p') \<and> pipe_inv p' \<and> pi_size p' = pi_size p \<and>
           unat (pi_used p) + fl_in x = unat (pi_used p') + fl_out x + fl_lost x"
proof (cases f)
  case (PWrite n)
  then show ?thesis using pipe_write_check_ok [OF assms, of n] by auto
next
  case (PRead n)
  then show ?thesis using pipe_read_check_ok [OF assms, of n] by auto
qed (use assms in \<open>auto simp: pipe_inv_def pipe_reset_def pipe_close_def pipe_clear_reset_def\<close>)

section \<open>Properties\<close>

text \<open>
  Bytes are conserved in a pipe. From a successful init, any sequence of writes,
  reads, resets, closes and reopenings runs without panic; afterwards the bytes accepted
  equal those delivered, those dropped by resets and those still buffered, and the buffer
  never holds more than its size.
\<close>

theorem pipe_conservation:
  assumes "pipe_init sz = Inr p"
  shows "\<exists>xs p'. pipe_run fs p = Some (xs, p') \<and> pipe_inv p' \<and>
           sum_list (map fl_in xs) =
             sum_list (map fl_out xs) + sum_list (map fl_lost xs) + unat (pipe_data_get p') \<and>
           unat (pipe_data_get p') \<le> unat sz"
proof -
  have "\<exists>xs p'. pipe_run fs p = Some (xs, p') \<and> pipe_inv p' \<and> pi_size p' = pi_size p \<and>
      unat (pi_used p) + sum_list (map fl_in xs) =
        sum_list (map fl_out xs) + sum_list (map fl_lost xs) + unat (pi_used p')" if "pipe_inv p" for p
    using that
  proof (induction fs arbitrary: p)
    case Nil
    then show ?case by simp
  next
    case (Cons f fs)
    obtain x p1 where p1: "pipe_step f p = Some (x, p1)" "pipe_inv p1" "pi_size p1 = pi_size p"
        "unat (pi_used p) + fl_in x = unat (pi_used p1) + fl_out x + fl_lost x"
      using pipe_step_ok [OF Cons.prems] by blast
    then show ?case using Cons.IH [OF p1(2)] by auto
  qed
  moreover have "pipe_inv p" "unat (pi_used p) = 0" "pi_size p = sz"
    using assms by (auto simp: pipe_init_def pipe_inv_def word_gt_0 split: if_splits)
  ultimately show ?thesis
    by (fastforce simp: pipe_data_get_def pipe_inv_def word_le_nat_alt)
qed

theorem pipe_conservation_witness:
  "\<exists>xs p'. pipe_run [PWrite 3, PRead 1, PWrite 9, PReset] \<lparr>pi_size = 8, pi_used = 0, pi_flags = FLAG_OPEN\<rparr> = Some (xs, p') \<and>
     sum_list (map fl_in xs) = sum_list (map fl_out xs) + sum_list (map fl_lost xs) + unat (pipe_data_get p')"
proof -
  have "pipe_init 8 = Inr \<lparr>pi_size = 8, pi_used = 0, pi_flags = FLAG_OPEN\<rparr>" by (simp add: pipe_init_def)
  from pipe_conservation [OF this, of "[PWrite 3, PRead 1, PWrite 9, PReset]"] show ?thesis by blast
qed

end
