(* ===== verification/Executor.thy ===== *)
theory Executor
  imports Gale_Base
begin

text \<open>
  The async executor core (src/executor.rs): eight task slots with a state, a priority and
  a deadline each, and a word of ready bits. The host function poll_task that runs a task
  is not part of the sources; it is a parameter, a function from a task number and the
  state of the outside world to a result and a new world. Nothing is assumed about it: the
  code gives it no access to the task table.
\<close>

section \<open>State\<close>

datatype task_state = Free | Pending | Done

record tasks =
  tk_state :: "task_state list"
  tk_prio :: "u32 list"
  tk_deadline :: "u64 list"
  tk_ready :: u32

abbreviation MAX_TASKS :: nat where
  "MAX_TASKS \<equiv> 8"

text \<open>The test of a ready bit as the code writes it.\<close>

definition ready_bit :: "tasks \<Rightarrow> nat \<Rightarrow> bool" where
  "ready_bit t i \<longleftrightarrow> i < MAX_TASKS \<and> drop_bit i (tk_ready t) AND 1 = 1"

definition tasks_inv :: "tasks \<Rightarrow> bool" where
  "tasks_inv t \<longleftrightarrow> length (tk_state t) = MAX_TASKS \<and> length (tk_prio t) = MAX_TASKS \<and>
     length (tk_deadline t) = MAX_TASKS \<and>
     list_all (\<lambda>i. ready_bit t i \<longrightarrow> tk_state t ! i = Pending) [0..<MAX_TASKS] \<and> tk_ready t < 256"

section \<open>Operations\<close>

definition tasks_new :: tasks where
  "tasks_new = \<lparr>tk_state = replicate MAX_TASKS Free, tk_prio = replicate MAX_TASKS 0,
     tk_deadline = replicate MAX_TASKS u64_max, tk_ready = 0\<rparr>"

function admit_from :: "nat \<Rightarrow> u32 \<Rightarrow> tasks \<Rightarrow> (u32 \<times> tasks) run" where
  "admit_from i prio t =
     (if i < MAX_TASKS then do {
        s \<leftarrow> arr_get (tk_state t) i;
        if s = Free then do {
          st \<leftarrow> arr_set (tk_state t) i Pending;
          pr \<leftarrow> arr_set (tk_prio t) i prio;
          b \<leftarrow> shl_chk 1 i;
          Ret (of_nat i, t\<lparr>tk_state := st, tk_prio := pr, tk_ready := tk_ready t AND NOT b\<rparr>)
        }
        else admit_from (i + 1) prio t
      }
      else Ret (0xFFFFFFFF, t))"
  by pat_completeness auto
termination
  by (relation "measure (\<lambda>(i, prio, t). MAX_TASKS - i)") auto

declare admit_from.simps [simp del]

definition admit :: "u32 \<Rightarrow> tasks \<Rightarrow> (u32 \<times> tasks) run" where
  "admit prio t = admit_from 0 prio t"

definition wake :: "u32 \<Rightarrow> tasks \<Rightarrow> tasks run" where
  "wake h t =
     (if h < 8 then do {
        s \<leftarrow> arr_get (tk_state t) (unat h);
        if s = Pending then do { b \<leftarrow> shl_chk 1 (unat h); Ret (t\<lparr>tk_ready := tk_ready t OR b\<rparr>) }
        else Ret t
      }
      else Ret t)"

definition is_ready :: "u32 \<Rightarrow> tasks \<Rightarrow> bool run" where
  "is_ready h t = do { r \<leftarrow> shr_chk (tk_ready t) (unat h); Ret (r AND 1 = 1) }"

text \<open>The loop of pick_next; best is MAX_TASKS as long as no ready task was seen.\<close>

function pick_from :: "nat \<Rightarrow> nat \<Rightarrow> tasks \<Rightarrow> nat run" where
  "pick_from i best t =
     (if i < MAX_TASKS then do {
        r \<leftarrow> shr_chk (tk_ready t) i;
        if r AND 1 = 1 then
          (if best = MAX_TASKS then pick_from (i + 1) i t
           else do {
             pi \<leftarrow> arr_get (tk_prio t) i;
             pb \<leftarrow> arr_get (tk_prio t) best;
             if pi < pb then pick_from (i + 1) i t else pick_from (i + 1) best t
           })
        else pick_from (i + 1) best t
      }
      else Ret best)"
  by pat_completeness auto
termination
  by (relation "measure (\<lambda>(i, best, t). MAX_TASKS - i)") auto

declare pick_from.simps [simp del]

definition pick_next :: "tasks \<Rightarrow> u32 run" where
  "pick_next t = do { h \<leftarrow> pick_from 0 MAX_TASKS t; Ret (of_nat h) }"

function next_deadline_from :: "nat \<Rightarrow> u64 \<Rightarrow> tasks \<Rightarrow> u64 run" where
  "next_deadline_from i d t =
     (if i < MAX_TASKS then do {
        s \<leftarrow> arr_get (tk_state t) i;
        if s = Pending then do {
          x \<leftarrow> arr_get (tk_deadline t) i;
          next_deadline_from (i + 1) (if x < d then x else d) t
        }
        else next_deadline_from (i + 1) d t
      }
      else Ret d)"
  by pat_completeness auto
termination
  by (relation "measure (\<lambda>(i, d, t). MAX_TASKS - i)") auto

declare next_deadline_from.simps [simp del]

definition next_deadline :: "tasks \<Rightarrow> u64 run" where
  "next_deadline t = next_deadline_from 0 u64_max t"

definition set_deadline :: "u32 \<Rightarrow> u64 \<Rightarrow> tasks \<Rightarrow> tasks run" where
  "set_deadline h d t =
     (if h < 8 then do {
        s \<leftarrow> arr_get (tk_state t) (unat h);
        if s = Pending then do { ds \<leftarrow> arr_set (tk_deadline t) (unat h) d; Ret (t\<lparr>tk_deadline := ds\<rparr>) }
        else Ret t
      }
      else Ret t)"

definition slept_status :: "u32 \<Rightarrow> u64 \<Rightarrow> tasks \<Rightarrow> u32 run" where
  "slept_status h now t =
     (if 8 \<le> h then Ret 0xFFFFFFFF
      else do { d \<leftarrow> arr_get (tk_deadline t) (unat h); Ret (if d \<le> now then 1 else 0) })"

function expire_from :: "nat \<Rightarrow> u64 \<Rightarrow> tasks \<Rightarrow> tasks run" where
  "expire_from i now t =
     (if i < MAX_TASKS then do {
        s \<leftarrow> arr_get (tk_state t) i;
        if s = Pending then do {
          d \<leftarrow> arr_get (tk_deadline t) i;
          if d \<le> now then do { b \<leftarrow> shl_chk 1 i; expire_from (i + 1) now (t\<lparr>tk_ready := tk_ready t OR b\<rparr>) }
          else expire_from (i + 1) now t
        }
        else expire_from (i + 1) now t
      }
      else Ret t)"
  by pat_completeness auto
termination
  by (relation "measure (\<lambda>(i, now, t). MAX_TASKS - i)") auto

declare expire_from.simps [simp del]

definition expire :: "u64 \<Rightarrow> tasks \<Rightarrow> tasks run" where
  "expire now t = expire_from 0 now t"

definition consume :: "u32 \<Rightarrow> tasks \<Rightarrow> tasks run" where
  "consume h t = do { b \<leftarrow> shl_chk 1 (unat h); Ret (t\<lparr>tk_ready := tk_ready t AND NOT b\<rparr>) }"

definition dispatch_one :: "(u32 \<Rightarrow> 'w \<Rightarrow> u32 \<times> 'w) \<Rightarrow> u32 \<Rightarrow> tasks \<Rightarrow> 'w \<Rightarrow> (tasks \<times> 'w) run" where
  "dispatch_one poll_task h t w =
     (let (done, w) = poll_task h w in
      if done = 1 then do { st \<leftarrow> arr_set (tk_state t) (unat h) Done; Ret (t\<lparr>tk_state := st\<rparr>, w) }
      else Ret (t, w))"

text \<open>The code loops until pick_next finds nothing ready; a run that never ends is None.\<close>

partial_function (option) poll_round :: "(u32 \<Rightarrow> 'w \<Rightarrow> u32 \<times> 'w) \<Rightarrow> tasks \<Rightarrow> 'w \<Rightarrow> (tasks \<times> 'w) run" where
  "poll_round poll_task t w = do {
     h \<leftarrow> pick_next t;
     if h = 8 then Ret (t, w)
     else do {
       t \<leftarrow> consume h t;
       (t, w) \<leftarrow> dispatch_one poll_task h t w;
       poll_round poll_task t w
     }
   }"

section \<open>Ready bits\<close>

lemma and_one_iff: "drop_bit i w AND 1 = 1 \<longleftrightarrow> bit w i" for w :: "'a::len word"
  by (simp add: and_one_eq bit_iff_odd_drop_bit odd_iff_mod_2_eq_one)

lemma ready_bit_iff: "ready_bit t i \<longleftrightarrow> i < MAX_TASKS \<and> bit (tk_ready t) i"
  by (simp add: ready_bit_def and_one_iff)

lemma tasks_inv_iff:
  "tasks_inv t \<longleftrightarrow> length (tk_state t) = 8 \<and> length (tk_prio t) = 8 \<and> length (tk_deadline t) = 8 \<and>
     (\<forall>i<8. bit (tk_ready t) i \<longrightarrow> tk_state t ! i = Pending) \<and> tk_ready t < 256"
  by (auto simp: tasks_inv_def ready_bit_iff list_all_iff)

lemma less_256_iff: "w < 256 \<longleftrightarrow> (\<forall>i\<ge>8. \<not> bit w i)" for w :: u32
proof -
  have "w < 256 \<longleftrightarrow> take_bit 8 (unat w) = unat w"
    by (simp add: word_less_nat_alt take_bit_nat_eq_self_iff)
  also have "\<dots> \<longleftrightarrow> (\<forall>i. bit w i \<longrightarrow> i < 8)"
    by (auto simp: bit_eq_iff [of "take_bit 8 (unat w)"] bit_take_bit_iff bit_unsigned_iff dest: bit_imp_le_length)
  also have "\<dots> \<longleftrightarrow> (\<forall>i\<ge>8. \<not> bit w i)"
    by (auto simp: not_less [symmetric])
  finally show ?thesis .
qed

text \<open>Setting and clearing one ready bit.\<close>

lemma shift_one:
  "n < 8 \<Longrightarrow> shl_chk (1 :: u32) n = Some (2 ^ n)"
  "n < 8 \<Longrightarrow> bit (2 ^ n :: u32) j \<longleftrightarrow> j = n"
  by (auto simp: shl_chk_def bit_exp_iff)

lemma shift_right: "n < 8 \<Longrightarrow> shr_chk w n = Some (drop_bit n w)" for w :: u32
  by (simp add: shr_chk_def)

lemma clear_bit: "n < 8 \<Longrightarrow> bit (w AND NOT (2 ^ n)) j \<longleftrightarrow> bit w j \<and> j \<noteq> n" for w :: u32
  by (auto simp: bit_and_iff bit_not_iff shift_one dest: bit_imp_le_length)

lemma raise_bit: "n < 8 \<Longrightarrow> bit (w OR 2 ^ n) j \<longleftrightarrow> bit w j \<or> j = n" for w :: u32
  by (auto simp: bit_or_iff shift_one)

lemma handle_less: "h < (8 :: u32) \<longleftrightarrow> unat h < 8"
  by (simp add: word_less_nat_alt)

section \<open>The order of polling\<close>

definition ready_list :: "tasks \<Rightarrow> nat list" where
  "ready_list t = filter (bit (tk_ready t)) [0..<MAX_TASKS]"

text \<open>The ready tasks by priority, those of one priority by number: the sort is stable.\<close>

definition poll_order :: "tasks \<Rightarrow> nat list" where
  "poll_order t = sort_key (\<lambda>i. tk_prio t ! i) (ready_list t)"

definition best_upto :: "nat \<Rightarrow> nat \<Rightarrow> tasks \<Rightarrow> bool" where
  "best_upto i b t \<longleftrightarrow>
     (if b = MAX_TASKS then \<forall>j<i. \<not> bit (tk_ready t) j
      else b < i \<and> bit (tk_ready t) b \<and>
        (\<forall>j<i. bit (tk_ready t) j \<longrightarrow> tk_prio t ! b < tk_prio t ! j \<or> tk_prio t ! b = tk_prio t ! j \<and> b \<le> j))"

lemma pick_step:
  assumes "i < 8" and "b \<le> 8" and "length (tk_prio t) = 8"
  shows "pick_from i b t =
           pick_from (i + 1) (if bit (tk_ready t) i \<and> (b = 8 \<or> tk_prio t ! i < tk_prio t ! b) then i else b) t"
  using assms by (subst pick_from.simps) (auto simp: shift_right and_one_iff arr_get_def)

lemma pick_from_best:
  assumes "length (tk_prio t) = 8" and "i \<le> 8" and "best_upto i b t" and "b \<le> 8"
  shows "\<exists>h. pick_from i b t = Some h \<and> best_upto 8 h t \<and> h \<le> 8"
  using assms(2-)
proof (induction "8 - i" arbitrary: i b)
  case 0
  then show ?case by (simp add: pick_from.simps)
next
  case (Suc n)
  let ?b = "if bit (tk_ready t) i \<and> (b = 8 \<or> tk_prio t ! i < tk_prio t ! b) then i else b"
  have "best_upto (i + 1) ?b t"
    using Suc.prems(2) Suc.hyps(2)
    by (auto simp: best_upto_def less_Suc_eq not_less split: if_splits intro: order.strict_trans2)
  then show ?case
    using Suc.hyps(1) [of "i + 1" ?b] Suc.hyps(2) Suc.prems pick_step [OF _ Suc.prems(3) assms(1), of i]
    by auto
qed

lemma set_ready_list: "set (ready_list t) = {i. i < 8 \<and> bit (tk_ready t) i}"
  by (auto simp: ready_list_def)

lemma set_poll_order: "set (poll_order t) = {i. i < 8 \<and> bit (tk_ready t) i}"
  by (simp add: poll_order_def set_ready_list)

lemma distinct_poll_order: "distinct (poll_order t)"
  by (simp add: poll_order_def ready_list_def)

lemma poll_order_head:
  assumes "best_upto 8 h t" and "h \<noteq> 8"
  shows "\<exists>hs. poll_order t = h # hs"
proof -
  let ?p = "\<lambda>i. tk_prio t ! i"
  have h: "h \<in> set (ready_list t)" using assms by (simp add: best_upto_def set_ready_list)
  obtain x hs where order: "poll_order t = x # hs"
    using h set_poll_order [of t] by (cases "poll_order t") (auto simp: set_ready_list)
  have x: "x < 8" "bit (tk_ready t) x" using set_poll_order [of t] order by auto
  have "?p x \<le> ?p h"
    using h order sorted_sort_key [of ?p "ready_list t"] set_poll_order [of t]
    by (auto simp: poll_order_def [symmetric] set_ready_list)
  then have eq: "?p h = ?p x" and le: "h \<le> x"
    using assms x by (auto simp: best_upto_def)
  have "x # filter (\<lambda>i. ?p i = ?p x) hs = filter (\<lambda>i. ?p i = ?p x) (ready_list t)"
    using sort_key_stable [of ?p "?p x" "ready_list t"] order by (simp add: poll_order_def)
  moreover have "sorted (filter (\<lambda>i. ?p i = ?p x) (ready_list t))"
    by (simp add: ready_list_def sorted_wrt_filter)
  moreover have "h \<in> set (filter (\<lambda>i. ?p i = ?p x) (ready_list t))"
    using h eq by simp
  ultimately have "sorted (x # filter (\<lambda>i. ?p i = ?p x) hs)" "h \<in> set (x # filter (\<lambda>i. ?p i = ?p x) hs)"
    by simp_all
  then have "x \<le> h" by auto
  then show ?thesis using le order by auto
qed

lemma pick_next_order:
  assumes "tasks_inv t"
  shows "pick_next t = Some (case poll_order t of [] \<Rightarrow> 8 | h # hs \<Rightarrow> of_nat h)"
proof -
  obtain h where h: "pick_from 0 8 t = Some h" "best_upto 8 h t"
    using pick_from_best [of t 0 8] assms by (auto simp: tasks_inv_iff best_upto_def)
  show ?thesis
  proof (cases "h = 8")
    case True
    then have "set (poll_order t) = {}"
      using h(2) by (auto simp: best_upto_def set_poll_order)
    then have "poll_order t = []" by simp
    then show ?thesis using h(1) True by (simp add: pick_next_def)
  next
    case False
    then show ?thesis
      using poll_order_head [OF h(2)] h(1) by (auto simp: pick_next_def)
  qed
qed

text \<open>What one round does to the task states and the world, task by task.\<close>

fun poll_seq :: "(u32 \<Rightarrow> 'w \<Rightarrow> u32 \<times> 'w) \<Rightarrow> nat list \<Rightarrow> task_state list \<Rightarrow> 'w \<Rightarrow> task_state list \<times> 'w" where
  "poll_seq poll_task [] st w = (st, w)"
| "poll_seq poll_task (h # hs) st w =
     (let (done, w) = poll_task (of_nat h) w in poll_seq poll_task hs (if done = 1 then st[h := Done] else st) w)"

lemma poll_order_consume:
  assumes "poll_order t = h # hs" and "tk_prio t' = tk_prio t" and "tk_ready t' = tk_ready t AND NOT (2 ^ h)"
  shows "poll_order t' = hs"
proof -
  have "h < 8" using set_poll_order [of t] assms(1) by auto
  then have "ready_list t' = filter (\<lambda>i. i \<noteq> h) (ready_list t)"
    using assms(3) by (auto simp: ready_list_def clear_bit intro: filter_cong)
  then have "poll_order t' = filter (\<lambda>i. i \<noteq> h) (poll_order t)"
    by (simp add: poll_order_def assms(2) filter_sort)
  moreover have "h \<notin> set hs" using distinct_poll_order [of t] assms(1) by simp
  then have "filter (\<lambda>i. i \<noteq> h) hs = hs" by (intro filter_True) auto
  ultimately show ?thesis using assms(1) by simp
qed

lemma ready_zero:
  assumes "tasks_inv t" and "poll_order t = []"
  shows "tk_ready t = 0"
proof (rule bit_word_eqI)
  fix n
  show "bit (tk_ready t) n = bit 0 n"
    using assms set_poll_order [of t] by (cases "n < 8") (auto simp: tasks_inv_iff less_256_iff)
qed

lemma poll_round_stop:
  assumes "pick_next t = Some 8"
  shows "poll_round poll_task t w = Some (t, w)"
  by (subst poll_round.simps) (simp add: assms)

lemma poll_round_next:
  assumes "pick_next t = Some (of_nat h)" and "h < 8" and "length (tk_state t) = 8"
    and "poll_task (of_nat h) w = (d, w1)"
  shows "poll_round poll_task t w =
           poll_round poll_task (t\<lparr>tk_ready := tk_ready t AND NOT (2 ^ h),
             tk_state := (if d = 1 then (tk_state t)[h := Done] else tk_state t)\<rparr>) w1"
proof -
  have h: "unat (of_nat h :: u32) = h" using assms(2) by (simp add: unat_of_nat)
  then have ne: "(of_nat h :: u32) \<noteq> 8" using assms(2) by auto
  have "consume (of_nat h) t = Some (t\<lparr>tk_ready := tk_ready t AND NOT (2 ^ h)\<rparr>)"
    using assms(2) h by (simp add: consume_def shift_one)
  then show ?thesis
    using assms h ne by (subst poll_round.simps) (simp add: dispatch_one_def arr_set_def)
qed

lemma poll_round_eq:
  assumes "tasks_inv t"
  shows "poll_round poll_task t w =
           Some (t\<lparr>tk_state := fst (poll_seq poll_task (poll_order t) (tk_state t) w), tk_ready := 0\<rparr>,
                 snd (poll_seq poll_task (poll_order t) (tk_state t) w))"
proof -
  have "poll_round poll_task t w =
          Some (t\<lparr>tk_state := fst (poll_seq poll_task hs (tk_state t) w), tk_ready := 0\<rparr>,
                snd (poll_seq poll_task hs (tk_state t) w))"
    if "poll_order t = hs" and "tasks_inv t" for hs
    using that
  proof (induction hs arbitrary: t w)
    case Nil
    then have "tk_ready t = 0" by (simp add: ready_zero)
    moreover have "poll_round poll_task t w = Some (t, w)"
      by (rule poll_round_stop) (simp add: pick_next_order Nil)
    ultimately show ?case by simp
  next
    case (Cons h hs)
    have h: "h < 8" using set_poll_order [of t] Cons.prems(1) by auto
    obtain d w1 where d: "poll_task (of_nat h) w = (d, w1)" by fastforce
    let ?t1 = "t\<lparr>tk_ready := tk_ready t AND NOT (2 ^ h),
      tk_state := (if d = 1 then (tk_state t)[h := Done] else tk_state t)\<rparr>"
    have inv: "tasks_inv ?t1"
      using Cons.prems(2) h by (auto simp: tasks_inv_iff clear_bit less_256_iff nth_list_update)
    have "poll_order ?t1 = hs"
      by (rule poll_order_consume [OF Cons.prems(1)]) simp_all
    note IH = Cons.IH [OF this inv, of w1]
    have "poll_round poll_task t w = poll_round poll_task ?t1 w1"
      using Cons.prems h by (intro poll_round_next [where d = d] d) (simp_all add: pick_next_order tasks_inv_iff)
    then show ?case using IH d by simp
  qed
  then show ?thesis using assms by simp
qed

section \<open>Admission, wake-up and expiry\<close>

lemma admit_from_eq:
  assumes "length (tk_state t) = 8" and "length (tk_prio t) = 8"
  shows "admit_from i prio t =
           Some (case List.find (\<lambda>j. tk_state t ! j = Free) [i..<8] of
                   None \<Rightarrow> (0xFFFFFFFF, t)
                 | Some j \<Rightarrow> (of_nat j, t\<lparr>tk_state := (tk_state t)[j := Pending], tk_prio := (tk_prio t)[j := prio],
                     tk_ready := tk_ready t AND NOT (2 ^ j)\<rparr>))"
proof (induction "8 - i" arbitrary: i)
  case 0
  then show ?case by (subst admit_from.simps) simp
next
  case (Suc n)
  then have i: "i < 8" and r: "[i..<8] = i # [i + 1..<8]" by (simp_all add: upt_rec)
  have "n = 8 - (i + 1)" using Suc.hyps(2) by simp
  note IH = Suc.hyps(1) [OF this]
  show ?case
    unfolding r by (subst admit_from.simps) (use i assms IH in \<open>simp add: arr_get_def arr_set_def shift_one\<close>)
qed

lemma expire_step:
  assumes "i < 8" and "length (tk_state t) = 8" and "length (tk_deadline t) = 8"
  shows "expire_from i now t =
           expire_from (i + 1) now
             (if tk_state t ! i = Pending \<and> tk_deadline t ! i \<le> now then t\<lparr>tk_ready := tk_ready t OR 2 ^ i\<rparr> else t)"
  using assms by (subst expire_from.simps) (simp add: arr_get_def shift_one)

lemma expire_from_eq:
  assumes "length (tk_state t) = 8" and "length (tk_deadline t) = 8"
  shows "\<exists>r. expire_from i now t = Some (t\<lparr>tk_ready := r\<rparr>) \<and>
           (\<forall>j. bit r j \<longleftrightarrow> bit (tk_ready t) j \<or> i \<le> j \<and> j < 8 \<and> tk_state t ! j = Pending \<and> tk_deadline t ! j \<le> now)"
  using assms
proof (induction "8 - i" arbitrary: i t)
  case 0
  then have "expire_from i now t = Some (t\<lparr>tk_ready := tk_ready t\<rparr>)" by (subst expire_from.simps) simp
  with 0 show ?case by (intro exI [of _ "tk_ready t"]) auto
next
  case (Suc n)
  have i: "i < 8" and n: "n = 8 - (i + 1)" using Suc.hyps(2) by simp_all
  let ?due = "\<lambda>j. tk_state t ! j = Pending \<and> tk_deadline t ! j \<le> now"
  have nxt: "i \<le> j \<longleftrightarrow> j = i \<or> i + 1 \<le> j" for j by auto
  show ?case
  proof (cases "?due i")
    case True
    let ?t = "t\<lparr>tk_ready := tk_ready t OR 2 ^ i\<rparr>"
    obtain r where r: "expire_from (i + 1) now ?t = Some (?t\<lparr>tk_ready := r\<rparr>)"
      "\<And>j. bit r j \<longleftrightarrow> bit (tk_ready ?t) j \<or> i + 1 \<le> j \<and> j < 8 \<and> ?due j"
      using Suc.hyps(1) [OF n, of ?t] Suc.prems by auto
    have "bit r j \<longleftrightarrow> bit (tk_ready t) j \<or> i \<le> j \<and> j < 8 \<and> ?due j" for j
      using r(2) [of j] raise_bit [OF i, of "tk_ready t" j] True i nxt [of j] by auto
    moreover have "expire_from i now t = Some (t\<lparr>tk_ready := r\<rparr>)"
      using expire_step [OF i Suc.prems] True r(1) by simp
    ultimately show ?thesis by blast
  next
    case False
    then have "expire_from i now t = expire_from (i + 1) now t"
      by (simp only: expire_step [OF i Suc.prems] if_not_P [OF False] if_False)
    moreover obtain r where "expire_from (i + 1) now t = Some (t\<lparr>tk_ready := r\<rparr>)"
      "\<And>j. bit r j \<longleftrightarrow> bit (tk_ready t) j \<or> i + 1 \<le> j \<and> j < 8 \<and> ?due j"
      using Suc.hyps(1) [OF n Suc.prems] by auto
    ultimately show ?thesis using False nxt by (metis (no_types, lifting))
  qed
qed

lemma next_deadline_from_eq:
  assumes "length (tk_state t) = 8" and "length (tk_deadline t) = 8"
  shows "next_deadline_from i d t =
           Some (fold min (map ((!) (tk_deadline t)) (filter (\<lambda>j. tk_state t ! j = Pending) [i..<8])) d)"
proof (induction "8 - i" arbitrary: i d)
  case 0
  then show ?case by (subst next_deadline_from.simps) simp
next
  case (Suc n)
  then have i: "i < 8" and r: "[i..<8] = i # [i + 1..<8]" by (simp_all add: upt_rec)
  have "n = 8 - (i + 1)" using Suc.hyps(2) by simp
  note IH = Suc.hyps(1) [OF this]
  have m: "(if x < e then x else e) = min x e" for x e :: u64 by (auto simp: min_def)
  show ?case
    unfolding r by (subst next_deadline_from.simps) (use i assms IH in \<open>simp add: arr_get_def m\<close>)
qed

lemma next_deadline_eq:
  assumes "tasks_inv t"
  shows "next_deadline t =
           Some (Min (insert u64_max {tk_deadline t ! j | j. j < 8 \<and> tk_state t ! j = Pending}))"
proof -
  let ?xs = "map ((!) (tk_deadline t)) (filter (\<lambda>j. tk_state t ! j = Pending) [0..<8])"
  have "next_deadline t = Some (fold min ?xs u64_max)"
    unfolding next_deadline_def using assms by (intro next_deadline_from_eq) (simp_all add: tasks_inv_iff)
  also have "fold min ?xs u64_max = Min (set (u64_max # ?xs))"
    by (rule Min.set_eq_fold [symmetric])
  also have "set (u64_max # ?xs) = insert u64_max {tk_deadline t ! j | j. j < 8 \<and> tk_state t ! j = Pending}"
    by auto
  finally show ?thesis .
qed

section \<open>Executions\<close>

datatype exec_event = Ev_admit u32 u32 | Ev_wake u32 | Ev_set_deadline u32 u64 | Ev_expire u64 | Ev_poll

inductive exec_step :: "(u32 \<Rightarrow> 'w \<Rightarrow> u32 \<times> 'w) \<Rightarrow> tasks \<times> 'w \<Rightarrow> exec_event \<Rightarrow> tasks \<times> 'w \<Rightarrow> bool"
  for poll_task where
  "admit prio t = Some (h, t') \<Longrightarrow> exec_step poll_task (t, w) (Ev_admit prio h) (t', w)"
| "wake h t = Some t' \<Longrightarrow> exec_step poll_task (t, w) (Ev_wake h) (t', w)"
| "set_deadline h d t = Some t' \<Longrightarrow> exec_step poll_task (t, w) (Ev_set_deadline h d) (t', w)"
| "expire now t = Some t' \<Longrightarrow> exec_step poll_task (t, w) (Ev_expire now) (t', w)"
| "poll_round poll_task t w = Some (t', w') \<Longrightarrow> exec_step poll_task (t, w) Ev_poll (t', w')"

lemma poll_seq_states:
  shows "length (fst (poll_seq pt hs st w)) = length st"
    and "i \<notin> set hs \<Longrightarrow> fst (poll_seq pt hs st w) ! i = st ! i"
  by (induction pt hs st w rule: poll_seq.induct) (auto simp: split_def Let_def)

text \<open>
  What every event that is not a poll keeps: the invariant, and every pending task that is
  ready stays pending and ready.
\<close>

definition keeps_ready :: "tasks \<Rightarrow> tasks \<Rightarrow> bool" where
  "keeps_ready t t' \<longleftrightarrow> tasks_inv t' \<and> (\<forall>i<8. bit (tk_ready t) i \<longrightarrow> bit (tk_ready t') i)"

lemma keeps_ready_refl: "tasks_inv t \<Longrightarrow> keeps_ready t t"
  by (simp add: keeps_ready_def)

lemma admit_keeps:
  assumes "tasks_inv t" and "admit prio t = Some (h, t')"
  shows "keeps_ready t t'"
proof (cases "List.find (\<lambda>j. tk_state t ! j = Free) [0..<8]")
  case None
  then show ?thesis using assms by (simp add: admit_def admit_from_eq tasks_inv_iff keeps_ready_def)
next
  case (Some j)
  have j: "j < 8" "tk_state t ! j = Free" using Some by (auto simp: find_Some_iff)
  have "t' = t\<lparr>tk_state := (tk_state t)[j := Pending], tk_prio := (tk_prio t)[j := prio],
      tk_ready := tk_ready t AND NOT (2 ^ j)\<rparr>"
    using assms Some by (simp add: admit_def admit_from_eq tasks_inv_iff)
  moreover have "\<not> bit (tk_ready t) j" using assms(1) j by (auto simp: tasks_inv_iff)
  ultimately show ?thesis
    using assms(1) j(1) by (auto simp: keeps_ready_def tasks_inv_iff clear_bit less_256_iff nth_list_update)
qed

lemma wake_eq:
  assumes "tasks_inv t"
  shows "wake h t = Some (if unat h < 8 \<and> tk_state t ! unat h = Pending
                          then t\<lparr>tk_ready := tk_ready t OR 2 ^ unat h\<rparr> else t)"
  using assms by (simp add: wake_def handle_less tasks_inv_iff arr_get_def shift_one)

lemma raise_inv:
  assumes "tasks_inv t" and "n < 8" and "tk_state t ! n = Pending"
  shows "keeps_ready t (t\<lparr>tk_ready := tk_ready t OR 2 ^ n\<rparr>)"
  using assms by (auto simp: keeps_ready_def tasks_inv_iff raise_bit less_256_iff)

lemma wake_keeps: "tasks_inv t \<Longrightarrow> wake h t = Some t' \<Longrightarrow> keeps_ready t t'"
  using raise_inv [of t "unat h"] by (auto simp: wake_eq keeps_ready_refl)

lemma set_deadline_eq:
  assumes "tasks_inv t"
  shows "set_deadline h d t = Some (if unat h < 8 \<and> tk_state t ! unat h = Pending
                                    then t\<lparr>tk_deadline := (tk_deadline t)[unat h := d]\<rparr> else t)"
  using assms by (simp add: set_deadline_def handle_less tasks_inv_iff arr_get_def arr_set_def)

lemma set_deadline_keeps: "tasks_inv t \<Longrightarrow> set_deadline h d t = Some t' \<Longrightarrow> keeps_ready t t'"
  by (auto simp: set_deadline_eq keeps_ready_def tasks_inv_iff)

lemma expire_eq:
  assumes "tasks_inv t"
  shows "\<exists>r. expire now t = Some (t\<lparr>tk_ready := r\<rparr>) \<and>
           (\<forall>j. bit r j \<longleftrightarrow> bit (tk_ready t) j \<or> j < 8 \<and> tk_state t ! j = Pending \<and> tk_deadline t ! j \<le> now)"
  using expire_from_eq [of t 0 now] assms by (simp add: expire_def tasks_inv_iff)

lemma expire_keeps:
  assumes "tasks_inv t" and "expire now t = Some t'"
  shows "keeps_ready t t'"
  using expire_eq [OF assms(1), of now] assms by (auto simp: keeps_ready_def tasks_inv_iff less_256_iff)

lemma poll_inv:
  assumes "tasks_inv t" and "poll_round pt t w = Some (t', w')"
  shows "tasks_inv t'"
  using assms by (auto simp: poll_round_eq tasks_inv_iff poll_seq_states)

lemmas event_keeps = admit_keeps wake_keeps set_deadline_keeps expire_keeps

lemma exec_step_keeps:
  assumes "exec_step pt (t, w) e (t', w')" and "tasks_inv t"
  shows "tasks_inv t'" and "e \<noteq> Ev_poll \<Longrightarrow> keeps_ready t t'"
proof -
  show keeps: "keeps_ready t t'" if "e \<noteq> Ev_poll"
    using assms that by (cases rule: exec_step.cases) (auto dest: event_keeps)
  show "tasks_inv t'"
  proof (cases "e = Ev_poll")
    case True
    then show ?thesis using assms by (auto elim: exec_step.cases dest: poll_inv)
  qed (use keeps in \<open>simp add: keeps_ready_def\<close>)
qed

lemma tasks_new_inv: "tasks_inv tasks_new"
  by (simp add: tasks_inv_iff tasks_new_def)

section \<open>Properties\<close>

text \<open>
  C14: A poll round terminates and polls exactly the ready tasks. On a well-formed table,
  whatever the host's poll function does, the loop that picks the best ready task until
  none is left returns; it polls each task that was ready exactly once, by ascending
  priority value and by slot number within a priority; afterwards no task is ready, and a
  task that was not ready keeps its state.
\<close>

theorem poll_round_drains:
  assumes "tasks_inv t"
  shows "\<exists>t' w' hs. poll_round poll_task t w = Some (t', w') \<and>
           (tk_state t', w') = poll_seq poll_task hs (tk_state t) w \<and>
           distinct hs \<and> set hs = {i. ready_bit t i} \<and> sorted (map ((!) (tk_prio t)) hs) \<and>
           (\<forall>p. sorted (filter (\<lambda>i. tk_prio t ! i = p) hs)) \<and>
           tk_ready t' = 0 \<and> tasks_inv t' \<and> (\<forall>i. \<not> ready_bit t i \<longrightarrow> tk_state t' ! i = tk_state t ! i)"
proof -
  let ?p = "(!) (tk_prio t)" and ?hs = "poll_order t"
  obtain t' w' where run: "poll_round poll_task t w = Some (t', w')"
    and t': "tk_state t' = fst (poll_seq poll_task ?hs (tk_state t) w)" "tk_ready t' = 0"
    and w': "w' = snd (poll_seq poll_task ?hs (tk_state t) w)"
    using poll_round_eq [OF assms, of poll_task w] by auto
  have set: "set ?hs = {i. ready_bit t i}" by (simp add: set_poll_order ready_bit_iff)
  have "sorted (filter (\<lambda>i. tk_prio t ! i = p) ?hs)" for p
    using sort_key_stable [of ?p p "ready_list t"]
    by (simp add: poll_order_def) (simp add: ready_list_def sorted_wrt_filter)
  moreover have "sorted (map ?p ?hs)" by (simp add: poll_order_def)
  moreover have "tk_state t' ! i = tk_state t ! i" if "\<not> ready_bit t i" for i
    unfolding t'(1) using that by (intro poll_seq_states(2)) (simp add: set)
  ultimately show ?thesis
    using run t' w' set distinct_poll_order [of t] poll_inv [OF assms run]
    by (intro exI [of _ t'] exI [of _ w'] exI [of _ ?hs]) simp
qed

theorem poll_round_drains_witness:
  "\<exists>t' w' hs. poll_round (\<lambda>h w. (1, w @ [h])) tasks_new [] = Some (t', w') \<and> set hs = {i. ready_bit tasks_new i} \<and>
     tk_ready t' = 0"
  using poll_round_drains [OF tasks_new_inv, of "\<lambda>h w. (1, w @ [h])" "[]"] by blast

text \<open>
  C11: No wake-up is lost. Once a pending task was woken, no sequence of admissions, other
  wake-ups, deadline changes and expiries takes its ready bit away, so the next poll round
  returns and polls it.
\<close>

theorem no_lost_wakeup:
  assumes "tasks_inv t" and "h < 8" and "tk_state t ! unat h = Pending" and "wake h t = Some t1"
    and "trace (exec_step poll_task) (t1, w) es (t2, w2)" and "Ev_poll \<notin> set es"
  shows "tasks_inv t2 \<and> ready_bit t2 (unat h) \<and>
         (\<exists>t3 hs. poll_round poll_task t2 w2 = Some (t3, snd (poll_seq poll_task hs (tk_state t2) w2)) \<and>
            unat h \<in> set hs \<and> \<not> ready_bit t3 (unat h))"
proof -
  have h: "unat h < 8" using assms(2) by (simp add: handle_less)
  have t1: "tasks_inv t1 \<and> bit (tk_ready t1) (unat h)"
    using wake_keeps [OF assms(1,4)] assms h by (auto simp: wake_eq raise_bit keeps_ready_def)
  have "tasks_inv (fst s) \<and> bit (tk_ready (fst s)) (unat h)"
    if "trace (exec_step poll_task) (t1, w) es s" "Ev_poll \<notin> set es" for es s
    using that
  proof (induction rule: trace.induct)
    case (trace_snoc es s e s')
    then show ?case
      using exec_step_keeps(2) [of poll_task "fst s" "snd s" e "fst s'" "snd s'"] h
      by (auto simp: keeps_ready_def)
  qed (simp add: t1)
  from this [OF assms(5,6)] have t2: "tasks_inv t2" "bit (tk_ready t2) (unat h)" by simp_all
  then have "unat h \<in> set (poll_order t2)" using h by (simp add: set_poll_order)
  then show ?thesis
    using t2 h by (auto simp: poll_round_eq ready_bit_iff)
qed

theorem no_lost_wakeup_witness:
  "let t = tasks_new\<lparr>tk_state := Pending # replicate 7 Free\<rparr> in
   \<exists>t1 t3 w3. wake 0 t = Some t1 \<and> ready_bit t1 0 \<and>
     poll_round (\<lambda>h w. (1, w @ [h])) t1 [] = Some (t3, w3) \<and> \<not> ready_bit t3 0"
proof -
  let ?t = "tasks_new\<lparr>tk_state := Pending # replicate 7 Free\<rparr>" and ?pt = "\<lambda>h w. (1 :: u32, w @ [h])"
  let ?t1 = "?t\<lparr>tk_ready := 1\<rparr>"
  have inv: "tasks_inv ?t" by (simp add: tasks_inv_iff tasks_new_def)
  have w: "wake 0 ?t = Some ?t1" using inv by (simp add: wake_eq tasks_new_def)
  have "trace (exec_step ?pt) (?t1, []) [] (?t1, [])" by (rule trace_Nil)
  from no_lost_wakeup [OF inv _ _ w this] show ?thesis
    using w by (auto simp: Let_def)
qed

text \<open>
  C24: The one-shot alarm is exact. next_deadline is the least deadline of the pending
  tasks, the largest 64-bit value when there is none; expiring at a time now marks exactly
  the pending tasks whose deadline has passed as ready, keeps every other ready bit, and
  changes nothing at all before next_deadline; neither loop panics.
\<close>

theorem tickless_expiry:
  assumes "tasks_inv t"
  shows "\<exists>nd t'. next_deadline t = Some nd \<and> expire now t = Some t' \<and>
           nd = Min (insert u64_max {tk_deadline t ! j | j. j < 8 \<and> tk_state t ! j = Pending}) \<and>
           (\<forall>j. ready_bit t' j \<longleftrightarrow> ready_bit t j \<or> j < 8 \<and> tk_state t ! j = Pending \<and> tk_deadline t ! j \<le> now) \<and>
           tk_state t' = tk_state t \<and> tk_deadline t' = tk_deadline t \<and> (now < nd \<longrightarrow> t' = t)"
proof -
  let ?D = "{tk_deadline t ! j | j. j < 8 \<and> tk_state t ! j = Pending}"
  obtain r where r: "expire now t = Some (t\<lparr>tk_ready := r\<rparr>)"
    "\<And>j. bit r j \<longleftrightarrow> bit (tk_ready t) j \<or> j < 8 \<and> tk_state t ! j = Pending \<and> tk_deadline t ! j \<le> now"
    using expire_eq [OF assms] by blast
  have "r = tk_ready t" if "now < Min (insert u64_max ?D)"
  proof -
    have "finite ?D" by simp
    then have "now < x" if "x \<in> ?D" for x
      using that \<open>now < Min (insert u64_max ?D)\<close> by (meson Min_le finite.insertI insertI2 order_less_le_trans)
    then have "\<not> tk_deadline t ! j \<le> now" if "j < 8" "tk_state t ! j = Pending" for j
      using that by (auto simp: not_le)
    then show ?thesis using r(2) by (intro bit_word_eqI) auto
  qed
  then show ?thesis
    using r next_deadline_eq [OF assms] by (auto simp: ready_bit_iff)
qed

theorem tickless_expiry_witness:
  "\<exists>nd t'. next_deadline tasks_new = Some nd \<and> expire 5 tasks_new = Some t' \<and> nd = u64_max \<and> t' = tasks_new"
proof -
  have "{tk_deadline tasks_new ! j | j. j < 8 \<and> tk_state tasks_new ! j = Pending} = {}"
    by (auto simp: tasks_new_def)
  note none = this
  from tickless_expiry [OF tasks_new_inv, of 5] show ?thesis
    unfolding none by (auto simp: u64_max_def)
qed

end
