(* ===== verification/Partition_Switch.thy ===== *)
theory Partition_Switch
  imports Gale_Base
begin

text \<open>
  The partition switcher (src/partition_switch.rs): a static major frame of four windows
  and the state machine that preempts a partition at the end of its window, programs the
  memory protection of the next one and resumes it. The three hardware functions
  (ctx_save, region_swap, ctx_resume) are outside the sources: they are parameters that
  map a partition and a state of the outside world to a status word and a new world, and
  nothing is assumed about them.
\<close>

section \<open>The major frame\<close>

abbreviation MAX_WINDOWS :: nat where
  "MAX_WINDOWS \<equiv> 4"

datatype sw_phase = Running_window | SaveCtx | ProgramRegions | Resume

record major_frame =
  mf_partition_id :: "u32 list"
  mf_offset :: "u32 list"
  mf_budget :: "u32 list"
  mf_frame_len :: u32

text \<open>The three tables are arrays of four elements by their type.\<close>

definition frame_arrays :: "major_frame \<Rightarrow> bool" where
  "frame_arrays f \<longleftrightarrow> length (mf_partition_id f) = MAX_WINDOWS \<and> length (mf_offset f) = MAX_WINDOWS \<and>
     length (mf_budget f) = MAX_WINDOWS"

definition win_end :: "major_frame \<Rightarrow> nat \<Rightarrow> nat" where
  "win_end f i = unat (mf_offset f ! i) + unat (mf_budget f ! i)"

definition frame_inv :: "major_frame \<Rightarrow> bool" where
  "frame_inv f \<longleftrightarrow>
     mf_offset f ! 0 = 0 \<and> 0 < mf_budget f ! 0 \<and> 0 < mf_budget f ! 1 \<and> 0 < mf_budget f ! 2 \<and> 0 < mf_budget f ! 3 \<and>
     win_end f 0 = unat (mf_offset f ! 1) \<and> win_end f 1 = unat (mf_offset f ! 2) \<and>
     win_end f 2 = unat (mf_offset f ! 3) \<and> win_end f 3 = unat (mf_frame_len f)"

definition in_window :: "major_frame \<Rightarrow> nat \<Rightarrow> nat \<Rightarrow> bool" where
  "in_window f i t \<longleftrightarrow> i < MAX_WINDOWS \<and> unat (mf_offset f ! i) \<le> t \<and> t < win_end f i"

text \<open>The conjunctions of the code are evaluated from the left; the sums are 64 bits wide.\<close>

definition ends_at :: "major_frame \<Rightarrow> nat \<Rightarrow> u32 \<Rightarrow> bool run" where
  "ends_at f i e = do {
     off \<leftarrow> arr_get (mf_offset f) i;
     bud \<leftarrow> arr_get (mf_budget f) i;
     s \<leftarrow> add_chk (ucast off :: u64) (ucast bud);
     Ret (s = ucast e)
   }"

definition and_then :: "bool run \<Rightarrow> bool run \<Rightarrow> bool run" where
  "and_then a b = do { x \<leftarrow> a; if x then b else Ret False }"

definition frame_check :: "major_frame \<Rightarrow> bool run" where
  "frame_check f = do {
     o0 \<leftarrow> arr_get (mf_offset f) 0;
     o1 \<leftarrow> arr_get (mf_offset f) 1;
     o2 \<leftarrow> arr_get (mf_offset f) 2;
     o3 \<leftarrow> arr_get (mf_offset f) 3;
     b0 \<leftarrow> arr_get (mf_budget f) 0;
     b1 \<leftarrow> arr_get (mf_budget f) 1;
     b2 \<leftarrow> arr_get (mf_budget f) 2;
     b3 \<leftarrow> arr_get (mf_budget f) 3;
     and_then (Ret (o0 = 0)) (and_then (Ret (0 < b0)) (and_then (Ret (0 < b1)) (and_then (Ret (0 < b2))
       (and_then (Ret (0 < b3)) (and_then (ends_at f 0 o1) (and_then (ends_at f 1 o2) (and_then (ends_at f 2 o3)
         (ends_at f 3 (mf_frame_len f)))))))))
   }"

definition current_window :: "u32 \<Rightarrow> major_frame \<Rightarrow> u32 run" where
  "current_window t f = do {
     o1 \<leftarrow> arr_get (mf_offset f) 1;
     o2 \<leftarrow> arr_get (mf_offset f) 2;
     o3 \<leftarrow> arr_get (mf_offset f) 3;
     Ret (if t < o1 then 0 else if t < o2 then 1 else if t < o3 then 2 else 3)
   }"

section \<open>The switch state machine\<close>

record switcher =
  sw_frame :: major_frame
  sw_cur :: u32
  sw_phase :: sw_phase
  sw_swapped :: bool

definition switcher_inv :: "switcher \<Rightarrow> bool" where
  "switcher_inv s \<longleftrightarrow> frame_inv (sw_frame s) \<and> unat (sw_cur s) < MAX_WINDOWS \<and>
     (sw_phase s = Resume \<longrightarrow> sw_swapped s) \<and> (sw_phase s = SaveCtx \<longrightarrow> \<not> sw_swapped s) \<and>
     (sw_phase s = ProgramRegions \<longrightarrow> \<not> sw_swapped s)"

definition boundary :: "switcher \<Rightarrow> nat \<Rightarrow> bool" where
  "boundary s t \<longleftrightarrow> t + 1 = win_end (sw_frame s) (unat (sw_cur s))"

definition switcher_new :: "major_frame \<Rightarrow> switcher" where
  "switcher_new f = \<lparr>sw_frame = f, sw_cur = 0, sw_phase = Running_window, sw_swapped = False\<rparr>"

definition sw_tick :: "u32 \<Rightarrow> switcher \<Rightarrow> (bool \<times> switcher) run" where
  "sw_tick t s =
     (if sw_phase s = Running_window then do {
        off \<leftarrow> arr_get (mf_offset (sw_frame s)) (unat (sw_cur s));
        bud \<leftarrow> arr_get (mf_budget (sw_frame s)) (unat (sw_cur s));
        e \<leftarrow> add_chk off bud;
        e1 \<leftarrow> sub_chk e 1;
        if t = e1 then Ret (True, s\<lparr>sw_phase := SaveCtx, sw_swapped := False\<rparr>)
        else Ret (False, s)
      }
      else Ret (False, s))"

definition mark_saved :: "switcher \<Rightarrow> bool \<times> switcher" where
  "mark_saved s =
     (if sw_phase s = SaveCtx then (True, s\<lparr>sw_phase := ProgramRegions\<rparr>) else (False, s))"

definition mark_swapped :: "switcher \<Rightarrow> bool \<times> switcher" where
  "mark_swapped s =
     (if sw_phase s = ProgramRegions then (True, s\<lparr>sw_phase := Resume, sw_swapped := True\<rparr>) else (False, s))"

definition next_window :: "u32 \<Rightarrow> u32 run" where
  "next_window c = do { c' \<leftarrow> add_chk c 1; Ret (if c' = of_nat MAX_WINDOWS then 0 else c') }"

definition mark_resumed :: "switcher \<Rightarrow> (bool \<times> switcher) run" where
  "mark_resumed s =
     (if sw_phase s = Resume
      then do { c \<leftarrow> next_window (sw_cur s); Ret (True, s\<lparr>sw_phase := Running_window, sw_cur := c\<rparr>) }
      else Ret (False, s))"

type_synonym 'w seam = "u32 \<Rightarrow> 'w \<Rightarrow> u32 \<times> 'w"

definition run_switch :: "'w seam \<Rightarrow> 'w seam \<Rightarrow> 'w seam \<Rightarrow> switcher \<Rightarrow> 'w \<Rightarrow> (switcher \<times> 'w) run" where
  "run_switch ctx_save region_swap ctx_resume s w = do {
     outgoing \<leftarrow> arr_get (mf_partition_id (sw_frame s)) (unat (sw_cur s));
     nxt \<leftarrow> next_window (sw_cur s);
     incoming \<leftarrow> arr_get (mf_partition_id (sw_frame s)) (unat nxt);
     let (r1, w) = ctx_save outgoing w;
     let (ok1, s) = mark_saved s;
     let (r2, w) = region_swap incoming w;
     let (ok2, s) = mark_swapped s;
     let (r3, w) = ctx_resume incoming w;
     (ok3, s) \<leftarrow> mark_resumed s;
     Ret (s, w)
   }"

section \<open>Windows cover the frame\<close>

lemma frame_numbers:
  assumes "frame_inv f"
  shows "unat (mf_offset f ! 0) = 0"
    and "0 < unat (mf_budget f ! 0)" "0 < unat (mf_budget f ! 1)" "0 < unat (mf_budget f ! 2)" "0 < unat (mf_budget f ! 3)"
    and "unat (mf_offset f ! 1) = unat (mf_budget f ! 0)"
    and "unat (mf_offset f ! 2) = unat (mf_offset f ! 1) + unat (mf_budget f ! 1)"
    and "unat (mf_offset f ! 3) = unat (mf_offset f ! 2) + unat (mf_budget f ! 2)"
    and "unat (mf_frame_len f) = unat (mf_offset f ! 3) + unat (mf_budget f ! 3)"
  using assms by (auto simp: frame_inv_def win_end_def word_less_nat_alt)

text \<open>The window of a tick, in natural numbers.\<close>

definition win_of :: "major_frame \<Rightarrow> nat \<Rightarrow> nat" where
  "win_of f t = (if t < unat (mf_offset f ! 1) then 0 else if t < unat (mf_offset f ! 2) then 1
                 else if t < unat (mf_offset f ! 3) then 2 else 3)"

lemma less_4_cases: "i < 4 \<longleftrightarrow> i = 0 \<or> i = 1 \<or> i = 2 \<or> i = 3" for i :: nat
  by auto

lemma current_window_eq:
  assumes "frame_arrays f"
  shows "current_window t f = Some (of_nat (win_of f (unat t)))"
  using assms by (simp add: current_window_def frame_arrays_def arr_get_def win_of_def word_less_nat_alt)

lemma in_window_iff:
  assumes "frame_inv f" and "t < unat (mf_frame_len f)"
  shows "in_window f i t \<longleftrightarrow> i = win_of f t"
proof -
  have "win_of f t < 4" by (simp add: win_of_def)
  moreover have "in_window f i t \<longleftrightarrow> i = win_of f t" if "i < 4"
    using that assms(2) frame_numbers [OF assms(1)]
    by (auto simp: less_4_cases in_window_def win_end_def win_of_def)
  ultimately show ?thesis by (auto simp: in_window_def)
qed

lemma ends_at_eq:
  assumes "frame_arrays f" and "i < 4"
  shows "ends_at f i e = Some (win_end f i = unat e)"
proof -
  let ?a = "mf_offset f ! i" and ?b = "mf_budget f ! i"
  have lt: "unat ?a < 4294967296" "unat ?b < 4294967296" by (rule unat_u32_less)+
  then have add: "add_chk (ucast ?a :: u64) (ucast ?b) = Some (ucast ?a + ucast ?b)"
    by (intro add_chk_Some) simp
  then have "unat (ucast ?a + ucast ?b :: u64) = unat ?a + unat ?b"
    by (auto dest: add_chk_unat)
  then have "ucast ?a + ucast ?b = (ucast e :: u64) \<longleftrightarrow> win_end f i = unat e"
    by (simp add: word_unat_eq_iff win_end_def)
  then show ?thesis
    using assms add by (simp add: ends_at_def frame_arrays_def arr_get_def)
qed

lemma frame_check_eq: "frame_arrays f \<Longrightarrow> frame_check f = Some (frame_inv f)"
  by (simp add: frame_check_def and_then_def ends_at_eq frame_inv_def)
     (simp add: frame_arrays_def arr_get_def)

section \<open>Steps of the state machine\<close>

lemma win_end_bounds:
  assumes "frame_inv f" and "i < 4"
  shows "0 < win_end f i" and "win_end f i \<le> unat (mf_frame_len f)"
  using assms(2) frame_numbers [OF assms(1)] by (auto simp: less_4_cases win_end_def)

lemma sw_tick_eq:
  assumes "frame_arrays (sw_frame s)" and "switcher_inv s"
  shows "sw_tick t s = Some (if sw_phase s = Running_window \<and> boundary s (unat t)
                             then (True, s\<lparr>sw_phase := SaveCtx, sw_swapped := False\<rparr>) else (False, s))"
proof -
  let ?f = "sw_frame s" and ?c = "unat (sw_cur s)"
  let ?o = "mf_offset ?f ! ?c" and ?b = "mf_budget ?f ! ?c"
  have c: "?c < 4" and f: "frame_inv ?f" using assms(2) by (simp_all add: switcher_inv_def)
  have len: "?c < length (mf_offset ?f)" "?c < length (mf_budget ?f)"
    using c assms(1) by (simp_all add: frame_arrays_def)
  have "unat ?o + unat ?b < 4294967296"
    using win_end_bounds(2) [OF f c] unat_u32_less [of "mf_frame_len ?f"] by (simp add: win_end_def)
  then have add: "add_chk ?o ?b = Some (?o + ?b)" by (intro add_chk_Some) simp
  then have e: "unat (?o + ?b) = win_end ?f ?c" by (auto simp: win_end_def dest: add_chk_unat)
  then have nz: "?o + ?b \<noteq> 0" using win_end_bounds(1) [OF f c] by auto
  have "t = ?o + ?b - 1 \<longleftrightarrow> boundary s (unat t)"
    using unat_minus_one [OF nz] e win_end_bounds(1) [OF f c] by (auto simp: word_unat_eq_iff boundary_def)
  then show ?thesis
    using len add nz by (simp add: sw_tick_def arr_get_def sub_chk_one)
qed

lemma next_window_eq:
  assumes "unat c < 4"
  shows "next_window c = Some (of_nat (Suc (unat c) mod 4))"
proof -
  have "unat c + unat (1 :: u32) < 2 ^ 32" using assms by simp
  then have add: "add_chk c 1 = Some (c + 1)" by (intro add_chk_Some) simp
  then have u: "unat (c + 1) = Suc (unat c)" by (auto dest: add_chk_unat)
  have "c + 1 = of_nat (Suc (unat c))" unfolding u [symmetric] by simp
  then show ?thesis
    using add assms u by (auto simp: next_window_def word_unat_eq_iff)
qed

lemma next_window_less: "unat (of_nat (Suc n mod 4) :: u32) = Suc n mod 4"
  by (simp add: unat_of_nat)

text \<open>One full switch: the three seams are crossed in this order, and the window advances.\<close>

definition switch_effect :: "'w seam \<Rightarrow> 'w seam \<Rightarrow> 'w seam \<Rightarrow> major_frame \<Rightarrow> nat \<Rightarrow> 'w \<Rightarrow> 'w" where
  "switch_effect ctx_save region_swap ctx_resume f k w =
     (let out = mf_partition_id f ! (k mod 4); inc = mf_partition_id f ! (Suc k mod 4)
      in snd (ctx_resume inc (snd (region_swap inc (snd (ctx_save out w))))))"

lemma run_switch_eq:
  assumes "frame_arrays (sw_frame s)" and "unat (sw_cur s) < 4" and "sw_phase s = SaveCtx"
  shows "run_switch ctx_save region_swap ctx_resume s w =
           Some (s\<lparr>sw_phase := Running_window, sw_swapped := True, sw_cur := of_nat (Suc (unat (sw_cur s)) mod 4)\<rparr>,
                 switch_effect ctx_save region_swap ctx_resume (sw_frame s) (unat (sw_cur s)) w)"
  using assms
  by (simp add: run_switch_def next_window_eq next_window_less arr_get_def frame_arrays_def mark_saved_def
      mark_swapped_def mark_resumed_def switch_effect_def split_def Let_def)

section \<open>Running the frame\<close>

text \<open>One timer tick with the switch it may cause, and n ticks from the start of the frame.\<close>

definition tick_and_switch :: "'w seam \<Rightarrow> 'w seam \<Rightarrow> 'w seam \<Rightarrow> u32 \<Rightarrow> switcher \<times> 'w \<Rightarrow> (switcher \<times> 'w) run" where
  "tick_and_switch ctx_save region_swap ctx_resume t sw = do {
     (switched, s) \<leftarrow> sw_tick t (fst sw);
     if switched then run_switch ctx_save region_swap ctx_resume s (snd sw) else Ret (s, snd sw)
   }"

primrec frame_run :: "'w seam \<Rightarrow> 'w seam \<Rightarrow> 'w seam \<Rightarrow> major_frame \<Rightarrow> nat \<Rightarrow> 'w \<Rightarrow> (switcher \<times> 'w) run" where
  "frame_run ctx_save region_swap ctx_resume f 0 w = Ret (switcher_new f, w)"
| "frame_run ctx_save region_swap ctx_resume f (Suc n) w = do {
     sw \<leftarrow> frame_run ctx_save region_swap ctx_resume f n w;
     tick_and_switch ctx_save region_swap ctx_resume (of_nat (n mod unat (mf_frame_len f))) sw
   }"

text \<open>The number of windows that ended within the first n ticks.\<close>

definition switches :: "major_frame \<Rightarrow> nat \<Rightarrow> nat" where
  "switches f n = 4 * (n div unat (mf_frame_len f)) + win_of f (n mod unat (mf_frame_len f))"

lemma win_of_less: "win_of f t < 4"
  by (simp add: win_of_def)

lemma switches_mod: "switches f n mod 4 = win_of f (n mod unat (mf_frame_len f))"
  using win_of_less [of f "n mod unat (mf_frame_len f)"] by (simp add: switches_def)

lemma switches_Suc:
  assumes "frame_inv f"
  shows "switches f (Suc n) =
           (if Suc (n mod unat (mf_frame_len f)) = win_end f (win_of f (n mod unat (mf_frame_len f)))
            then Suc (switches f n) else switches f n)"
proof -
  let ?L = "unat (mf_frame_len f)" and ?t = "n mod unat (mf_frame_len f)"
  note N = frame_numbers [OF assms]
  have L: "0 < ?L" using N by simp
  then have t: "?t < ?L" by simp
  show ?thesis
  proof (cases "Suc ?t = ?L")
    case True
    then have "Suc n mod ?L = 0" "Suc n div ?L = Suc (n div ?L)"
      by (simp_all add: mod_Suc div_Suc)
    moreover have "win_of f ?t = 3" "win_of f 0 = 0" using True N by (auto simp: win_of_def)
    ultimately show ?thesis using True N by (simp add: switches_def win_end_def)
  next
    case False
    then have "Suc n mod ?L = Suc ?t" "Suc n div ?L = n div ?L"
      using t by (simp_all add: mod_Suc div_Suc)
    moreover have "win_of f (Suc ?t) = (if Suc ?t = win_end f (win_of f ?t) then Suc (win_of f ?t) else win_of f ?t)"
      using False t N by (auto simp: win_of_def win_end_def)
    ultimately show ?thesis by (auto simp: switches_def)
  qed
qed

lemma frame_run_eq:
  assumes "frame_arrays f" and "frame_inv f"
  shows "\<exists>b. frame_run ctx_save region_swap ctx_resume f n w =
           Some (\<lparr>sw_frame = f, sw_cur = of_nat (win_of f (n mod unat (mf_frame_len f))),
                  sw_phase = Running_window, sw_swapped = b\<rparr>,
                 fold (switch_effect ctx_save region_swap ctx_resume f) [0..<switches f n] w)"
proof (induction n)
  case 0
  have "win_of f 0 = 0" using frame_numbers [OF assms(2)] by (simp add: win_of_def)
  then show ?case by (auto simp: switcher_new_def switches_def)
next
  case (Suc n)
  let ?L = "unat (mf_frame_len f)" and ?eff = "switch_effect ctx_save region_swap ctx_resume f"
  let ?t = "n mod ?L" and ?W = "fold ?eff [0..<switches f n] w"
  define c where "c = win_of f ?t"
  obtain b where IH: "frame_run ctx_save region_swap ctx_resume f n w =
      Some (\<lparr>sw_frame = f, sw_cur = of_nat c, sw_phase = Running_window, sw_swapped = b\<rparr>, ?W)"
    using Suc.IH unfolding c_def by blast
  have "?t < ?L" using frame_numbers [OF assms(2)] by simp
  then have t: "unat (of_nat ?t :: u32) = ?t"
    using unat_u32_less [of "mf_frame_len f"] by (simp add: unat_of_nat)
  have c: "unat (of_nat c :: u32) = c" "c < 4" using win_of_less [of f ?t] by (simp_all add: c_def unat_of_nat)
  let ?s = "\<lparr>sw_frame = f, sw_cur = of_nat c, sw_phase = Running_window, sw_swapped = b\<rparr>"
  have tick: "sw_tick (of_nat ?t) ?s =
      Some (if Suc ?t = win_end f c then (True, ?s\<lparr>sw_phase := SaveCtx, sw_swapped := False\<rparr>) else (False, ?s))"
    using sw_tick_eq [of ?s "of_nat ?t"] assms t c by (simp add: switcher_inv_def boundary_def)
  have sc: "switches f n mod 4 = c" "Suc (switches f n) mod 4 = Suc c mod 4"
    using switches_mod [of f n] mod_Suc_eq [of "switches f n" 4] by (simp_all add: c_def)
  have eff: "switch_effect ctx_save region_swap ctx_resume f c = ?eff (switches f n)"
    using sc c(2) by (intro ext) (simp add: switch_effect_def)
  have cur: "win_of f (Suc n mod ?L) = (if Suc ?t = win_end f c then Suc c mod 4 else c)"
    using switches_mod [of f "Suc n"] sc switches_Suc [OF assms(2), of n] by (auto simp: c_def [symmetric])
  have sw: "switches f (Suc n) = (if Suc ?t = win_end f c then Suc (switches f n) else switches f n)"
    unfolding c_def by (rule switches_Suc [OF assms(2)])
  show ?case
  proof (cases "Suc ?t = win_end f c")
    case True
    let ?s1 = "?s\<lparr>sw_phase := SaveCtx, sw_swapped := False\<rparr>"
    have "run_switch ctx_save region_swap ctx_resume ?s1 ?W =
        Some (\<lparr>sw_frame = f, sw_cur = of_nat (Suc c mod 4), sw_phase = Running_window, sw_swapped = True\<rparr>,
          ?eff (switches f n) ?W)"
      using run_switch_eq [of ?s1 ctx_save region_swap ctx_resume ?W] assms(1) c by (simp add: eff)
    then have "frame_run ctx_save region_swap ctx_resume f (Suc n) w =
        Some (\<lparr>sw_frame = f, sw_cur = of_nat (Suc c mod 4), sw_phase = Running_window, sw_swapped = True\<rparr>,
          ?eff (switches f n) ?W)"
      using IH tick True by (simp add: tick_and_switch_def)
    moreover have "fold ?eff [0..<switches f (Suc n)] w = ?eff (switches f n) ?W"
      unfolding sw if_P [OF True] by simp
    ultimately show ?thesis unfolding cur if_P [OF True] by auto
  next
    case False
    then have "frame_run ctx_save region_swap ctx_resume f (Suc n) w = Some (?s, ?W)"
      using IH tick by (simp add: tick_and_switch_def)
    then show ?thesis unfolding cur sw if_not_P [OF False] by blast
  qed
qed

section \<open>Any interleaving of the operations\<close>

datatype sw_op = Op_tick u32 | Op_saved | Op_swapped | Op_resumed

fun sw_apply :: "sw_op \<Rightarrow> switcher \<Rightarrow> (bool \<times> switcher) run" where
  "sw_apply (Op_tick t) s = sw_tick t s"
| "sw_apply Op_saved s = Ret (mark_saved s)"
| "sw_apply Op_swapped s = Ret (mark_swapped s)"
| "sw_apply Op_resumed s = mark_resumed s"

definition sw_step :: "switcher \<Rightarrow> sw_op \<times> bool \<Rightarrow> switcher \<Rightarrow> bool" where
  "sw_step s e s' \<longleftrightarrow> sw_apply (fst e) s = Some (snd e, s')"

fun op_kind :: "sw_op \<Rightarrow> nat" where
  "op_kind (Op_tick t) = 0"
| "op_kind Op_saved = 1"
| "op_kind Op_swapped = 2"
| "op_kind Op_resumed = 3"

definition effective :: "(sw_op \<times> bool) list \<Rightarrow> nat list" where
  "effective es = map (op_kind \<circ> fst) (filter snd es)"

fun phase_no :: "sw_phase \<Rightarrow> nat" where
  "phase_no Running_window = 0"
| "phase_no SaveCtx = 1"
| "phase_no ProgramRegions = 2"
| "phase_no Resume = 3"

text \<open>An operation that takes effect is the one its phase waits for, and it enters the next phase.\<close>

definition advances :: "switcher \<Rightarrow> nat \<Rightarrow> switcher \<Rightarrow> bool" where
  "advances s k s' \<longleftrightarrow> phase_no (sw_phase s) = k \<and> phase_no (sw_phase s') = Suc k mod 4 \<and> sw_frame s' = sw_frame s \<and>
     unat (sw_cur s') = (if k = 3 then Suc (unat (sw_cur s)) mod 4 else unat (sw_cur s)) \<and> switcher_inv s'"

lemma sw_apply_advances:
  assumes "frame_arrays (sw_frame s)" and "switcher_inv s" and "sw_apply p s = Some (b, s')"
  shows "if b then advances s (op_kind p) s' else s' = s"
proof (cases p)
  case (Op_tick t)
  then show ?thesis
    using assms by (auto simp: sw_tick_eq advances_def switcher_inv_def split: if_splits)
next
  case Op_saved
  then show ?thesis
    using assms by (auto simp: mark_saved_def advances_def switcher_inv_def split: if_splits)
next
  case Op_swapped
  then show ?thesis
    using assms by (auto simp: mark_swapped_def advances_def switcher_inv_def split: if_splits)
next
  case Op_resumed
  have "unat (sw_cur s) < 4" using assms(2) by (simp add: switcher_inv_def)
  note [simp] = next_window_eq [OF this] next_window_less
  show ?thesis
  proof (cases "sw_phase s = Resume")
    case True
    then have "b" "s' = s\<lparr>sw_phase := Running_window, sw_cur := of_nat (Suc (unat (sw_cur s)) mod 4)\<rparr>"
      using assms(3) Op_resumed by (simp_all add: mark_resumed_def)
    moreover have "Suc (unat (sw_cur s)) mod 4 < 4" by simp
    ultimately show ?thesis
      using True assms(2) Op_resumed by (simp only: advances_def switcher_inv_def) simp
  next
    case False
    then show ?thesis using assms(3) Op_resumed by (simp add: mark_resumed_def)
  qed
qed

text \<open>The state after k operations that took effect.\<close>

definition at_position :: "major_frame \<Rightarrow> nat \<Rightarrow> switcher \<Rightarrow> bool" where
  "at_position f k s \<longleftrightarrow> sw_frame s = f \<and> unat (sw_cur s) = k div 4 mod 4 \<and>
     phase_no (sw_phase s) = k mod 4 \<and> switcher_inv s"

lemma advances_position:
  assumes "at_position f k s" and "advances s j s'"
  shows "j = k mod 4 \<and> at_position f (Suc k) s'"
proof -
  have j: "j = k mod 4" using assms by (simp add: at_position_def advances_def)
  have "Suc (k mod 4) mod 4 = Suc k mod 4" by (rule mod_Suc_eq)
  moreover have "unat (sw_cur s) = k div 4 mod 4" using assms(1) by (simp add: at_position_def)
  then have "unat (sw_cur s') = (if k mod 4 = 3 then Suc (k div 4 mod 4) mod 4 else k div 4 mod 4)"
    using assms(2) unfolding advances_def j by simp
  moreover have "(if k mod 4 = 3 then Suc (k div 4 mod 4) mod 4 else k div 4 mod 4) = Suc k div 4 mod 4"
  proof (cases "k mod 4 = 3")
    case True
    then have "Suc k mod 4 = 0" by (simp add: mod_Suc)
    then show ?thesis using True by (simp add: div_Suc mod_Suc_eq)
  next
    case False
    then have "Suc k mod 4 \<noteq> 0" by (simp add: mod_Suc)
    then show ?thesis using False by (simp add: div_Suc)
  qed
  ultimately show ?thesis
    using assms j by (simp only: at_position_def advances_def simp_thms)
qed

lemma effective_snoc:
  "effective (es @ [e]) = (if snd e then effective es @ [op_kind (fst e)] else effective es)"
  by (simp add: effective_def)

section \<open>Properties\<close>

text \<open>
  C5: Temporal isolation. If the validator accepts a frame table, the timer drives the
  partitions exactly along the table for ever: before tick n, whatever the hardware seams
  do, the switcher runs the one window that contains n modulo the frame length, and the
  seam calls so far are, window end by window end and nothing else, save the outgoing
  partition, program the regions of the next one, resume it. No tick panics.
\<close>

theorem frame_timeline:
  assumes "frame_arrays f" and "frame_check f = Some True"
  shows "\<exists>s. frame_run ctx_save region_swap ctx_resume f n w =
               Some (s, fold (switch_effect ctx_save region_swap ctx_resume f) [0..<switches f n] w) \<and>
           sw_phase s = Running_window \<and>
           current_window (of_nat (n mod unat (mf_frame_len f))) f = Some (sw_cur s) \<and>
           (\<forall>i. in_window f i (n mod unat (mf_frame_len f)) \<longleftrightarrow> i = unat (sw_cur s)) \<and>
           switches f n = 4 * (n div unat (mf_frame_len f)) + unat (sw_cur s)"
proof -
  let ?L = "unat (mf_frame_len f)" and ?t = "n mod unat (mf_frame_len f)"
  have inv: "frame_inv f" using assms by (simp add: frame_check_eq)
  have t: "?t < ?L" using frame_numbers [OF inv] by simp
  then have u: "unat (of_nat ?t :: u32) = ?t"
    using unat_u32_less [of "mf_frame_len f"] by (simp add: unat_of_nat)
  have c: "unat (of_nat (win_of f ?t) :: u32) = win_of f ?t"
    using win_of_less [of f ?t] by (simp add: unat_of_nat)
  obtain b where "frame_run ctx_save region_swap ctx_resume f n w =
      Some (\<lparr>sw_frame = f, sw_cur = of_nat (win_of f ?t), sw_phase = Running_window, sw_swapped = b\<rparr>,
            fold (switch_effect ctx_save region_swap ctx_resume f) [0..<switches f n] w)"
    using frame_run_eq [OF assms(1) inv, of ctx_save region_swap ctx_resume n w] by (rule exE)
  moreover have "current_window (of_nat ?t) f = Some (of_nat (win_of f ?t))"
    unfolding current_window_eq [OF assms(1)] u by (rule refl)
  moreover have "in_window f i ?t \<longleftrightarrow> i = unat (of_nat (win_of f ?t) :: u32)" for i
    unfolding c by (rule in_window_iff [OF inv t])
  moreover have "switches f n = 4 * (n div ?L) + unat (of_nat (win_of f ?t) :: u32)"
    unfolding c switches_def by (rule refl)
  ultimately show ?thesis by (intro exI conjI allI) (assumption | simp only: switcher.simps)+
qed

theorem frame_timeline_witness:
  "\<exists>s w'. frame_run (\<lambda>p w. (0, w @ [(0 :: nat, p)])) (\<lambda>p w. (0, w @ [(1, p)])) (\<lambda>p w. (0, w @ [(2, p)]))
     \<lparr>mf_partition_id = [7, 8, 9, 7], mf_offset = [0, 2, 3, 5], mf_budget = [2, 1, 2, 1], mf_frame_len = 6\<rparr> 2 [] =
     Some (s, w') \<and> w' = [(0, 7), (1, 8), (2, 8)] \<and> sw_phase s = Running_window"
proof -
  let ?f = "\<lparr>mf_partition_id = [7, 8, 9, 7], mf_offset = [0, 2, 3, 5], mf_budget = [2, 1, 2, 1], mf_frame_len = 6\<rparr>"
  have a: "frame_arrays ?f" by (simp add: frame_arrays_def)
  have "frame_check ?f = Some True"
    using a by (simp add: frame_check_eq frame_inv_def win_end_def)
  from frame_timeline [OF a this, where n = 2 and w = "[]" and ctx_save = "\<lambda>p w. (0, w @ [(0 :: nat, p)])"
      and region_swap = "\<lambda>p w. (0, w @ [(1, p)])" and ctx_resume = "\<lambda>p w. (0, w @ [(2, p)])"]
  show ?thesis by (auto simp: switches_def win_of_def switch_effect_def)
qed

text \<open>
  C15: Preemption cannot be masked and the regions are always programmed before a resume.
  Over every interleaving of timer ticks and step notifications from the start, the
  operations that take effect are, cyclically, preemption, context saved, regions
  swapped, partition resumed; the phase and the window are determined by how many took
  effect, and a running partition is preempted by the tick at its window end whatever
  happened before.
\<close>

theorem switch_order:
  assumes "frame_arrays f" and "frame_inv f" and "trace sw_step (switcher_new f) es s"
  shows "effective es = map (\<lambda>i. i mod 4) [0..<length (effective es)] \<and>
         sw_frame s = f \<and> unat (sw_cur s) = length (effective es) div 4 mod 4 \<and>
         phase_no (sw_phase s) = length (effective es) mod 4 \<and> switcher_inv s \<and>
         (sw_phase s = Running_window \<and> boundary s (unat t) \<longrightarrow>
           (\<exists>s'. sw_tick t s = Some (True, s') \<and> sw_phase s' = SaveCtx \<and> \<not> sw_swapped s'))"
proof -
  let ?P = "\<lambda>es s. effective es = map (\<lambda>i. i mod 4) [0..<length (effective es)] \<and>
    at_position f (length (effective es)) s"
  have "?P es s" using assms(3)
  proof (induction rule: trace.induct)
    case trace_Nil
    show ?case using assms(2) by (simp add: effective_def at_position_def switcher_new_def switcher_inv_def)
  next
    case (trace_snoc es s e s')
    let ?k = "length (effective es)"
    have pos: "at_position f ?k s" and ord: "effective es = map (\<lambda>i. i mod 4) [0..<?k]"
      using trace_snoc.IH by simp_all
    have step: "if snd e then advances s (op_kind (fst e)) s' else s' = s"
      using sw_apply_advances [of s "fst e" "snd e" s'] trace_snoc.hyps(2) pos assms(1)
      by (simp add: at_position_def sw_step_def)
    show ?case
    proof (cases "snd e")
      case True
      then have "op_kind (fst e) = ?k mod 4" "at_position f (Suc ?k) s'"
        using advances_position [OF pos] step by simp_all
      moreover have "effective (es @ [e]) = effective es @ [?k mod 4]"
        using True calculation(1) by (simp add: effective_snoc)
      ultimately show ?thesis using ord by simp
    next
      case False
      then show ?thesis using step pos ord by (simp add: effective_snoc)
    qed
  qed
  moreover have "\<exists>s'. sw_tick t s = Some (True, s') \<and> sw_phase s' = SaveCtx \<and> \<not> sw_swapped s'"
    if "sw_phase s = Running_window" "boundary s (unat t)" "sw_frame s = f" "switcher_inv s"
    using that assms(1) by (simp add: sw_tick_eq)
  ultimately show ?thesis by (simp add: at_position_def)
qed

theorem switch_order_witness:
  "let f = \<lparr>mf_partition_id = [7, 8, 9, 7], mf_offset = [0, 2, 3, 5], mf_budget = [2, 1, 2, 1], mf_frame_len = 6\<rparr>;
       s = \<lparr>sw_frame = f, sw_cur = 0, sw_phase = SaveCtx, sw_swapped = False\<rparr>
   in trace sw_step (switcher_new f) [(Op_saved, False), (Op_tick 1, True)] s \<and> phase_no (sw_phase s) = 1 \<and> switcher_inv s"
proof -
  let ?f = "\<lparr>mf_partition_id = [7, 8, 9, 7], mf_offset = [0, 2, 3, 5], mf_budget = [2, 1, 2, 1], mf_frame_len = 6\<rparr>"
  let ?s = "\<lparr>sw_frame = ?f, sw_cur = 0, sw_phase = SaveCtx, sw_swapped = False\<rparr>"
  have inv: "frame_arrays ?f" "frame_inv ?f" by (simp_all add: frame_arrays_def frame_inv_def win_end_def)
  then have "switcher_inv (switcher_new ?f)" by (simp add: switcher_new_def switcher_inv_def)
  then have "sw_step (switcher_new ?f) (Op_saved, False) (switcher_new ?f)" "sw_step (switcher_new ?f) (Op_tick 1, True) ?s"
    using inv by (simp_all add: sw_step_def mark_saved_def switcher_new_def sw_tick_eq boundary_def win_end_def)
  then have tr: "trace sw_step (switcher_new ?f) [(Op_saved, False), (Op_tick 1, True)] ?s"
    by (rule trace_two [of sw_step])
  from switch_order [OF inv tr] have "phase_no (sw_phase ?s) = 1 \<and> switcher_inv ?s"
    by (simp add: effective_def)
  with tr show ?thesis by (simp only: Let_def simp_thms)
qed

end
