(* ===== verification/Mpu.thy ===== *)
theory Mpu
  imports Gale_Base
begin

text \<open>
  Validation of memory protection regions (src/mpu.rs): the power-of-two test, the
  validity of one region, the overlap of two and the validity of a set. The properties
  relate the bit-level tests of the code to sizes, divisibility and sets of addresses.
\<close>

section \<open>Regions\<close>

definition MIN_REGION_SIZE :: u32 where
  "MIN_REGION_SIZE = 32"

record mpu_region =
  mr_base :: u32
  mr_size :: u32
  mr_attr :: u32

definition is_pow2_spec :: "u32 \<Rightarrow> bool" where
  "is_pow2_spec n \<longleftrightarrow> n \<in> set (map (\<lambda>k. 2 ^ k) [0..<32])"

definition is_power_of_two :: "u32 \<Rightarrow> bool" where
  "is_power_of_two n \<longleftrightarrow> 0 < n \<and> n AND (n - 1) = 0"

definition validate_region :: "u32 \<Rightarrow> u32 \<Rightarrow> bool" where
  "validate_region base sz =
     (if sz = 0 then False
      else
        let power_of_two = (sz AND (sz - 1) = 0);
            min_size = (MIN_REGION_SIZE \<le> sz);
            aligned = (base AND (sz - 1) = 0);
            no_overflow = (checked_add base sz \<noteq> None)
        in power_of_two \<and> min_size \<and> aligned \<and> no_overflow)"

definition regions_overlap :: "mpu_region \<Rightarrow> mpu_region \<Rightarrow> bool run" where
  "regions_overlap r1 r2 = do {
     r1_end \<leftarrow> add_chk (mr_base r1) (mr_size r1);
     r2_end \<leftarrow> add_chk (mr_base r2) (mr_size r2);
     Ret (mr_base r1 < r2_end \<and> mr_base r2 < r1_end)
   }"

text \<open>The loops of validate_region_set: the regions one by one, then all ordered pairs.\<close>

function validate_each :: "nat \<Rightarrow> nat \<Rightarrow> mpu_region list \<Rightarrow> bool run" where
  "validate_each i n rs =
     (if i < n then do {
        r \<leftarrow> arr_get rs i;
        if \<not> validate_region (mr_base r) (mr_size r) then Ret False else validate_each (i + 1) n rs
      }
      else Ret True)"
  by pat_completeness auto
termination
  by (relation "measure (\<lambda>(i, n, rs). n - i)") auto

function check_against :: "nat \<Rightarrow> nat \<Rightarrow> nat \<Rightarrow> mpu_region list \<Rightarrow> bool run" where
  "check_against i j n rs =
     (if j < n then
        (if i \<noteq> j then do {
           ri \<leftarrow> arr_get rs i;
           rj \<leftarrow> arr_get rs j;
           if checked_add (mr_base ri) (mr_size ri) = None \<or> checked_add (mr_base rj) (mr_size rj) = None then Ret False
           else do {
             ov \<leftarrow> regions_overlap ri rj;
             if ov then Ret False else check_against i (j + 1) n rs
           }
         }
         else check_against i (j + 1) n rs)
      else Ret True)"
  by pat_completeness auto
termination
  by (relation "measure (\<lambda>(i, j, n, rs). n - j)") auto

function check_pairs :: "nat \<Rightarrow> nat \<Rightarrow> mpu_region list \<Rightarrow> bool run" where
  "check_pairs i n rs =
     (if i < n then do {
        ok \<leftarrow> check_against i 0 n rs;
        if ok then check_pairs (i + 1) n rs else Ret False
      }
      else Ret True)"
  by pat_completeness auto
termination
  by (relation "measure (\<lambda>(i, n, rs). n - i)") auto

declare validate_each.simps [simp del] check_against.simps [simp del] check_pairs.simps [simp del]

definition validate_region_set :: "mpu_region list \<Rightarrow> u32 \<Rightarrow> bool run" where
  "validate_region_set regions n = do {
     ok \<leftarrow> validate_each 0 (unat n) regions;
     if ok then check_pairs 0 (unat n) regions else Ret False
   }"

section \<open>The bit tests\<close>

lemma and_pred_zero: "0 < n \<Longrightarrow> n AND (n - 1) = 0 \<longleftrightarrow> (\<exists>k. n = 2 ^ k)" for n :: nat
proof (induction n rule: less_induct)
  case (less n)
  show ?case
  proof (cases "even n")
    case True
    then obtain m where m: "n = 2 * m" "0 < m" using less.prems by auto
    then obtain j where j: "m = Suc j" by (cases m) auto
    have "n AND (n - 1) = 2 * (m AND (m - 1))"
      unfolding m(1) j by (subst and_rec) simp
    then have "n AND (n - 1) = 0 \<longleftrightarrow> (\<exists>k. m = 2 ^ k)" using less.IH [of m] m by simp
    also have "\<dots> \<longleftrightarrow> (\<exists>k. n = 2 ^ k)"
    proof
      assume "\<exists>k. m = 2 ^ k"
      then show "\<exists>k. n = 2 ^ k" using m(1) by (metis power_Suc)
    next
      assume "\<exists>k. n = 2 ^ k"
      then obtain k where k: "n = 2 ^ k" by blast
      then have "k \<noteq> 0" using True by (cases k) auto
      then have "m = 2 ^ (k - 1)" using k m(1) by (cases k) auto
      then show "\<exists>k. m = 2 ^ k" by blast
    qed
    finally show ?thesis .
  next
    case False
    then obtain j where j: "n = 2 * j + 1" by (elim oddE)
    have "n AND (n - 1) = n - 1"
      unfolding j by (subst and_rec) simp
    moreover have "n - 1 = 0 \<longleftrightarrow> (\<exists>k. n = 2 ^ k)"
      using False less.prems by (auto intro: exI [of _ 0])
    ultimately show ?thesis by simp
  qed
qed

lemma power_two_bound: "(2 :: nat) ^ k < 2 ^ 32 \<longleftrightarrow> k < 32"
  by (rule power_strict_increasing_iff) simp

lemma pow2_word:
  fixes n :: u32
  assumes "n \<noteq> 0"
  shows "n AND (n - 1) = 0 \<longleftrightarrow> (\<exists>k<32. unat n = 2 ^ k)"
proof -
  have "n AND (n - 1) = 0 \<longleftrightarrow> unat n AND (unat n - 1) = 0"
    using unat_minus_one [OF assms] by (simp add: word_unat_eq_iff unsigned_and_eq)
  also have "\<dots> \<longleftrightarrow> (\<exists>k. unat n = 2 ^ k)"
    using assms by (intro and_pred_zero) (simp add: unat_gt_0)
  also have "\<dots> \<longleftrightarrow> (\<exists>k<32. unat n = 2 ^ k)"
    using unsigned_less [of n, where ?'a = nat] power_two_bound by auto
  finally show ?thesis .
qed

lemma aligned_word:
  fixes b z :: u32
  assumes "unat z = 2 ^ k" and "k < 32"
  shows "b AND (z - 1) = 0 \<longleftrightarrow> 2 ^ k dvd unat b"
proof -
  have "z \<noteq> 0" using assms(1) by auto
  then have "unat (b AND (z - 1)) = unat b AND mask k"
    using unat_minus_one [of z] assms(1) by (simp add: unsigned_and_eq mask_eq_exp_minus_1)
  also have "\<dots> = unat b mod 2 ^ k" by (simp add: take_bit_eq_mask [symmetric] take_bit_eq_mod)
  finally show ?thesis by (simp add: word_unat_eq_iff mod_eq_0_iff_dvd)
qed

lemma is_power_of_two_iff: "is_power_of_two n \<longleftrightarrow> (\<exists>k<32. unat n = 2 ^ k)"
proof (cases "n = 0")
  case False
  then show ?thesis using pow2_word [OF False] by (simp add: is_power_of_two_def word_gt_0)
qed (simp add: is_power_of_two_def)

lemma unat_two_power: "k < 32 \<Longrightarrow> unat ((2 :: u32) ^ k) = 2 ^ k"
  using unat_of_nat [of "2 ^ k", where ?'a = 32] power_two_bound [of k] by simp

lemma is_pow2_spec_iff: "is_pow2_spec n \<longleftrightarrow> (\<exists>k<32. unat n = 2 ^ k)"
  by (auto simp: is_pow2_spec_def unat_two_power word_unat_eq_iff image_iff)

lemma checked_add_u32: "checked_add a b \<noteq> None \<longleftrightarrow> unat a + unat b < 2 ^ 32" for a b :: u32
  by (simp add: checked_add_def)

lemma validate_region_iff:
  "validate_region base sz \<longleftrightarrow>
     (\<exists>k. 5 \<le> k \<and> k < 32 \<and> unat sz = 2 ^ k \<and> 2 ^ k dvd unat base \<and> unat base + unat sz < 2 ^ 32)"
proof (cases "sz = 0")
  case False
  have min: "32 \<le> unat sz \<longleftrightarrow> 5 \<le> k" if "unat sz = 2 ^ k" for k
    using power_increasing_iff [of "2 :: nat" 5 k] that by simp
  have "validate_region base sz \<longleftrightarrow> (\<exists>k<32. unat sz = 2 ^ k) \<and> 32 \<le> unat sz \<and> base AND (sz - 1) = 0 \<and> unat base + unat sz < 2 ^ 32"
    using False pow2_word [OF False] checked_add_u32 [of base sz]
    by (simp add: validate_region_def MIN_REGION_SIZE_def word_le_nat_alt)
  also have "\<dots> \<longleftrightarrow> (\<exists>k. 5 \<le> k \<and> k < 32 \<and> unat sz = 2 ^ k \<and> 2 ^ k dvd unat base \<and> unat base + unat sz < 2 ^ 32)"
    using min aligned_word by blast
  finally show ?thesis .
qed (simp add: validate_region_def)

section \<open>Sets of regions\<close>

definition region_addrs :: "mpu_region \<Rightarrow> nat set" where
  "region_addrs r = {unat (mr_base r)..<unat (mr_base r) + unat (mr_size r)}"

lemma regions_overlap_eq:
  assumes "validate_region (mr_base r1) (mr_size r1)" and "validate_region (mr_base r2) (mr_size r2)"
  shows "regions_overlap r1 r2 = Some (region_addrs r1 \<inter> region_addrs r2 \<noteq> {})"
proof -
  let ?e1 = "mr_base r1 + mr_size r1" and ?e2 = "mr_base r2 + mr_size r2"
  have a: "add_chk (mr_base r1) (mr_size r1) = Some ?e1" "add_chk (mr_base r2) (mr_size r2) = Some ?e2"
    and pos: "0 < unat (mr_size r1)" "0 < unat (mr_size r2)"
    using assms by (auto simp: validate_region_iff add_chk_def)
  have u: "unat ?e1 = unat (mr_base r1) + unat (mr_size r1)" "unat ?e2 = unat (mr_base r2) + unat (mr_size r2)"
    using a by (auto dest: add_chk_unat)
  have "{l..<h} \<inter> {l'..<h'} \<noteq> {} \<longleftrightarrow> max l l' < min h h'" for l h l' h' :: nat
    by (metis Int_atLeastLessThan atLeastLessThan_empty_iff max_def min_def)
  then show ?thesis
    using a u pos by (auto simp: regions_overlap_def region_addrs_def word_less_nat_alt)
qed

lemma validate_each_eq:
  assumes "n \<le> length rs"
  shows "validate_each i n rs = Some (\<forall>l. i \<le> l \<and> l < n \<longrightarrow> validate_region (mr_base (rs ! l)) (mr_size (rs ! l)))"
proof (induction "n - i" arbitrary: i)
  case 0
  then show ?case by (subst validate_each.simps) auto
next
  case (Suc m)
  have i: "i < n" and m: "m = n - (i + 1)" using Suc.hyps(2) by simp_all
  have split: "(\<forall>l. i \<le> l \<and> l < n \<longrightarrow> P l) \<longleftrightarrow> P i \<and> (\<forall>l. i + 1 \<le> l \<and> l < n \<longrightarrow> P l)" for P
    using i by (metis Suc_eq_plus1 Suc_le_eq le_less)
  show ?case
    unfolding split [of "\<lambda>l. validate_region (mr_base (rs ! l)) (mr_size (rs ! l))"]
    using i assms Suc.hyps(1) [OF m] by (subst validate_each.simps) (simp add: arr_get_def)
qed

lemma check_against_eq:
  assumes "n \<le> length rs" and "i < n" and "\<And>l. l < n \<Longrightarrow> validate_region (mr_base (rs ! l)) (mr_size (rs ! l))"
  shows "check_against i j n rs =
           Some (\<forall>l. j \<le> l \<and> l < n \<longrightarrow> l \<noteq> i \<longrightarrow> region_addrs (rs ! i) \<inter> region_addrs (rs ! l) = {})"
proof (induction "n - j" arbitrary: j)
  case 0
  then show ?case by (subst check_against.simps) auto
next
  case (Suc m)
  have j: "j < n" and m: "m = n - (j + 1)" using Suc.hyps(2) by simp_all
  have no: "checked_add (mr_base (rs ! l)) (mr_size (rs ! l)) \<noteq> None" if "l < n" for l
    using assms(3) [OF that] by (auto simp: validate_region_iff checked_add_def)
  have step: "check_against i j n rs =
      (if i \<noteq> j \<and> region_addrs (rs ! i) \<inter> region_addrs (rs ! j) \<noteq> {} then Some False else check_against i (j + 1) n rs)"
    using j assms(1,2) no [OF j] no [OF assms(2)] regions_overlap_eq [OF assms(3) [OF assms(2)] assms(3) [OF j]]
    by (subst check_against.simps) (auto simp: arr_get_def)
  show ?case
    unfolding step Suc.hyps(1) [OF m]
      all_from_Suc [OF j, of "\<lambda>l. l \<noteq> i \<longrightarrow> region_addrs (rs ! i) \<inter> region_addrs (rs ! l) = {}"]
    by auto
qed

lemma check_pairs_eq:
  assumes "n \<le> length rs" and "\<And>l. l < n \<Longrightarrow> validate_region (mr_base (rs ! l)) (mr_size (rs ! l))"
  shows "check_pairs i n rs =
           Some (\<forall>k. i \<le> k \<and> k < n \<longrightarrow> (\<forall>l. 0 \<le> l \<and> l < n \<longrightarrow> l \<noteq> k \<longrightarrow> region_addrs (rs ! k) \<inter> region_addrs (rs ! l) = {}))"
proof (induction "n - i" arbitrary: i)
  case 0
  then show ?case by (subst check_pairs.simps) auto
next
  case (Suc m)
  have i: "i < n" and m: "m = n - (i + 1)" using Suc.hyps(2) by simp_all
  show ?case
    unfolding all_from_Suc [OF i, of "\<lambda>k. \<forall>l. 0 \<le> l \<and> l < n \<longrightarrow> l \<noteq> k \<longrightarrow> region_addrs (rs ! k) \<inter> region_addrs (rs ! l) = {}"]
    using i Suc.hyps(1) [OF m] check_against_eq [OF assms(1) i assms(2), of 0]
    by (subst check_pairs.simps) simp
qed

section \<open>Properties\<close>

text \<open>
  C25: The validator accepts exactly the region sets the hardware can enforce. For every
  prefix of the slice the scan returns without a panic, and its answer is true exactly
  when every region has a size that is a power of two of at least 32 bytes, a base that
  is a multiple of the size and an end inside the address space, and the address ranges
  of two different regions never meet.
\<close>

theorem region_set_valid_iff:
  assumes "unat n \<le> length rs"
  shows "validate_region_set rs n =
           Some ((\<forall>i<unat n. \<exists>k. 5 \<le> k \<and> k < 32 \<and> unat (mr_size (rs ! i)) = 2 ^ k \<and> 2 ^ k dvd unat (mr_base (rs ! i)) \<and>
                     unat (mr_base (rs ! i)) + unat (mr_size (rs ! i)) < 2 ^ 32) \<and>
                 (\<forall>i<unat n. \<forall>j<unat n. i \<noteq> j \<longrightarrow> region_addrs (rs ! i) \<inter> region_addrs (rs ! j) = {}))"
proof -
  let ?v = "\<lambda>i. validate_region (mr_base (rs ! i)) (mr_size (rs ! i))"
  have each: "validate_each 0 (unat n) rs = Some (\<forall>i<unat n. ?v i)"
    using validate_each_eq [OF assms, of 0] by simp
  have "validate_region_set rs n =
      Some ((\<forall>i<unat n. ?v i) \<and> (\<forall>i<unat n. \<forall>j<unat n. i \<noteq> j \<longrightarrow> region_addrs (rs ! i) \<inter> region_addrs (rs ! j) = {}))"
  proof (cases "\<forall>i<unat n. ?v i")
    case True
    then have pairs: "check_pairs 0 (unat n) rs =
        Some (\<forall>i<unat n. \<forall>j<unat n. i \<noteq> j \<longrightarrow> region_addrs (rs ! i) \<inter> region_addrs (rs ! j) = {})"
      using check_pairs_eq [OF assms, of 0] by auto
    show ?thesis
      unfolding validate_region_set_def each using True pairs by simp
  next
    case False
    then show ?thesis unfolding validate_region_set_def each by auto
  qed
  then show ?thesis unfolding validate_region_iff .
qed

theorem region_set_valid_iff_witness:
  "validate_region_set [\<lparr>mr_base = 64, mr_size = 64, mr_attr = 0\<rparr>, \<lparr>mr_base = 96, mr_size = 32, mr_attr = 0\<rparr>] 2 = Some False"
proof -
  let ?rs = "[\<lparr>mr_base = 64, mr_size = 64, mr_attr = 0\<rparr>, \<lparr>mr_base = 96, mr_size = 32, mr_attr = 0\<rparr>] :: mpu_region list"
  have "(96 :: nat) \<in> region_addrs (?rs ! 0) \<inter> region_addrs (?rs ! 1)" by (simp add: region_addrs_def)
  then have ne: "region_addrs (?rs ! 0) \<inter> region_addrs (?rs ! 1) \<noteq> {}" by blast
  have ov: "\<not> (\<forall>i<unat (2 :: u32). \<forall>j<unat (2 :: u32). i \<noteq> j \<longrightarrow> region_addrs (?rs ! i) \<inter> region_addrs (?rs ! j) = {})"
  proof
    assume "\<forall>i<unat (2 :: u32). \<forall>j<unat (2 :: u32). i \<noteq> j \<longrightarrow> region_addrs (?rs ! i) \<inter> region_addrs (?rs ! j) = {}"
    from this [rule_format, of 0 1] ne show False by simp
  qed
  have "unat (2 :: u32) \<le> length ?rs" by simp
  from region_set_valid_iff [OF this] show ?thesis by (simp only: ov simp_thms)
qed

end
