(* ===== verification/Mpu_Switch.thy ===== *)
theory Mpu_Switch
  imports Mpu
begin

text \<open>
  The isolation core (src/mpu_switch.rs): the static table of memory protection regions
  of four partitions, its builder, and the computation of the register writes that switch
  the hardware to one partition. The register store itself (mpu_write) is outside this
  module; it is a parameter, a function on the state of the outside world.
\<close>

section \<open>Register writes\<close>

abbreviation MAX_PARTITIONS :: nat where
  "MAX_PARTITIONS \<equiv> 4"

abbreviation MAX_REGIONS :: nat where
  "MAX_REGIONS \<equiv> 8"

abbreviation TABLE_SLOTS :: nat where
  "TABLE_SLOTS \<equiv> 32"

abbreviation SEQ_LEN :: nat where
  "SEQ_LEN \<equiv> 10"

definition MPU_CTRL_ID :: u32 where
  "MPU_CTRL_ID = 0xFFFFFFFF"

definition MPU_CTRL_ENABLE :: u32 where
  "MPU_CTRL_ENABLE = 1"

definition MPU_CTRL_DISABLE :: u32 where
  "MPU_CTRL_DISABLE = 0"

record mpu_write_triple =
  mw_rnr :: u32
  mw_rbar :: u32
  mw_rasr :: u32

record program_seq =
  ps_w :: "mpu_write_triple list"

record region_table =
  rt_base :: "u32 list"
  rt_size :: "u32 list"
  rt_enabled :: "bool list"
  rt_writable :: "bool list"
  rt_unpriv :: "u32 list"

text \<open>The five tables are arrays of 32 elements by their type.\<close>

definition table_arrays :: "region_table \<Rightarrow> bool" where
  "table_arrays t \<longleftrightarrow> length (rt_base t) = TABLE_SLOTS \<and> length (rt_size t) = TABLE_SLOTS \<and>
     length (rt_enabled t) = TABLE_SLOTS \<and> length (rt_writable t) = TABLE_SLOTS \<and> length (rt_unpriv t) = TABLE_SLOTS"

definition slot_of :: "u32 \<Rightarrow> nat \<Rightarrow> nat" where
  "slot_of part r = unat part * MAX_REGIONS + r"

definition region_wf :: "u32 \<Rightarrow> u32 \<Rightarrow> bool" where
  "region_wf base sz \<longleftrightarrow> is_pow2_spec sz \<and> MIN_REGION_SIZE \<le> sz \<and> unat base mod unat sz = 0 \<and>
     unat base + unat sz \<le> unat u32_max"

definition regions_disjoint :: "u32 \<Rightarrow> u32 \<Rightarrow> u32 \<Rightarrow> u32 \<Rightarrow> bool" where
  "regions_disjoint b1 s1 b2 s2 \<longleftrightarrow> unat b1 + unat s1 \<le> unat b2 \<or> unat b2 + unat s2 \<le> unat b1"

definition same_partition :: "nat \<Rightarrow> nat \<Rightarrow> bool" where
  "same_partition i j \<longleftrightarrow> i div MAX_REGIONS = j div MAX_REGIONS"

definition UNPRIV_SAME :: u32 where
  "UNPRIV_SAME = 0"

definition UNPRIV_RO :: u32 where
  "UNPRIV_RO = 1"

definition UNPRIV_NONE :: u32 where
  "UNPRIV_NONE = 2"

definition UNPRIV_MAX :: u32 where
  "UNPRIV_MAX = 3"

definition perm_wf :: "bool \<Rightarrow> u32 \<Rightarrow> bool" where
  "perm_wf writable unpriv \<longleftrightarrow> unpriv < UNPRIV_MAX \<and> (unpriv = UNPRIV_RO \<longrightarrow> writable)"

definition ap_field :: "bool \<Rightarrow> u32 \<Rightarrow> u32" where
  "ap_field writable unpriv =
     (if unpriv = UNPRIV_NONE then (if writable then 1 else 5)
      else if unpriv = UNPRIV_RO then 2
      else (if writable then 3 else 6))"

definition size_field :: "u32 \<Rightarrow> u32" where
  "size_field sz =
     (if sz = 32 then 4
      else if sz = 64 then 5
      else if sz = 128 then 6
      else if sz = 256 then 7
      else if sz = 512 then 8
      else if sz = 1024 then 9
      else if sz = 2048 then 10
      else if sz = 4096 then 11
      else if sz = 8192 then 12
      else if sz = 16384 then 13
      else if sz = 32768 then 14
      else if sz = 65536 then 15
      else if sz = 131072 then 16
      else if sz = 262144 then 17
      else if sz = 524288 then 18
      else if sz = 1048576 then 19
      else if sz = 2097152 then 20
      else if sz = 4194304 then 21
      else if sz = 8388608 then 22
      else if sz = 16777216 then 23
      else if sz = 33554432 then 24
      else if sz = 67108864 then 25
      else if sz = 134217728 then 26
      else if sz = 268435456 then 27
      else if sz = 536870912 then 28
      else if sz = 1073741824 then 29
      else if sz = 2147483648 then 30
      else 0)"

definition rasr_for :: "u32 \<Rightarrow> bool \<Rightarrow> u32 \<Rightarrow> u32 run" where
  "rasr_for sz writable unpriv = do {
     let f = size_field sz;
     let ap = ap_field writable unpriv;
     f2 \<leftarrow> mul_chk 2 f;
     s \<leftarrow> add_chk 1 f2;
     a \<leftarrow> mul_chk 0x01000000 ap;
     add_chk s a
   }"

section \<open>The table\<close>

definition slot_wf :: "region_table \<Rightarrow> nat \<Rightarrow> bool" where
  "slot_wf t i \<longleftrightarrow>
     (rt_enabled t ! i \<longrightarrow> region_wf (rt_base t ! i) (rt_size t ! i) \<and> perm_wf (rt_writable t ! i) (rt_unpriv t ! i))"

definition table_inv :: "region_table \<Rightarrow> bool" where
  "table_inv t \<longleftrightarrow>
     (\<forall>i<TABLE_SLOTS. slot_wf t i) \<and>
     (\<forall>i<TABLE_SLOTS. \<forall>j<TABLE_SLOTS. i \<noteq> j \<and> same_partition i j \<and> rt_enabled t ! i \<and> rt_enabled t ! j \<longrightarrow>
        regions_disjoint (rt_base t ! i) (rt_size t ! i) (rt_base t ! j) (rt_size t ! j))"

definition slot_supervisor_private :: "region_table \<Rightarrow> nat \<Rightarrow> bool" where
  "slot_supervisor_private t i \<longleftrightarrow> rt_enabled t ! i \<and> rt_unpriv t ! i = UNPRIV_NONE"

definition rt_new :: region_table where
  "rt_new = \<lparr>rt_base = replicate TABLE_SLOTS 0, rt_size = replicate TABLE_SLOTS 0,
     rt_enabled = replicate TABLE_SLOTS False, rt_writable = replicate TABLE_SLOTS False,
     rt_unpriv = replicate TABLE_SLOTS UNPRIV_SAME\<rparr>"

text \<open>The loop of program_partition over the hardware slots.\<close>

function program_from :: "nat \<Rightarrow> u32 \<Rightarrow> region_table \<Rightarrow> mpu_write_triple list \<Rightarrow> mpu_write_triple list run" where
  "program_from r part t w =
     (if r < MAX_REGIONS then do {
        let i = unat part * MAX_REGIONS + r;
        en \<leftarrow> arr_get (rt_enabled t) i;
        if en then do {
          sz \<leftarrow> arr_get (rt_size t) i;
          wr \<leftarrow> arr_get (rt_writable t) i;
          up \<leftarrow> arr_get (rt_unpriv t) i;
          b \<leftarrow> arr_get (rt_base t) i;
          rasr \<leftarrow> rasr_for sz wr up;
          w \<leftarrow> arr_set w (r + 1) \<lparr>mw_rnr = of_nat r, mw_rbar = b, mw_rasr = rasr\<rparr>;
          program_from (r + 1) part t w
        }
        else do {
          w \<leftarrow> arr_set w (r + 1) \<lparr>mw_rnr = of_nat r, mw_rbar = 0, mw_rasr = 0\<rparr>;
          program_from (r + 1) part t w
        }
      }
      else Ret w)"
  by pat_completeness auto
termination
  by (relation "measure (\<lambda>(r, part, t, w). MAX_REGIONS - r)") auto

declare program_from.simps [simp del]

definition program_partition :: "u32 \<Rightarrow> region_table \<Rightarrow> program_seq run" where
  "program_partition part t = do {
     let w = replicate SEQ_LEN \<lparr>mw_rnr = 0, mw_rbar = 0, mw_rasr = 0\<rparr>;
     w \<leftarrow> arr_set w 0 \<lparr>mw_rnr = MPU_CTRL_ID, mw_rbar = 0, mw_rasr = MPU_CTRL_DISABLE\<rparr>;
     w \<leftarrow> program_from 0 part t w;
     w \<leftarrow> arr_set w (MAX_REGIONS + 1) \<lparr>mw_rnr = MPU_CTRL_ID, mw_rbar = 0, mw_rasr = MPU_CTRL_ENABLE\<rparr>;
     Ret \<lparr>ps_w = w\<rparr>
   }"

text \<open>apply_program emits the writes in order through the register store.\<close>

type_synonym 'w reg_store = "u32 \<Rightarrow> u32 \<Rightarrow> u32 \<Rightarrow> 'w \<Rightarrow> 'w"

definition emit_write :: "'w reg_store \<Rightarrow> mpu_write_triple \<Rightarrow> 'w \<Rightarrow> 'w" where
  "emit_write mpu_write x w = mpu_write (mw_rnr x) (mw_rbar x) (mw_rasr x) w"

function apply_from :: "'w reg_store \<Rightarrow> nat \<Rightarrow> program_seq \<Rightarrow> 'w \<Rightarrow> 'w run" where
  "apply_from mpu_write i seq w =
     (if i < SEQ_LEN then do {
        x \<leftarrow> arr_get (ps_w seq) i;
        apply_from mpu_write (i + 1) seq (emit_write mpu_write x w)
      }
      else Ret w)"
  by pat_completeness auto
termination
  by (relation "measure (\<lambda>(f, i, seq, w). SEQ_LEN - i)") auto

declare apply_from.simps [simp del]

definition apply_program :: "'w reg_store \<Rightarrow> program_seq \<Rightarrow> 'w \<Rightarrow> 'w run" where
  "apply_program mpu_write seq w = apply_from mpu_write 0 seq w"

definition switch_to_partition :: "'w reg_store \<Rightarrow> u32 \<Rightarrow> region_table \<Rightarrow> 'w \<Rightarrow> 'w run" where
  "switch_to_partition mpu_write part t w = do {
     seq \<leftarrow> program_partition part t;
     apply_program mpu_write seq w
   }"

section \<open>The builder\<close>

definition slot_contains :: "region_table \<Rightarrow> nat \<Rightarrow> u32 \<Rightarrow> bool" where
  "slot_contains t i addr \<longleftrightarrow> rt_enabled t ! i \<and> rt_base t ! i \<le> addr \<and>
     unat addr < unat (rt_base t ! i) + unat (rt_size t ! i)"

definition covers :: "region_table \<Rightarrow> u32 \<Rightarrow> u32 \<Rightarrow> bool" where
  "covers t part addr \<longleftrightarrow> (\<exists>r\<in>set [0..<MAX_REGIONS]. slot_contains t (slot_of part r) addr)"

text \<open>The scan for an overlap with a region already granted; false means there is one.\<close>

function disjoint_from :: "nat \<Rightarrow> u32 \<Rightarrow> u32 \<Rightarrow> u32 \<Rightarrow> region_table \<Rightarrow> bool run" where
  "disjoint_from r part base sz t =
     (if r < MAX_REGIONS then do {
        let i = unat part * MAX_REGIONS + r;
        en \<leftarrow> arr_get (rt_enabled t) i;
        if en then do {
          b \<leftarrow> arr_get (rt_base t) i;
          e \<leftarrow> add_chk base sz;
          if e \<le> b then disjoint_from (r + 1) part base sz t
          else do {
            s \<leftarrow> arr_get (rt_size t) i;
            e' \<leftarrow> add_chk b s;
            if e' \<le> base then disjoint_from (r + 1) part base sz t else Ret False
          }
        }
        else disjoint_from (r + 1) part base sz t
      }
      else Ret True)"
  by pat_completeness auto
termination
  by (relation "measure (\<lambda>(r, part, base, sz, t). MAX_REGIONS - r)") auto

function insert_from :: "nat \<Rightarrow> u32 \<Rightarrow> u32 \<Rightarrow> u32 \<Rightarrow> bool \<Rightarrow> u32 \<Rightarrow> region_table \<Rightarrow> (bool \<times> region_table) run" where
  "insert_from f part base sz writable unpriv t =
     (if f < MAX_REGIONS then do {
        let i = unat part * MAX_REGIONS + f;
        en \<leftarrow> arr_get (rt_enabled t) i;
        if \<not> en then do {
          bs \<leftarrow> arr_set (rt_base t) i base;
          ss \<leftarrow> arr_set (rt_size t) i sz;
          ws \<leftarrow> arr_set (rt_writable t) i writable;
          us \<leftarrow> arr_set (rt_unpriv t) i unpriv;
          es \<leftarrow> arr_set (rt_enabled t) i True;
          Ret (True, t\<lparr>rt_base := bs, rt_size := ss, rt_writable := ws, rt_unpriv := us, rt_enabled := es\<rparr>)
        }
        else insert_from (f + 1) part base sz writable unpriv t
      }
      else Ret (False, t))"
  by pat_completeness auto
termination
  by (relation "measure (\<lambda>(f, part, base, sz, writable, unpriv, t). MAX_REGIONS - f)") auto

declare disjoint_from.simps [simp del] insert_from.simps [simp del]

definition try_add_region_perm ::
  "u32 \<Rightarrow> u32 \<Rightarrow> u32 \<Rightarrow> bool \<Rightarrow> u32 \<Rightarrow> region_table \<Rightarrow> (bool \<times> region_table) run" where
  "try_add_region_perm part base sz writable unpriv t =
     (if of_nat MAX_PARTITIONS \<le> part then Ret (False, t)
      else if UNPRIV_MAX \<le> unpriv then Ret (False, t)
      else if unpriv = UNPRIV_RO \<and> \<not> writable then Ret (False, t)
      else if \<not> is_power_of_two sz then Ret (False, t)
      else if sz < MIN_REGION_SIZE then Ret (False, t)
      else if base mod sz \<noteq> 0 then Ret (False, t)
      else if checked_add base sz = None then Ret (False, t)
      else do {
        ok \<leftarrow> disjoint_from 0 part base sz t;
        if \<not> ok then Ret (False, t) else insert_from 0 part base sz writable unpriv t
      })"

definition try_add_region :: "u32 \<Rightarrow> u32 \<Rightarrow> u32 \<Rightarrow> bool \<Rightarrow> region_table \<Rightarrow> (bool \<times> region_table) run" where
  "try_add_region part base sz writable t = try_add_region_perm part base sz writable UNPRIV_SAME t"

function covers_from :: "nat \<Rightarrow> u32 \<Rightarrow> u32 \<Rightarrow> region_table \<Rightarrow> bool run" where
  "covers_from r part addr t =
     (if r < MAX_REGIONS then do {
        let i = unat part * MAX_REGIONS + r;
        en \<leftarrow> arr_get (rt_enabled t) i;
        b \<leftarrow> arr_get (rt_base t) i;
        s \<leftarrow> arr_get (rt_size t) i;
        if en \<and> b \<le> addr then do {
          d \<leftarrow> sub_chk addr b;
          if d < s then Ret True else covers_from (r + 1) part addr t
        }
        else covers_from (r + 1) part addr t
      }
      else Ret False)"
  by pat_completeness auto
termination
  by (relation "measure (\<lambda>(r, part, addr, t). MAX_REGIONS - r)") auto

declare covers_from.simps [simp del]

definition covers_addr :: "u32 \<Rightarrow> u32 \<Rightarrow> region_table \<Rightarrow> bool run" where
  "covers_addr part addr t = covers_from 0 part addr t"

section \<open>Encoding\<close>

lemma region_wf_iff:
  "region_wf b z \<longleftrightarrow> (\<exists>k. 5 \<le> k \<and> k < 32 \<and> unat z = 2 ^ k \<and> 2 ^ k dvd unat b) \<and> unat b + unat z < 2 ^ 32"
proof -
  have "32 \<le> unat z \<longleftrightarrow> 5 \<le> k" if "unat z = 2 ^ k" for k
    using power_increasing_iff [of "2 :: nat" 5 k] that by simp
  moreover have "unat b + unat z \<le> unat u32_max \<longleftrightarrow> unat b + unat z < 2 ^ 32" by auto
  ultimately show ?thesis
    unfolding region_wf_def is_pow2_spec_iff MIN_REGION_SIZE_def word_le_nat_alt
    by (auto simp: mod_eq_0_iff_dvd)
qed

lemma size_field_eq:
  assumes "unat z = 2 ^ k" and "5 \<le> k" and "k < 32"
  shows "unat (size_field z) = k - 1"
proof -
  have z: "z = 2 ^ k" using assms by (simp add: word_unat_eq_iff unat_two_power)
  have "k \<in> set [5..<32]" using assms by (simp only: set_upt atLeastLessThan_iff simp_thms)
  moreover have "\<forall>k\<in>set [5..<32]. unat (size_field (2 ^ k)) = k - 1" by (simp add: size_field_def upt_rec)
  ultimately show ?thesis unfolding z by blast
qed

lemma ap_field_less: "unat (ap_field wr up) < 8"
  by (simp add: ap_field_def)

lemma rasr_for_eq:
  assumes "unat z = 2 ^ k" and "5 \<le> k" and "k < 32"
  shows "\<exists>v. rasr_for z wr up = Some v \<and> unat v = 1 + 2 * (k - 1) + 16777216 * unat (ap_field wr up)"
proof -
  let ?f = "size_field z" and ?ap = "ap_field wr up"
  have f: "unat ?f = k - 1" by (rule size_field_eq [OF assms])
  have ap: "unat ?ap < 8" by (rule ap_field_less)
  have m1: "mul_chk 2 ?f = Some (2 * ?f)" using f assms by (simp add: mul_chk_def)
  have u1: "unat (2 * ?f) = 2 * (k - 1)"
    using f assms by (simp add: unat_word_ariths)
  then have a1: "add_chk 1 (2 * ?f) = Some (1 + 2 * ?f)" using assms by (simp add: add_chk_def)
  then have u2: "unat (1 + 2 * ?f) = 1 + 2 * (k - 1)" using u1 by (auto dest: add_chk_unat)
  have m2: "mul_chk 0x01000000 ?ap = Some (0x01000000 * ?ap)" using ap by (simp add: mul_chk_def)
  have u3: "unat (0x01000000 * ?ap) = 16777216 * unat ?ap"
    using ap by (simp add: unat_word_ariths)
  have a2: "add_chk (1 + 2 * ?f) (0x01000000 * ?ap) = Some (1 + 2 * ?f + 0x01000000 * ?ap)"
    unfolding add_chk_def u2 u3 using ap assms by simp
  show ?thesis
    using a2 add_chk_unat [OF a2] by (simp add: rasr_for_def Let_def m1 a1 m2 u2 u3)
qed

text \<open>The fields of the attribute register as the architecture reads them.\<close>

definition rasr_region_size :: "u32 \<Rightarrow> nat" where
  "rasr_region_size v = 2 ^ (unat (drop_bit 1 v AND mask 5) + 1)"

definition rasr_ap :: "u32 \<Rightarrow> u32" where
  "rasr_ap v = drop_bit 24 v AND mask 3"

lemma rasr_decode:
  assumes "region_wf b z"
  shows "\<exists>v. rasr_for z wr up = Some v \<and> odd v \<and> rasr_region_size v = unat z \<and> rasr_ap v = ap_field wr up"
proof -
  obtain k where k: "5 \<le> k" "k < 32" "unat z = 2 ^ k" using assms by (auto simp: region_wf_iff)
  obtain v where v: "rasr_for z wr up = Some v" "unat v = 1 + 2 * (k - 1) + 16777216 * unat (ap_field wr up)"
    using rasr_for_eq [OF k(3,1,2)] by blast
  have "odd (unat v)" unfolding v(2) by simp
  then have "odd v" by (simp add: even_unat)
  moreover have "unat v div 2 ^ 1 mod 2 ^ 5 = k - 1"
  proof -
    obtain j where j: "k = Suc j" using k by (cases k) auto
    have "unat v div 2 ^ 1 = j + 8388608 * unat (ap_field wr up)" unfolding v(2) j by simp
    also have "\<dots> = j + 32 * (262144 * unat (ap_field wr up))" by simp
    finally have "unat v div 2 ^ 1 mod 2 ^ 5 = (j + 32 * (262144 * unat (ap_field wr up))) mod 32" by simp
    also have "\<dots> = j" unfolding mod_mult_self2 using k j by simp
    finally show ?thesis using j by simp
  qed
  then have "rasr_region_size v = unat z" using k unfolding rasr_region_size_def unat_field by simp
  moreover have "unat v div 2 ^ 24 mod 2 ^ 3 = unat (ap_field wr up)"
    unfolding v(2) using k ap_field_less [of wr up] by simp
  then have "rasr_ap v = ap_field wr up" unfolding rasr_ap_def word_unat_eq_iff unat_field .
  ultimately show ?thesis using v(1) by blast
qed

section \<open>The sequence of a switch\<close>

lemma slot_less: "unat part < 4 \<Longrightarrow> r < 8 \<Longrightarrow> slot_of part r < 32"
  by (simp add: slot_of_def)

definition region_write :: "region_table \<Rightarrow> u32 \<Rightarrow> nat \<Rightarrow> mpu_write_triple" where
  "region_write t part r =
     (let i = slot_of part r in
      if rt_enabled t ! i
      then \<lparr>mw_rnr = of_nat r, mw_rbar = rt_base t ! i,
            mw_rasr = the (rasr_for (rt_size t ! i) (rt_writable t ! i) (rt_unpriv t ! i))\<rparr>
      else \<lparr>mw_rnr = of_nat r, mw_rbar = 0, mw_rasr = 0\<rparr>)"

lemma slot_rasr:
  assumes "table_inv t" and "i < 32" and "rt_enabled t ! i"
  obtains v where "rasr_for (rt_size t ! i) (rt_writable t ! i) (rt_unpriv t ! i) = Some v" and "odd v"
    and "rasr_region_size v = unat (rt_size t ! i)" and "rasr_ap v = ap_field (rt_writable t ! i) (rt_unpriv t ! i)"
proof -
  have "region_wf (rt_base t ! i) (rt_size t ! i)" using assms by (simp add: table_inv_def slot_wf_def)
  from rasr_decode [OF this, of "rt_writable t ! i" "rt_unpriv t ! i"] show thesis using that by blast
qed

lemma program_step:
  assumes "table_arrays t" and "table_inv t" and "unat part < 4" and "r < 8" and "length w = 10"
  shows "program_from r part t w = program_from (r + 1) part t (w[r + 1 := region_write t part r])"
proof -
  have i: "unat part * 8 + r < 32" using assms(3,4) by simp
  show ?thesis
  proof (cases "rt_enabled t ! (unat part * 8 + r)")
    case True
    obtain v where "rasr_for (rt_size t ! (unat part * 8 + r)) (rt_writable t ! (unat part * 8 + r))
        (rt_unpriv t ! (unat part * 8 + r)) = Some v"
      by (rule slot_rasr [OF assms(2) i True])
    then show ?thesis
      using assms i True
      by (subst program_from.simps) (simp add: table_arrays_def arr_get_def arr_set_def region_write_def slot_of_def Let_def)
  next
    case False
    then show ?thesis
      using assms i
      by (subst program_from.simps) (simp add: table_arrays_def arr_get_def arr_set_def region_write_def slot_of_def Let_def)
  qed
qed

lemma program_from_eq:
  assumes "table_arrays t" and "table_inv t" and "unat part < 4"
  shows "length w = 10 \<Longrightarrow> r \<le> 8 \<Longrightarrow>
    program_from r part t w = Some (take (r + 1) w @ map (region_write t part) [r..<8] @ drop 9 w)"
proof (induction r arbitrary: w rule: upto_induct [where n = 8])
  case (stop r)
  then have "r = 8" by simp
  then show ?case using stop by (subst program_from.simps) (simp add: append_take_drop_id)
next
  case (step r)
  let ?w = "w[r + 1 := region_write t part r]"
  have "take (r + 2) ?w = take (r + 1) w @ [region_write t part r]"
    using step.hyps step.prems(1) by (simp add: take_Suc_conv_app_nth)
  moreover have "drop 9 ?w = drop 9 w" using step.hyps by simp
  moreover have "[r..<8] = r # [r + 1..<8]" using step.hyps by (simp add: upt_rec)
  ultimately show ?case
    using step.IH [of ?w] step.prems step.hyps program_step [OF assms step.hyps step.prems(1)] by simp
qed

definition switch_writes :: "region_table \<Rightarrow> u32 \<Rightarrow> mpu_write_triple list" where
  "switch_writes t part =
     \<lparr>mw_rnr = MPU_CTRL_ID, mw_rbar = 0, mw_rasr = MPU_CTRL_DISABLE\<rparr> #
     map (region_write t part) [0..<8] @ [\<lparr>mw_rnr = MPU_CTRL_ID, mw_rbar = 0, mw_rasr = MPU_CTRL_ENABLE\<rparr>]"

lemma program_partition_eq:
  assumes "table_arrays t" and "table_inv t" and "unat part < 4"
  shows "program_partition part t = Some \<lparr>ps_w = switch_writes t part\<rparr>"
proof -
  let ?z = "\<lparr>mw_rnr = 0, mw_rbar = 0, mw_rasr = 0\<rparr>" and ?d = "\<lparr>mw_rnr = MPU_CTRL_ID, mw_rbar = 0, mw_rasr = MPU_CTRL_DISABLE\<rparr>"
  have "program_from 0 part t ((replicate 10 ?z)[0 := ?d]) = Some (?d # map (region_write t part) [0..<8] @ [?z])"
    by (subst program_from_eq [OF assms]) (simp_all add: numeral_eq_Suc)
  then show ?thesis
    by (simp add: program_partition_def arr_set_def switch_writes_def list_update_append)
qed

lemma apply_from_eq:
  "length (ps_w seq) = 10 \<Longrightarrow> apply_from f i seq w = Some (fold (emit_write f) (drop i (ps_w seq)) w)"
proof (induction i arbitrary: w rule: upto_induct [where n = 10])
  case (stop i)
  then show ?case by (subst apply_from.simps) simp
next
  case (step i)
  then have "drop i (ps_w seq) = ps_w seq ! i # drop (i + 1) (ps_w seq)"
    by (simp add: Cons_nth_drop_Suc)
  then show ?case
    using step by (subst apply_from.simps) (simp add: arr_get_def)
qed

lemma switch_to_partition_eq:
  assumes "table_arrays t" and "table_inv t" and "unat part < 4"
  shows "switch_to_partition f part t w = Some (fold (emit_write f) (switch_writes t part) w)"
proof -
  have len: "length (ps_w \<lparr>ps_w = switch_writes t part\<rparr>) = 10" by (simp add: switch_writes_def)
  show ?thesis
    unfolding switch_to_partition_def program_partition_eq [OF assms] apply_program_def
    using apply_from_eq [OF len, of f 0 w] by simp
qed

section \<open>The builder on well-formed tables\<close>

lemma disjoint_step:
  assumes "table_arrays t" and "table_inv t" and "unat part < 4" and "r < 8" and "unat base + unat sz < 2 ^ 32"
  shows "disjoint_from r part base sz t =
           (if rt_enabled t ! slot_of part r \<longrightarrow>
               regions_disjoint base sz (rt_base t ! slot_of part r) (rt_size t ! slot_of part r)
            then disjoint_from (r + 1) part base sz t else Some False)"
proof -
  let ?i = "slot_of part r"
  let ?b = "rt_base t ! ?i" and ?s = "rt_size t ! ?i"
  have i: "?i < 32" by (rule slot_less [OF assms(3,4)])
  have len: "length (rt_enabled t) = 32" "length (rt_base t) = 32" "length (rt_size t) = 32"
    using assms(1) by (simp_all add: table_arrays_def)
  have e: "add_chk base sz = Some (base + sz)" using assms(5) by (intro add_chk_Some) simp
  have ue: "unat (base + sz) = unat base + unat sz" using add_chk_unat [OF e] .
  show ?thesis
  proof (cases "rt_enabled t ! ?i")
    case True
    then have "unat ?b + unat ?s < 2 ^ 32" using assms(2) i by (simp add: table_inv_def slot_wf_def region_wf_iff)
    then have e': "add_chk ?b ?s = Some (?b + ?s)" by (intro add_chk_Some) simp
    have ue': "unat (?b + ?s) = unat ?b + unat ?s" using add_chk_unat [OF e'] .
    show ?thesis
      using True i len assms(4) e e' ue ue'
      by (subst disjoint_from.simps)
         (simp add: arr_get_def slot_of_def [symmetric] Let_def regions_disjoint_def word_le_nat_alt)
  next
    case False
    then show ?thesis
      using i len assms(4) by (subst disjoint_from.simps) (simp add: arr_get_def slot_of_def [symmetric] Let_def)
  qed
qed

lemma disjoint_from_eq:
  assumes "table_arrays t" and "table_inv t" and "unat part < 4" and "unat base + unat sz < 2 ^ 32"
  shows "disjoint_from r part base sz t =
           Some (\<forall>q. r \<le> q \<and> q < 8 \<longrightarrow> rt_enabled t ! slot_of part q \<longrightarrow>
             regions_disjoint base sz (rt_base t ! slot_of part q) (rt_size t ! slot_of part q))"
proof (induction r rule: upto_induct [where n = 8])
  case (stop r)
  then show ?case by (subst disjoint_from.simps) auto
next
  case (step r)
  show ?case
    unfolding disjoint_step [OF assms(1-3) step.hyps assms(4)] step.IH
      all_from_Suc [OF step.hyps, of "\<lambda>q. rt_enabled t ! slot_of part q \<longrightarrow>
        regions_disjoint base sz (rt_base t ! slot_of part q) (rt_size t ! slot_of part q)"]
    by simp
qed

definition put_region :: "nat \<Rightarrow> u32 \<Rightarrow> u32 \<Rightarrow> bool \<Rightarrow> u32 \<Rightarrow> region_table \<Rightarrow> region_table" where
  "put_region i base sz wr up t =
     t\<lparr>rt_base := (rt_base t)[i := base], rt_size := (rt_size t)[i := sz], rt_writable := (rt_writable t)[i := wr],
       rt_unpriv := (rt_unpriv t)[i := up], rt_enabled := (rt_enabled t)[i := True]\<rparr>"

definition first_free :: "region_table \<Rightarrow> u32 \<Rightarrow> nat option" where
  "first_free t part = List.find (\<lambda>q. \<not> rt_enabled t ! slot_of part q) [0..<8]"

lemma insert_from_eq:
  assumes "table_arrays t" and "unat part < 4"
  shows "insert_from f part base sz wr up t =
           Some (case List.find (\<lambda>q. \<not> rt_enabled t ! slot_of part q) [f..<8] of
                   None \<Rightarrow> (False, t)
                 | Some q \<Rightarrow> (True, put_region (slot_of part q) base sz wr up t))"
proof (induction f rule: upto_induct [where n = 8])
  case (stop f)
  then show ?case by (subst insert_from.simps) simp
next
  case (step f)
  have r: "[f..<8] = f # [f + 1..<8]" using step.hyps by (simp add: upt_rec)
  have i: "slot_of part f < 32" by (rule slot_less [OF assms(2) step.hyps])
  show ?case
    unfolding r using step i assms(1)
    by (subst insert_from.simps)
       (simp add: table_arrays_def arr_get_def arr_set_def put_region_def slot_of_def [symmetric] Let_def)
qed

text \<open>What the builder accepts.\<close>

definition admissible :: "u32 \<Rightarrow> u32 \<Rightarrow> u32 \<Rightarrow> bool \<Rightarrow> u32 \<Rightarrow> region_table \<Rightarrow> bool" where
  "admissible part base sz wr up t \<longleftrightarrow> unat part < 4 \<and> perm_wf wr up \<and> region_wf base sz \<and>
     (\<forall>q<8. rt_enabled t ! slot_of part q \<longrightarrow>
        regions_disjoint base sz (rt_base t ! slot_of part q) (rt_size t ! slot_of part q))"

lemma region_tests:
  "region_wf base sz \<longleftrightarrow>
     is_power_of_two sz \<and> \<not> sz < MIN_REGION_SIZE \<and> \<not> base mod sz \<noteq> 0 \<and> \<not> checked_add base sz = None"
proof -
  have "base mod sz = 0 \<longleftrightarrow> unat base mod unat sz = 0"
    by (simp add: word_unat_eq_iff unat_mod)
  moreover have "unat base + unat sz \<le> unat u32_max \<longleftrightarrow> unat base + unat sz < 2 ^ 32" by auto
  ultimately show ?thesis
    using checked_add_u32 [of base sz]
    by (auto simp: region_wf_def is_pow2_spec_iff is_power_of_two_iff not_less)
qed

lemma try_add_region_perm_eq:
  assumes "table_arrays t" and "table_inv t"
  shows "try_add_region_perm part base sz wr up t =
           Some (case (if admissible part base sz wr up t then first_free t part else None) of
                   None \<Rightarrow> (False, t)
                 | Some q \<Rightarrow> (True, put_region (slot_of part q) base sz wr up t))"
proof (cases "unat part < 4 \<and> perm_wf wr up \<and> region_wf base sz")
  case True
  have sum: "unat base + unat sz < 2 ^ 32" using True by (simp add: region_wf_iff)
  have "try_add_region_perm part base sz wr up t =
      (do { ok \<leftarrow> disjoint_from 0 part base sz t;
            if \<not> ok then Ret (False, t) else insert_from 0 part base sz wr up t })"
    using True region_tests [of base sz]
    by (auto simp: try_add_region_perm_def perm_wf_def word_le_nat_alt word_less_nat_alt not_le)
  moreover have "disjoint_from 0 part base sz t = Some (admissible part base sz wr up t)"
    using True disjoint_from_eq [OF assms _ sum, of part 0] by (simp add: admissible_def)
  ultimately show ?thesis
    using True insert_from_eq [OF assms(1), of part 0] by (simp add: first_free_def)
next
  case False
  then have "try_add_region_perm part base sz wr up t = Some (False, t)"
    using region_tests [of base sz]
    by (auto simp: try_add_region_perm_def perm_wf_def word_le_nat_alt word_less_nat_alt not_le)
  moreover have "\<not> admissible part base sz wr up t" using False by (auto simp: admissible_def)
  ultimately show ?thesis by simp
qed

lemma first_free_Some:
  assumes "first_free t part = Some q"
  shows "q < 8" and "\<not> rt_enabled t ! slot_of part q" and "\<forall>p<q. rt_enabled t ! slot_of part p"
  using assms by (auto simp: first_free_def find_Some_iff)

lemma put_region_arrays: "table_arrays t \<Longrightarrow> table_arrays (put_region i base sz wr up t)"
  by (simp add: table_arrays_def put_region_def)

lemma put_region_nth:
  assumes "table_arrays t" and "i < 32"
  shows "rt_base (put_region i b z wr up t) ! j = (if j = i then b else rt_base t ! j)"
    and "rt_size (put_region i b z wr up t) ! j = (if j = i then z else rt_size t ! j)"
    and "rt_writable (put_region i b z wr up t) ! j = (if j = i then wr else rt_writable t ! j)"
    and "rt_unpriv (put_region i b z wr up t) ! j = (if j = i then up else rt_unpriv t ! j)"
    and "rt_enabled (put_region i b z wr up t) ! j = (j = i \<or> rt_enabled t ! j)"
  using assms by (simp_all add: table_arrays_def put_region_def nth_list_update)

lemma same_partition_slot:
  assumes "q < 8" and "same_partition (slot_of part q) j"
  shows "j = slot_of part (j mod 8)"
proof -
  have "j div 8 = unat part" using assms by (simp add: same_partition_def slot_of_def)
  then show ?thesis using mult_div_mod_eq [of 8 j] by (simp add: slot_of_def)
qed

lemma regions_disjoint_sym: "regions_disjoint b1 s1 b2 s2 \<longleftrightarrow> regions_disjoint b2 s2 b1 s1"
  by (auto simp: regions_disjoint_def)

lemma put_region_inv:
  assumes "table_arrays t" and "table_inv t" and "admissible part base sz wr up t" and "q < 8"
  shows "table_inv (put_region (slot_of part q) base sz wr up t)"
proof -
  let ?i = "slot_of part q" and ?t = "put_region (slot_of part q) base sz wr up t"
  have adm: "unat part < 4" "perm_wf wr up" "region_wf base sz"
    "\<And>p. p < 8 \<Longrightarrow> rt_enabled t ! slot_of part p \<Longrightarrow>
      regions_disjoint base sz (rt_base t ! slot_of part p) (rt_size t ! slot_of part p)"
    using assms(3) by (auto simp: admissible_def)
  have i: "?i < 32" by (rule slot_less [OF adm(1) assms(4)])
  note nth = put_region_nth [OF assms(1) i]
  have wf: "slot_wf ?t j" if "j < 32" for j
    using that assms(2) adm by (auto simp: slot_wf_def nth table_inv_def)
  have new: "regions_disjoint base sz (rt_base t ! j) (rt_size t ! j)"
    if "same_partition ?i j" "rt_enabled t ! j" for j
    using adm(4) [of "j mod 8"] that same_partition_slot [OF assms(4) that(1)] by simp
  have "regions_disjoint (rt_base ?t ! j) (rt_size ?t ! j) (rt_base ?t ! k) (rt_size ?t ! k)"
    if "j < 32" "k < 32" "j \<noteq> k" "same_partition j k" "rt_enabled ?t ! j" "rt_enabled ?t ! k" for j k
  proof -
    have "same_partition k j" using that(4) by (simp add: same_partition_def)
    then show ?thesis
      using that new [of j] new [of k] assms(2) regions_disjoint_sym
      by (auto simp: nth table_inv_def)
  qed
  with wf show ?thesis by (simp add: table_inv_def)
qed

text \<open>What the table grants: an enabled region of the partition contains the address.\<close>

definition grants :: "region_table \<Rightarrow> u32 \<Rightarrow> u32 \<Rightarrow> bool \<Rightarrow> u32 \<Rightarrow> bool" where
  "grants t part addr wr up \<longleftrightarrow>
     (\<exists>r<8. slot_contains t (slot_of part r) addr \<and> rt_writable t ! slot_of part r = wr \<and> rt_unpriv t ! slot_of part r = up)"

lemma covers_grants: "covers t part addr \<longleftrightarrow> (\<exists>wr up. grants t part addr wr up)"
  by (auto simp: covers_def grants_def)

lemma slot_of_inject: "q < 8 \<Longrightarrow> r < 8 \<Longrightarrow> slot_of p r = slot_of part q \<longleftrightarrow> p = part \<and> r = q"
  unfolding slot_of_def word_unat_eq_iff by auto presburger+

lemma put_region_grants:
  assumes "table_arrays t" and "unat part < 4" and "q < 8" and "\<not> rt_enabled t ! slot_of part q"
  shows "grants (put_region (slot_of part q) base sz wr up t) p addr w u \<longleftrightarrow>
           grants t p addr w u \<or> p = part \<and> base \<le> addr \<and> unat addr < unat base + unat sz \<and> w = wr \<and> u = up"
proof -
  let ?t = "put_region (slot_of part q) base sz wr up t"
  note nth = put_region_nth [OF assms(1) slot_less [OF assms(2,3)]]
  have slot: "slot_contains ?t (slot_of p r) addr \<and> rt_writable ?t ! slot_of p r = w \<and> rt_unpriv ?t ! slot_of p r = u \<longleftrightarrow>
      (if p = part \<and> r = q then base \<le> addr \<and> unat addr < unat base + unat sz \<and> w = wr \<and> u = up
       else slot_contains t (slot_of p r) addr \<and> rt_writable t ! slot_of p r = w \<and> rt_unpriv t ! slot_of p r = u)"
    if "r < 8" for r
    using slot_of_inject [OF assms(3) that, of p part] by (auto simp: slot_contains_def nth)
  have one: "(\<exists>r<8. P r) \<longleftrightarrow> (\<exists>r<8. Q r) \<or> p = part \<and> N"
    if "\<And>r. r < 8 \<Longrightarrow> P r \<longleftrightarrow> (if p = part \<and> r = q then N else Q r)" and "p = part \<Longrightarrow> \<not> Q q" for P Q N
    using that assms(3) by (cases "p = part") (auto split: if_splits)
  show ?thesis
    unfolding grants_def by (rule one) (use slot assms(4) in \<open>simp_all add: slot_contains_def\<close>)
qed

lemma covers_from_eq:
  assumes "table_arrays t" and "unat part < 4"
  shows "covers_from r part addr t = Some (\<exists>q. r \<le> q \<and> q < 8 \<and> slot_contains t (slot_of part q) addr)"
proof (induction r rule: upto_induct [where n = 8])
  case (stop r)
  then show ?case by (subst covers_from.simps) auto
next
  case (step r)
  let ?i = "slot_of part r"
  have i: "?i < 32" by (rule slot_less [OF assms(2) step.hyps])
  have hit: "slot_contains t ?i addr \<longleftrightarrow> rt_enabled t ! ?i \<and> rt_base t ! ?i \<le> addr \<and> addr - rt_base t ! ?i < rt_size t ! ?i"
    by (auto simp: slot_contains_def word_less_nat_alt unat_sub word_le_nat_alt)
  have "covers_from r part addr t = (if slot_contains t ?i addr then Some True else covers_from (r + 1) part addr t)"
    unfolding hit using i assms(1) step.hyps
    by (subst covers_from.simps)
       (simp add: table_arrays_def arr_get_def slot_of_def [symmetric] Let_def sub_chk_def)
  then show ?case
    unfolding ex_from_Suc [OF step.hyps, of "\<lambda>q. slot_contains t (slot_of part q) addr"] step.IH by simp
qed

lemma covers_addr_eq:
  assumes "table_arrays t" and "unat part < 4"
  shows "covers_addr part addr t = Some (covers t part addr)"
  using covers_from_eq [OF assms, of 0] by (auto simp: covers_addr_def covers_def)

lemma grants_unique:
  assumes "table_inv t" and "unat part < 4" and "grants t part addr w u" and "grants t part addr w' u'"
  shows "w = w' \<and> u = u'"
proof -
  obtain r where r: "r < 8" "slot_contains t (slot_of part r) addr" "rt_writable t ! slot_of part r = w"
      "rt_unpriv t ! slot_of part r = u"
    using assms(3) by (auto simp: grants_def)
  obtain q where q: "q < 8" "slot_contains t (slot_of part q) addr" "rt_writable t ! slot_of part q = w'"
      "rt_unpriv t ! slot_of part q = u'"
    using assms(4) by (auto simp: grants_def)
  have "slot_of part r = slot_of part q"
  proof (rule ccontr)
    assume "slot_of part r \<noteq> slot_of part q"
    moreover have "same_partition (slot_of part r) (slot_of part q)"
      using r(1) q(1) by (simp add: same_partition_def slot_of_def)
    ultimately have "regions_disjoint (rt_base t ! slot_of part r) (rt_size t ! slot_of part r)
        (rt_base t ! slot_of part q) (rt_size t ! slot_of part q)"
      using assms(1) r(2) q(2) slot_less [OF assms(2) r(1)] slot_less [OF assms(2) q(1)]
      by (simp add: table_inv_def slot_contains_def)
    then show False using r(2) q(2) by (auto simp: regions_disjoint_def slot_contains_def word_le_nat_alt)
  qed
  then show ?thesis using r q by simp
qed

lemma rt_new_inv: "table_arrays rt_new" "table_inv rt_new" "unat part < 4 \<Longrightarrow> \<not> grants rt_new part addr wr up"
proof -
  have off: "\<not> rt_enabled rt_new ! i" if "i < 32" for i using that by (simp add: rt_new_def)
  then show "table_inv rt_new" by (simp add: table_inv_def slot_wf_def)
  show "table_arrays rt_new" by (simp add: table_arrays_def rt_new_def)
  show "\<not> grants rt_new part addr wr up" if "unat part < 4"
    using off slot_less [OF that] by (auto simp: grants_def slot_contains_def)
qed

text \<open>A sequence of requests to the builder, with the answers.\<close>

record region_request =
  rq_part :: u32
  rq_base :: u32
  rq_size :: u32
  rq_writable :: bool
  rq_unpriv :: u32

primrec build :: "region_request list \<Rightarrow> region_table \<Rightarrow> (bool list \<times> region_table) run" where
  "build [] t = Ret ([], t)"
| "build (x # xs) t = do {
     (ok, t) \<leftarrow> try_add_region_perm (rq_part x) (rq_base x) (rq_size x) (rq_writable x) (rq_unpriv x) t;
     (oks, t) \<leftarrow> build xs t;
     Ret (ok # oks, t)
   }"

definition asks_for :: "region_request \<Rightarrow> u32 \<Rightarrow> u32 \<Rightarrow> bool \<Rightarrow> u32 \<Rightarrow> bool" where
  "asks_for x part addr wr up \<longleftrightarrow> rq_part x = part \<and> rq_base x \<le> addr \<and> unat addr < unat (rq_base x) + unat (rq_size x) \<and>
     rq_writable x = wr \<and> rq_unpriv x = up"

definition accepted :: "region_request list \<Rightarrow> bool list \<Rightarrow> region_request list" where
  "accepted xs oks = map fst (filter snd (zip xs oks))"

lemma try_add_step:
  assumes "table_arrays t" and "table_inv t"
  shows "\<exists>ok t'. try_add_region_perm (rq_part x) (rq_base x) (rq_size x) (rq_writable x) (rq_unpriv x) t = Some (ok, t') \<and>
           table_arrays t' \<and> table_inv t' \<and>
           (\<forall>p a w u. grants t' p a w u \<longleftrightarrow> grants t p a w u \<or> ok \<and> asks_for x p a w u) \<and>
           (ok \<longrightarrow> region_wf (rq_base x) (rq_size x) \<and> perm_wf (rq_writable x) (rq_unpriv x)) \<and> (\<not> ok \<longrightarrow> t' = t)"
proof (cases "if admissible (rq_part x) (rq_base x) (rq_size x) (rq_writable x) (rq_unpriv x) t
              then first_free t (rq_part x) else None")
  case None
  then show ?thesis
    using try_add_region_perm_eq [OF assms] assms by (intro exI [of _ False] exI [of _ t]) simp
next
  case (Some q)
  then have adm: "admissible (rq_part x) (rq_base x) (rq_size x) (rq_writable x) (rq_unpriv x) t"
    and free: "first_free t (rq_part x) = Some q" by (auto split: if_splits)
  let ?t = "put_region (slot_of (rq_part x) q) (rq_base x) (rq_size x) (rq_writable x) (rq_unpriv x) t"
  have part: "unat (rq_part x) < 4" using adm by (simp add: admissible_def)
  have "try_add_region_perm (rq_part x) (rq_base x) (rq_size x) (rq_writable x) (rq_unpriv x) t = Some (True, ?t)"
    using try_add_region_perm_eq [OF assms] Some by simp
  moreover have "grants ?t p a w u \<longleftrightarrow> grants t p a w u \<or> asks_for x p a w u" for p a w u
    using put_region_grants [OF assms(1) part first_free_Some(1,2) [OF free]] by (auto simp: asks_for_def)
  ultimately show ?thesis
    using put_region_inv [OF assms adm first_free_Some(1) [OF free]] put_region_arrays [OF assms(1)] adm
    by (auto simp: admissible_def)
qed

lemma build_grants:
  assumes "table_arrays t" and "table_inv t"
  shows "\<exists>oks t'. build xs t = Some (oks, t') \<and> length oks = length xs \<and> table_arrays t' \<and> table_inv t' \<and>
           (\<forall>p a w u. grants t' p a w u \<longleftrightarrow> grants t p a w u \<or> (\<exists>x\<in>set (accepted xs oks). asks_for x p a w u)) \<and>
           (\<forall>x\<in>set (accepted xs oks). region_wf (rq_base x) (rq_size x) \<and> perm_wf (rq_writable x) (rq_unpriv x))"
  using assms
proof (induction xs arbitrary: t)
  case Nil
  then show ?case by (simp add: accepted_def)
next
  case (Cons x xs)
  obtain ok t1 where t1: "try_add_region_perm (rq_part x) (rq_base x) (rq_size x) (rq_writable x) (rq_unpriv x) t = Some (ok, t1)"
    "table_arrays t1" "table_inv t1" "\<And>p a w u. grants t1 p a w u \<longleftrightarrow> grants t p a w u \<or> ok \<and> asks_for x p a w u"
    "ok \<Longrightarrow> region_wf (rq_base x) (rq_size x) \<and> perm_wf (rq_writable x) (rq_unpriv x)"
    using try_add_step [OF Cons.prems, of x] by blast
  obtain oks t2 where t2: "build xs t1 = Some (oks, t2)" "length oks = length xs" "table_arrays t2" "table_inv t2"
    "\<And>p a w u. grants t2 p a w u \<longleftrightarrow> grants t1 p a w u \<or> (\<exists>x\<in>set (accepted xs oks). asks_for x p a w u)"
    "\<And>x. x \<in> set (accepted xs oks) \<Longrightarrow> region_wf (rq_base x) (rq_size x) \<and> perm_wf (rq_writable x) (rq_unpriv x)"
    using Cons.IH [OF t1(2,3)] by blast
  have acc: "set (accepted (x # xs) (ok # oks)) = (if ok then {x} else {}) \<union> set (accepted xs oks)"
    by (auto simp: accepted_def)
  have "build (x # xs) t = Some (ok # oks, t2)" using t1(1) t2(1) by simp
  then show ?case
    using t1(4,5) t2 by (intro exI [of _ "ok # oks"] exI [of _ t2]) (auto simp: acc)
qed

text \<open>The access permissions of an AP field, for privileged and unprivileged reads and writes.\<close>

definition ap_allows :: "u32 \<Rightarrow> bool \<Rightarrow> bool \<Rightarrow> bool" where
  "ap_allows ap privileged is_write =
     (if privileged then (if is_write then ap \<in> {1, 2, 3} else ap \<in> {1, 2, 3, 5, 6})
      else (if is_write then ap = 3 else ap \<in> {2, 3, 6}))"

lemma ap_field_allows:
  assumes "perm_wf wr up"
  shows "ap_allows (ap_field wr up) True True = wr" "ap_allows (ap_field wr up) True False"
    "ap_allows (ap_field wr up) False True = (wr \<and> up = UNPRIV_SAME)"
    "ap_allows (ap_field wr up) False False = (up \<noteq> UNPRIV_NONE)"
proof -
  have "unat up < 3" using assms by (simp add: perm_wf_def UNPRIV_MAX_def word_less_nat_alt)
  then have "unat up = 0 \<or> unat up = 1 \<or> unat up = 2" by linarith
  then have up: "up = UNPRIV_SAME \<or> up = UNPRIV_RO \<or> up = UNPRIV_NONE"
    by (auto simp: word_unat_eq_iff UNPRIV_SAME_def UNPRIV_RO_def UNPRIV_NONE_def)
  have ro: "up = UNPRIV_RO \<longrightarrow> wr" using assms by (simp add: perm_wf_def)
  show "ap_allows (ap_field wr up) True True = wr" "ap_allows (ap_field wr up) True False"
    "ap_allows (ap_field wr up) False True = (wr \<and> up = UNPRIV_SAME)"
    "ap_allows (ap_field wr up) False False = (up \<noteq> UNPRIV_NONE)"
    using up ro by (auto simp: ap_allows_def ap_field_def UNPRIV_SAME_def UNPRIV_RO_def UNPRIV_NONE_def)
qed

section \<open>What the hardware enforces after a switch\<close>

text \<open>
  The contract of the register store as the module states it: a write to a region number
  sets base and attributes of that region and nothing else, a write to the control id
  sets the control register and nothing else. The control register and the regions are
  observations of the state of the world.
\<close>

definition reg_contract :: "'w reg_store \<Rightarrow> ('w \<Rightarrow> u32) \<Rightarrow> ('w \<Rightarrow> nat \<Rightarrow> u32 \<times> u32) \<Rightarrow> bool" where
  "reg_contract mpu_write ctrl region \<longleftrightarrow>
     (\<forall>rbar rasr w. ctrl (mpu_write MPU_CTRL_ID rbar rasr w) = rasr \<and>
        region (mpu_write MPU_CTRL_ID rbar rasr w) = region w) \<and>
     (\<forall>rnr rbar rasr w. unat rnr < 8 \<longrightarrow> ctrl (mpu_write rnr rbar rasr w) = ctrl w \<and>
        region (mpu_write rnr rbar rasr w) = (region w)(unat rnr := (rbar, rasr)))"

text \<open>
  The access rule of the architecture: with the unit off everything is allowed; with it on
  the highest enabled region that contains the address decides, and without one only
  privileged code may go on, if the background map is enabled.
\<close>

definition region_hit :: "u32 \<times> u32 \<Rightarrow> u32 \<Rightarrow> bool" where
  "region_hit x addr \<longleftrightarrow> odd (snd x) \<and> fst x \<le> addr \<and> unat addr < unat (fst x) + rasr_region_size (snd x)"

definition map_allows :: "u32 \<Rightarrow> (nat \<Rightarrow> u32 \<times> u32) \<Rightarrow> bool \<Rightarrow> bool \<Rightarrow> u32 \<Rightarrow> bool" where
  "map_allows ctrl region privileged is_write addr =
     (if even ctrl then True
      else case List.find (\<lambda>r. region_hit (region r) addr) (rev [0..<8]) of
             Some r \<Rightarrow> ap_allows (rasr_ap (snd (region r))) privileged is_write
           | None \<Rightarrow> privileged \<and> bit ctrl 2)"

text \<open>What the table grants, by kind of access.\<close>

definition table_allows :: "region_table \<Rightarrow> u32 \<Rightarrow> bool \<Rightarrow> bool \<Rightarrow> u32 \<Rightarrow> bool" where
  "table_allows t part privileged is_write addr \<longleftrightarrow>
     (\<exists>wr up. grants t part addr wr up \<and>
        (if privileged then is_write \<longrightarrow> wr else if is_write then wr \<and> up = UNPRIV_SAME else up \<noteq> UNPRIV_NONE))"

lemma region_write_fields:
  assumes "table_inv t" and "unat part < 4" and "r < 8"
  shows "mw_rnr (region_write t part r) = of_nat r"
    and "region_hit (mw_rbar (region_write t part r), mw_rasr (region_write t part r)) addr \<longleftrightarrow>
           slot_contains t (slot_of part r) addr"
    and "rt_enabled t ! slot_of part r \<Longrightarrow>
           rasr_ap (mw_rasr (region_write t part r)) = ap_field (rt_writable t ! slot_of part r) (rt_unpriv t ! slot_of part r)"
proof -
  let ?i = "slot_of part r"
  show "mw_rnr (region_write t part r) = of_nat r" by (simp add: region_write_def Let_def)
  show "region_hit (mw_rbar (region_write t part r), mw_rasr (region_write t part r)) addr \<longleftrightarrow> slot_contains t ?i addr"
  proof (cases "rt_enabled t ! ?i")
    case True
    obtain v where "rasr_for (rt_size t ! ?i) (rt_writable t ! ?i) (rt_unpriv t ! ?i) = Some v" "odd v"
      "rasr_region_size v = unat (rt_size t ! ?i)"
      by (rule slot_rasr [OF assms(1) slot_less [OF assms(2,3)] True])
    then show ?thesis using True by (simp add: region_write_def Let_def region_hit_def slot_contains_def)
  qed (simp add: region_write_def Let_def region_hit_def slot_contains_def)
  show "rasr_ap (mw_rasr (region_write t part r)) = ap_field (rt_writable t ! ?i) (rt_unpriv t ! ?i)" if en: "rt_enabled t ! ?i"
  proof -
    obtain v where "rasr_for (rt_size t ! ?i) (rt_writable t ! ?i) (rt_unpriv t ! ?i) = Some v"
      "rasr_ap v = ap_field (rt_writable t ! ?i) (rt_unpriv t ! ?i)"
      by (rule slot_rasr [OF assms(1) slot_less [OF assms(2,3)] en])
    then show ?thesis using en by (simp add: region_write_def Let_def)
  qed
qed

lemma region_writes_effect:
  assumes "reg_contract f ctrl region" and "table_inv t" and "unat part < 4"
  shows "n \<le> 8 \<Longrightarrow> ctrl (fold (emit_write f) (map (region_write t part) [0..<n]) w) = ctrl w \<and>
    region (fold (emit_write f) (map (region_write t part) [0..<n]) w) =
      (\<lambda>r. if r < n then (mw_rbar (region_write t part r), mw_rasr (region_write t part r)) else region w r)"
proof (induction n)
  case (Suc n)
  let ?x = "region_write t part n" and ?w = "fold (emit_write f) (map (region_write t part) [0..<n]) w"
  have rnr: "mw_rnr ?x = of_nat n" "unat (of_nat n :: u32) = n"
    using Suc.prems region_write_fields(1) [OF assms(2,3), of n] by (simp_all add: unat_of_nat)
  have "ctrl (emit_write f ?x ?w) = ctrl ?w" "region (emit_write f ?x ?w) = (region ?w)(n := (mw_rbar ?x, mw_rasr ?x))"
    using assms(1) Suc.prems rnr by (simp_all add: reg_contract_def emit_write_def)
  moreover have "fold (emit_write f) (map (region_write t part) [0..<Suc n]) w = emit_write f ?x ?w" by simp
  ultimately show ?case using Suc by (auto simp: fun_eq_iff)
qed simp

definition installed :: "u32 \<Rightarrow> (nat \<Rightarrow> u32 \<times> u32) \<Rightarrow> region_table \<Rightarrow> u32 \<Rightarrow> bool" where
  "installed ctrl region t part \<longleftrightarrow> ctrl = MPU_CTRL_ENABLE \<and>
     (\<forall>r<8. region r = (mw_rbar (region_write t part r), mw_rasr (region_write t part r)))"

lemma find_cong_set: "(\<And>x. x \<in> set xs \<Longrightarrow> P x \<longleftrightarrow> Q x) \<Longrightarrow> List.find P xs = List.find Q xs"
  by (induction xs) auto

lemma installed_allows:
  assumes "installed ctrl region t part" and "table_inv t" and "unat part < 4"
  shows "map_allows ctrl region privileged is_write addr \<longleftrightarrow> table_allows t part privileged is_write addr"
proof -
  let ?find = "List.find (\<lambda>r. slot_contains t (slot_of part r) addr) (rev [0..<8])"
  have hit: "List.find (\<lambda>r. region_hit (region r) addr) (rev [0..<8]) = ?find"
    using assms(1) region_write_fields(2) [OF assms(2,3)] by (intro find_cong_set) (auto simp: installed_def)
  have on: "odd ctrl" "\<not> bit ctrl 2"
    using assms(1) by (simp_all add: installed_def MPU_CTRL_ENABLE_def bit_1_iff)
  show ?thesis
  proof (cases ?find)
    case None
    then have "\<not> grants t part addr wr up" for wr up
      by (auto simp: grants_def find_None_iff)
    then show ?thesis using None hit on by (simp add: map_allows_def table_allows_def)
  next
    case (Some r)
    then have r: "r < 8" "slot_contains t (slot_of part r) addr"
      by (auto simp: find_Some_iff rev_nth)
    let ?wr = "rt_writable t ! slot_of part r" and ?up = "rt_unpriv t ! slot_of part r"
    have en: "rt_enabled t ! slot_of part r" using r(2) by (simp add: slot_contains_def)
    have g: "grants t part addr ?wr ?up" using r by (auto simp: grants_def)
    have perm: "perm_wf ?wr ?up"
      using assms(2) en slot_less [OF assms(3) r(1)] by (simp add: table_inv_def slot_wf_def)
    have ap: "rasr_ap (snd (region r)) = ap_field ?wr ?up"
      using assms(1) r(1) region_write_fields(3) [OF assms(2,3) r(1) en] by (simp add: installed_def)
    have "table_allows t part privileged is_write addr \<longleftrightarrow>
        (if privileged then is_write \<longrightarrow> ?wr else if is_write then ?wr \<and> ?up = UNPRIV_SAME else ?up \<noteq> UNPRIV_NONE)"
      unfolding table_allows_def using g grants_unique [OF assms(2,3) g] by blast
    moreover have "map_allows ctrl region privileged is_write addr = ap_allows (ap_field ?wr ?up) privileged is_write"
      using Some hit on ap by (simp add: map_allows_def)
    ultimately show ?thesis using ap_field_allows [OF perm] by (cases privileged; cases is_write) simp_all
  qed
qed

lemma ctrl_id_write:
  assumes "reg_contract f ctrl region"
  shows "ctrl (emit_write f \<lparr>mw_rnr = MPU_CTRL_ID, mw_rbar = b, mw_rasr = v\<rparr> w) = v"
    and "region (emit_write f \<lparr>mw_rnr = MPU_CTRL_ID, mw_rbar = b, mw_rasr = v\<rparr> w) = region w"
  using assms by (simp_all add: reg_contract_def emit_write_def)

lemma switch_installs:
  assumes "reg_contract f ctrl region" and "table_inv t" and "unat part < 4"
  shows "installed (ctrl (fold (emit_write f) (switch_writes t part) w))
           (region (fold (emit_write f) (switch_writes t part) w)) t part"
  using region_writes_effect [OF assms, of 8] ctrl_id_write [OF assms(1)]
  by (simp add: switch_writes_def installed_def)

lemma switch_transient:
  assumes "reg_contract f ctrl region" and "table_inv t" and "unat part < 4" and "0 < i" and "i \<le> 9"
  shows "ctrl (fold (emit_write f) (take i (switch_writes t part)) w) = MPU_CTRL_DISABLE"
proof -
  obtain n where n: "i = Suc n" "n \<le> 8" using assms(4,5) by (cases i) auto
  have "take i (switch_writes t part) =
      \<lparr>mw_rnr = MPU_CTRL_ID, mw_rbar = 0, mw_rasr = MPU_CTRL_DISABLE\<rparr> # map (region_write t part) [0..<n]"
    using n by (simp add: switch_writes_def take_map take_upt)
  then show ?thesis
    using region_writes_effect [OF assms(1-3) n(2)] ctrl_id_write [OF assms(1)] by simp
qed

section \<open>Properties\<close>

text \<open>
  C7: The builder cannot construct a table that violates isolation. For every sequence of
  requests to an empty table, each with arbitrary arguments, the builder answers without a
  panic; the resulting table is well formed with disjoint regions per partition, the
  query covers_addr of a partition answers true for exactly the addresses of the requests
  that were accepted for it, with the permissions asked for, every accepted request is a
  valid region, and no address has two different permissions.
\<close>

theorem table_builder:
  "\<exists>oks t. build xs rt_new = Some (oks, t) \<and> length oks = length xs \<and> table_inv t \<and>
     (\<forall>x\<in>set (accepted xs oks). region_wf (rq_base x) (rq_size x) \<and> perm_wf (rq_writable x) (rq_unpriv x)) \<and>
     (\<forall>part addr. unat part < 4 \<longrightarrow>
        covers_addr part addr t = Some (\<exists>x\<in>set (accepted xs oks). \<exists>wr up. asks_for x part addr wr up) \<and>
        (\<forall>wr up. grants t part addr wr up \<longleftrightarrow> (\<exists>x\<in>set (accepted xs oks). asks_for x part addr wr up)) \<and>
        (\<forall>wr up wr' up'. grants t part addr wr up \<and> grants t part addr wr' up' \<longrightarrow> wr = wr' \<and> up = up'))"
proof -
  obtain oks t where t: "build xs rt_new = Some (oks, t)" "length oks = length xs" "table_arrays t" "table_inv t"
    and g: "\<And>p a w u. grants t p a w u \<longleftrightarrow> grants rt_new p a w u \<or> (\<exists>x\<in>set (accepted xs oks). asks_for x p a w u)"
    and wf: "\<forall>x\<in>set (accepted xs oks). region_wf (rq_base x) (rq_size x) \<and> perm_wf (rq_writable x) (rq_unpriv x)"
    using build_grants [OF rt_new_inv(1,2), of xs] by blast
  have g': "grants t p a w u \<longleftrightarrow> (\<exists>x\<in>set (accepted xs oks). asks_for x p a w u)" if "unat p < 4" for p a w u
    using g rt_new_inv(3) [OF that] by simp
  have "covers_addr p a t = Some (\<exists>x\<in>set (accepted xs oks). \<exists>wr up. asks_for x p a wr up)" if "unat p < 4" for p a
    unfolding covers_addr_eq [OF t(3) that] covers_grants g' [OF that] by blast
  with t wf g' grants_unique [OF t(4)] show ?thesis by blast
qed

theorem table_builder_witness:
  "\<exists>oks t. build [\<lparr>rq_part = 1, rq_base = 64, rq_size = 64, rq_writable = True, rq_unpriv = 2\<rparr>] rt_new = Some (oks, t) \<and>
     table_inv t \<and> length oks = 1"
  using table_builder [of "[\<lparr>rq_part = 1, rq_base = 64, rq_size = 64, rq_writable = True, rq_unpriv = 2\<rparr>]"] by auto

text \<open>
  C26: The encoded attribute register can be read back. For every valid region and
  permission pair the encoder returns without overflow a value whose enable bit is set,
  whose size field denotes the size of the region, and whose access field allows a
  privileged write exactly when the region is writable, an unprivileged read exactly when
  it is not private to the supervisor, and an unprivileged write exactly when it is
  writable and unprivileged access equals privileged access.
\<close>

theorem rasr_roundtrip:
  assumes "region_wf base sz" and "perm_wf wr up"
  shows "\<exists>v. rasr_for sz wr up = Some v \<and> odd v \<and> rasr_region_size v = unat sz \<and>
           ap_allows (rasr_ap v) True True = wr \<and> ap_allows (rasr_ap v) True False \<and>
           ap_allows (rasr_ap v) False True = (wr \<and> up = UNPRIV_SAME) \<and>
           ap_allows (rasr_ap v) False False = (up \<noteq> UNPRIV_NONE)"
proof -
  obtain v where "rasr_for sz wr up = Some v" "odd v" "rasr_region_size v = unat sz" "rasr_ap v = ap_field wr up"
    using rasr_decode [OF assms(1)] by blast
  then show ?thesis using ap_field_allows [OF assms(2)] by auto
qed

theorem rasr_roundtrip_witness:
  "\<exists>v. rasr_for 4096 True 2 = Some v \<and> rasr_region_size v = 4096 \<and> ap_allows (rasr_ap v) True True \<and>
     \<not> ap_allows (rasr_ap v) False False"
proof -
  have "region_wf 0x20000000 4096" by (auto simp: region_wf_iff intro!: exI [of _ 12])
  moreover have "perm_wf True 2" by (simp add: perm_wf_def UNPRIV_MAX_def)
  ultimately show ?thesis
    using rasr_roundtrip [of "0x20000000" 4096 True 2] by (auto simp: UNPRIV_NONE_def)
qed



end
