(* ===== verification/Switch_Probe.thy ===== *)
theory Switch_Probe
  imports Partition_Switch Mpu_Switch
begin

text \<open>
  The demonstrator that composes the partition switcher with the isolation core
  (benches/gust/src/bin/gust_switch_probe.rs): its region table, its major frame, its
  register store and its three hardware seams, of which region_swap programs the memory
  protection through the isolation core. The state is the register file of the memory
  protection unit, as the register store's contract describes it, together with the
  static variables of the demonstrator. That binary is built without overflow checks, so
  its sequence counter wraps. The semihosting output, the fault handler and the oracle
  that stops the program are not modelled.
\<close>

section \<open>Constants\<close>

abbreviation N_PARTS :: nat where
  "N_PARTS \<equiv> 3"

definition SCRATCH_BASE :: "u32 list" where
  "SCRATCH_BASE = [0x20008000, 0x20008800, 0x20009000]"

definition SCRATCH_SIZE :: u32 where
  "SCRATCH_SIZE = 0x800"

definition SCRATCH_ADDR :: "u32 list" where
  "SCRATCH_ADDR = [0x20008010, 0x20008810, 0x20009010]"

definition FLASH_BASE :: u32 where "FLASH_BASE = 0"
definition FLASH_SIZE :: u32 where "FLASH_SIZE = 0x00040000"
definition DATA_BASE :: u32 where "DATA_BASE = 0x20000000"
definition DATA_SIZE :: u32 where "DATA_SIZE = 0x00008000"
definition STACK_BASE :: u32 where "STACK_BASE = 0x2000C000"
definition STACK_SIZE :: u32 where "STACK_SIZE = 0x00004000"
definition NOBODY_ADDR :: u32 where "NOBODY_ADDR = 0x20009800"

section \<open>The region table and the frame\<close>

text \<open>A rejected grant stops the demonstrator.\<close>

definition grant :: "region_table \<Rightarrow> u32 \<Rightarrow> u32 \<Rightarrow> u32 \<Rightarrow> bool \<Rightarrow> region_table run" where
  "grant t part base sz writable = do {
     (ok, t) \<leftarrow> try_add_region part base sz writable t;
     if \<not> ok then Panic else Ret t
   }"

definition grant_partition :: "u32 \<Rightarrow> region_table \<Rightarrow> region_table run" where
  "grant_partition p t = do {
     t \<leftarrow> grant t p FLASH_BASE FLASH_SIZE False;
     t \<leftarrow> grant t p DATA_BASE DATA_SIZE True;
     t \<leftarrow> grant t p STACK_BASE STACK_SIZE True;
     b \<leftarrow> arr_get SCRATCH_BASE (unat p);
     grant t p b SCRATCH_SIZE True
   }"

definition probe_table :: "region_table run" where
  "probe_table = do {
     t \<leftarrow> grant_partition 0 rt_new;
     t \<leftarrow> grant_partition 1 t;
     grant_partition 2 t
   }"

definition probe_frame :: major_frame where
  "probe_frame = \<lparr>mf_partition_id = [0, 1, 2, 0], mf_offset = [0, 10, 20, 30], mf_budget = [10, 10, 10, 10],
     mf_frame_len = 40\<rparr>"

section \<open>The seams\<close>

text \<open>
  A region of the register file is its base and attribute register; the region number
  register selects the one that is read back. A stop of the demonstrator (its fail macro,
  or a panic) is recorded in a flag.
\<close>

record probe_state =
  pr_ctrl :: u32
  pr_rnr :: u32
  pr_region :: "nat \<Rightarrow> u32 \<times> u32"
  pr_table :: "region_table option"
  pr_seam_seq :: u32
  pr_last_save_seq :: u32
  pr_last_swap_seq :: u32
  pr_last_resume_seq :: u32
  pr_last_saved_part :: u32
  pr_current_part :: u32
  pr_resume_map_ok :: u32
  pr_stopped :: bool

definition probe_mpu_write :: "probe_state reg_store" where
  "probe_mpu_write rnr rbar rasr s =
     (if rnr = MPU_CTRL_ID then s\<lparr>pr_ctrl := rasr\<rparr>
      else s\<lparr>pr_rnr := rnr, pr_region := (pr_region s)(unat rnr := (rbar, rasr))\<rparr>)"

definition bump_seq :: "probe_state \<Rightarrow> u32 \<times> probe_state" where
  "bump_seq s = (let n = pr_seam_seq s + 1 in (n, s\<lparr>pr_seam_seq := n\<rparr>))"

definition probe_ctx_save :: "probe_state seam" where
  "probe_ctx_save part s =
     (let (n, s) = bump_seq s in (0, s\<lparr>pr_last_save_seq := n, pr_last_saved_part := part\<rparr>))"

definition probe_region_swap :: "probe_state seam" where
  "probe_region_swap part s =
     (let (n, s) = bump_seq s;
          s = s\<lparr>pr_last_swap_seq := n\<rparr>
      in case pr_table s of
           Some t \<Rightarrow> (case switch_to_partition probe_mpu_write part t s of
                        Some s' \<Rightarrow> (0, s')
                      | None \<Rightarrow> (0, s\<lparr>pr_stopped := True\<rparr>))
         | None \<Rightarrow> (0, s\<lparr>pr_stopped := True\<rparr>))"

definition read_rbar :: "probe_state \<Rightarrow> u32" where
  "read_rbar s = (fst (pr_region s (unat (pr_rnr s))) AND NOT 0x1F) OR (pr_rnr s AND 0xF)"

definition probe_ctx_resume :: "probe_state seam" where
  "probe_ctx_resume part s =
     (let (n, s) = bump_seq s;
          s = s\<lparr>pr_last_resume_seq := n\<rparr>;
          ok = (pr_ctrl s = MPU_CTRL_ENABLE);
          (ok, s) = (if unat part < N_PARTS
                     then (let s = s\<lparr>pr_rnr := 3\<rparr>
                           in (ok \<and> (read_rbar s AND NOT 0x1F) = SCRATCH_BASE ! unat part, s))
                     else (False, s));
          s = (if \<not> ok then s\<lparr>pr_resume_map_ok := 0\<rparr> else s)
      in (0, s\<lparr>pr_current_part := part\<rparr>))"

text \<open>Window 0 is brought up through the same seams.\<close>

definition probe_bring_up :: "probe_state \<Rightarrow> probe_state" where
  "probe_bring_up s = snd (probe_ctx_resume 0 (snd (probe_region_swap 0 s)))"

text \<open>The regions of a partition are the given list, in its first slots.\<close>

definition holds :: "region_table \<Rightarrow> u32 \<Rightarrow> (u32 \<times> u32 \<times> bool) list \<Rightarrow> bool" where
  "holds t p xs \<longleftrightarrow> length xs \<le> 8 \<and> (\<forall>r<8. rt_enabled t ! slot_of p r = (r < length xs)) \<and>
     (\<forall>r<length xs. rt_base t ! slot_of p r = fst (xs ! r) \<and> rt_size t ! slot_of p r = fst (snd (xs ! r)) \<and>
        rt_writable t ! slot_of p r = snd (snd (xs ! r)) \<and> rt_unpriv t ! slot_of p r = UNPRIV_SAME)"

lemma holds_first_free:
  assumes "holds t p xs" and "length xs < 8"
  shows "first_free t p = Some (length xs)"
proof -
  have "[0..<8] = [0..<length xs] @ length xs # [Suc (length xs)..<8]"
    using assms(2) upt_add_eq_append [of 0 "length xs" "8 - length xs"] by (simp add: upt_conv_Cons)
  moreover have "List.find (\<lambda>q. \<not> rt_enabled t ! slot_of p q) [0..<length xs] = None"
    using assms by (auto simp: find_None_iff holds_def)
  moreover have "List.find P (ys @ z # zs) = Some z" if "List.find P ys = None" "P z" for P :: "nat \<Rightarrow> bool" and ys z zs
    using that by (induction ys) (auto split: if_splits)
  ultimately show ?thesis
    unfolding first_free_def using assms by (simp add: holds_def)
qed

lemma grant_holds:
  assumes "table_arrays t" and "table_inv t" and "unat p < 4" and "holds t p xs" and "length xs < 8"
    and "region_wf b z" and "list_all (\<lambda>x. regions_disjoint b z (fst x) (fst (snd x))) xs"
  shows "\<exists>t'. grant t p b z wr = Some t' \<and> table_arrays t' \<and> table_inv t' \<and> holds t' p (xs @ [(b, z, wr)]) \<and>
           (\<forall>p' ys. p' \<noteq> p \<longrightarrow> holds t p' ys \<longrightarrow> holds t' p' ys)"
proof -
  let ?q = "length xs"
  let ?t = "put_region (slot_of p ?q) b z wr UNPRIV_SAME t"
  have "perm_wf wr UNPRIV_SAME" by (simp add: perm_wf_def UNPRIV_SAME_def UNPRIV_RO_def UNPRIV_MAX_def)
  then have adm: "admissible p b z wr UNPRIV_SAME t"
    using assms by (auto simp: admissible_def holds_def list_all_length)
  then have "grant t p b z wr = Some ?t"
    using try_add_region_perm_eq [OF assms(1,2), of p b z wr UNPRIV_SAME] holds_first_free [OF assms(4,5)]
    by (simp add: grant_def try_add_region_def)
  moreover note nth = put_region_nth [OF assms(1) slot_less [OF assms(3,5)]]
  have "holds ?t p (xs @ [(b, z, wr)])"
    using assms(4,5) slot_of_inject [OF assms(5), of _ p p]
    by (auto simp: holds_def nth nth_append less_Suc_eq)
  moreover have "holds ?t p' ys" if "p' \<noteq> p" "holds t p' ys" for p' ys
    using that slot_of_inject [OF assms(5), of _ p' p] by (auto simp: holds_def nth)
  ultimately show ?thesis
    using put_region_inv [OF assms(1,2) adm assms(5)] put_region_arrays [OF assms(1)] by blast
qed

text \<open>The four regions of a partition of the demonstrator.\<close>

definition partition_regions :: "u32 \<Rightarrow> (u32 \<times> u32 \<times> bool) list" where
  "partition_regions p = [(FLASH_BASE, FLASH_SIZE, False), (DATA_BASE, DATA_SIZE, True), (STACK_BASE, STACK_SIZE, True),
     (SCRATCH_BASE ! unat p, SCRATCH_SIZE, True)]"

lemmas probe_consts = FLASH_BASE_def FLASH_SIZE_def DATA_BASE_def DATA_SIZE_def STACK_BASE_def STACK_SIZE_def
  SCRATCH_BASE_def SCRATCH_SIZE_def SCRATCH_ADDR_def NOBODY_ADDR_def

lemma less_3_cases: "p < 3 \<longleftrightarrow> p = 0 \<or> p = 1 \<or> p = 2" for p :: nat
  by auto

lemma probe_regions_wf:
  "region_wf FLASH_BASE FLASH_SIZE" "region_wf DATA_BASE DATA_SIZE" "region_wf STACK_BASE STACK_SIZE"
  "unat p < 3 \<Longrightarrow> region_wf (SCRATCH_BASE ! unat p) SCRATCH_SIZE"
proof -
  have wf: "region_wf b z" if "unat z = 2 ^ k" "5 \<le> k" "k < 32" "unat b = 2 ^ k * m" "unat b + unat z < 2 ^ 32" for b z k m
    using that by (auto simp: region_wf_iff)
  show "region_wf FLASH_BASE FLASH_SIZE" by (rule wf [where k = 18 and m = 0]) (simp_all add: probe_consts)
  show "region_wf DATA_BASE DATA_SIZE" by (rule wf [where k = 15 and m = 16384]) (simp_all add: probe_consts)
  show "region_wf STACK_BASE STACK_SIZE" by (rule wf [where k = 14 and m = 32771]) (simp_all add: probe_consts)
  show "region_wf (SCRATCH_BASE ! unat p) SCRATCH_SIZE" if "unat p < 3"
    by (rule wf [where k = 11 and m = "262160 + unat p"]) (use that in \<open>auto simp: probe_consts less_3_cases\<close>)
qed

lemma grant_partition_holds:
  assumes "table_arrays t" and "table_inv t" and "unat p < 3" and "holds t p []"
  shows "\<exists>t'. grant_partition p t = Some t' \<and> table_arrays t' \<and> table_inv t' \<and> holds t' p (partition_regions p) \<and>
           (\<forall>p' ys. p' \<noteq> p \<longrightarrow> holds t p' ys \<longrightarrow> holds t' p' ys)"
proof -
  let ?F = "(FLASH_BASE, FLASH_SIZE, False)" and ?D = "(DATA_BASE, DATA_SIZE, True)" and ?S = "(STACK_BASE, STACK_SIZE, True)"
  have p: "unat p < 4" using assms(3) by simp
  obtain t1 where t1: "grant t p FLASH_BASE FLASH_SIZE False = Some t1" "table_arrays t1" "table_inv t1" "holds t1 p [?F]"
    "\<And>p' ys. p' \<noteq> p \<Longrightarrow> holds t p' ys \<Longrightarrow> holds t1 p' ys"
    using grant_holds [OF assms(1,2) p assms(4) _ probe_regions_wf(1), of False] by auto
  obtain t2 where t2: "grant t1 p DATA_BASE DATA_SIZE True = Some t2" "table_arrays t2" "table_inv t2" "holds t2 p [?F, ?D]"
    "\<And>p' ys. p' \<noteq> p \<Longrightarrow> holds t1 p' ys \<Longrightarrow> holds t2 p' ys"
    using grant_holds [OF t1(2,3) p t1(4) _ probe_regions_wf(2), of True] by (auto simp: regions_disjoint_def probe_consts)
  obtain t3 where t3: "grant t2 p STACK_BASE STACK_SIZE True = Some t3" "table_arrays t3" "table_inv t3" "holds t3 p [?F, ?D, ?S]"
    "\<And>p' ys. p' \<noteq> p \<Longrightarrow> holds t2 p' ys \<Longrightarrow> holds t3 p' ys"
    using grant_holds [OF t2(2,3) p t2(4) _ probe_regions_wf(3), of True] by (auto simp: regions_disjoint_def probe_consts)
  have "list_all (\<lambda>x. regions_disjoint (SCRATCH_BASE ! unat p) SCRATCH_SIZE (fst x) (fst (snd x))) [?F, ?D, ?S]"
    using assms(3) by (auto simp: regions_disjoint_def probe_consts less_3_cases)
  then obtain t4 where t4: "grant t3 p (SCRATCH_BASE ! unat p) SCRATCH_SIZE True = Some t4" "table_arrays t4" "table_inv t4"
    "holds t4 p (partition_regions p)" "\<And>p' ys. p' \<noteq> p \<Longrightarrow> holds t3 p' ys \<Longrightarrow> holds t4 p' ys"
    using grant_holds [OF t3(2,3) p t3(4) _ probe_regions_wf(4) [OF assms(3)], of True] by (auto simp: partition_regions_def)
  have "arr_get SCRATCH_BASE (unat p) = Some (SCRATCH_BASE ! unat p)"
    using assms(3) by (simp add: arr_get_def SCRATCH_BASE_def)
  then have "grant_partition p t = Some t4"
    using t1(1) t2(1) t3(1) t4(1) by (simp add: grant_partition_def)
  then show ?thesis using t1(5) t2(5) t3(5) t4(2-5) by blast
qed

lemma probe_table_holds:
  "\<exists>t. probe_table = Some t \<and> table_arrays t \<and> table_inv t \<and> (\<forall>p. unat p < 3 \<longrightarrow> holds t p (partition_regions p))"
proof -
  have new: "holds rt_new p []" if "unat p < 4" for p
    using slot_less [OF that] by (simp add: holds_def rt_new_def)
  obtain t1 where t1: "grant_partition 0 rt_new = Some t1" "table_arrays t1" "table_inv t1" "holds t1 0 (partition_regions 0)"
    "\<And>p' ys. p' \<noteq> 0 \<Longrightarrow> holds rt_new p' ys \<Longrightarrow> holds t1 p' ys"
    using grant_partition_holds [OF rt_new_inv(1,2) _ new, of 0] by auto
  obtain t2 where t2: "grant_partition 1 t1 = Some t2" "table_arrays t2" "table_inv t2" "holds t2 1 (partition_regions 1)"
    "\<And>p' ys. p' \<noteq> 1 \<Longrightarrow> holds t1 p' ys \<Longrightarrow> holds t2 p' ys"
    using grant_partition_holds [OF t1(2,3), of 1] t1(5) [of 1] new [of 1] by auto
  have "holds t2 2 []" using t2(5) [of 2] t1(5) [of 2] new [of 2] by simp
  then obtain t3 where t3: "grant_partition 2 t2 = Some t3" "table_arrays t3" "table_inv t3" "holds t3 2 (partition_regions 2)"
    "\<And>p' ys. p' \<noteq> 2 \<Longrightarrow> holds t2 p' ys \<Longrightarrow> holds t3 p' ys"
    using grant_partition_holds [OF t2(2,3), of 2] by auto
  have "holds t3 p (partition_regions p)" if "unat p < 3" for p
  proof -
    have "p = 0 \<or> p = 1 \<or> p = 2" using that by (auto simp: less_3_cases word_unat_eq_iff)
    then show ?thesis using t1(4) t2(4,5) t3(4,5) by auto
  qed
  then show ?thesis using t1(1) t2(1) t3(1-3) by (simp add: probe_table_def)
qed

section \<open>The seams install the map of the incoming partition\<close>

lemma probe_contract: "reg_contract probe_mpu_write pr_ctrl pr_region"
  by (auto simp: reg_contract_def probe_mpu_write_def MPU_CTRL_ID_def)

text \<open>Everything the register writes leave alone.\<close>

definition same_statics :: "probe_state \<Rightarrow> probe_state \<Rightarrow> bool" where
  "same_statics s s' \<longleftrightarrow> pr_table s' = pr_table s \<and> pr_current_part s' = pr_current_part s \<and>
     pr_resume_map_ok s' = pr_resume_map_ok s \<and> pr_stopped s' = pr_stopped s"

lemma writes_same_statics: "same_statics s (fold (emit_write probe_mpu_write) ws s)"
proof (induction ws rule: rev_induct)
  case (snoc x ws)
  then show ?case by (simp add: same_statics_def emit_write_def probe_mpu_write_def)
qed (simp add: same_statics_def)

definition maps :: "region_table \<Rightarrow> u32 \<Rightarrow> probe_state \<Rightarrow> bool" where
  "maps t p s \<longleftrightarrow> pr_table s = Some t \<and> installed (pr_ctrl s) (pr_region s) t p \<and> pr_resume_map_ok s = 1 \<and> \<not> pr_stopped s"

lemma region_swap_maps:
  assumes "table_arrays t" and "table_inv t" and "unat p < 4"
    and "pr_table s = Some t" and "pr_resume_map_ok s = 1" and "\<not> pr_stopped s"
  shows "maps t p (snd (probe_region_swap p s))"
proof -
  let ?s = "s\<lparr>pr_seam_seq := pr_seam_seq s + 1, pr_last_swap_seq := pr_seam_seq s + 1\<rparr>"
  let ?s' = "fold (emit_write probe_mpu_write) (switch_writes t p) ?s"
  have "snd (probe_region_swap p s) = ?s'"
    using assms(4) switch_to_partition_eq [OF assms(1-3), of probe_mpu_write]
    by (simp add: probe_region_swap_def bump_seq_def Let_def)
  then show ?thesis
    using switch_installs [OF probe_contract assms(2,3), of ?s] writes_same_statics [of ?s "switch_writes t p"] assms(4-6)
    by (simp add: maps_def same_statics_def)
qed

lemma scratch_aligned:
  assumes "p < 3"
  shows "(((SCRATCH_BASE ! p AND NOT 0x1F) OR ((3 :: u32) AND 0xF)) AND NOT 0x1F) = SCRATCH_BASE ! p"
  using assms by (auto simp: less_3_cases SCRATCH_BASE_def)

lemma ctx_resume_maps:
  assumes "table_inv t" and "unat p < 3" and "holds t p (partition_regions p)" and "maps t p s"
  shows "maps t p (snd (probe_ctx_resume p s)) \<and> pr_current_part (snd (probe_ctx_resume p s)) = p"
proof -
  have three: "slot_of p 3 = unat p * 8 + 3" by (simp add: slot_of_def)
  have "rt_enabled t ! slot_of p 3" "rt_base t ! slot_of p 3 = SCRATCH_BASE ! unat p"
    using assms(3) by (auto simp: holds_def partition_regions_def)
  then have "mw_rbar (region_write t p 3) = SCRATCH_BASE ! unat p"
    by (simp add: region_write_def Let_def)
  then have "fst (pr_region s 3) = SCRATCH_BASE ! unat p" "pr_ctrl s = MPU_CTRL_ENABLE"
    using assms(4) by (simp_all add: maps_def installed_def)
  then show ?thesis
    using assms(2,4) scratch_aligned [OF assms(2)]
    by (simp add: probe_ctx_resume_def bump_seq_def Let_def read_rbar_def maps_def)
qed

lemma ctx_save_keeps: "maps t p s \<Longrightarrow> maps t p (snd (probe_ctx_save q s))"
  by (simp add: maps_def probe_ctx_save_def bump_seq_def Let_def)

lemma swap_resume_maps:
  assumes "table_arrays t" and "table_inv t" and "unat p < 3" and "holds t p (partition_regions p)"
    and "pr_table s = Some t" and "pr_resume_map_ok s = 1" and "\<not> pr_stopped s"
  shows "maps t p (snd (probe_ctx_resume p (snd (probe_region_swap p s)))) \<and>
         pr_current_part (snd (probe_ctx_resume p (snd (probe_region_swap p s)))) = p"
  using region_swap_maps [OF assms(1,2) _ assms(5-7), of p] ctx_resume_maps [OF assms(2-4)] assms(3) by simp

section \<open>Isolation in space and time\<close>

lemma holds_slot:
  assumes "holds t p xs" and "r < 8"
  shows "slot_contains t (slot_of p r) addr \<longleftrightarrow>
           r < length xs \<and> fst (xs ! r) \<le> addr \<and> unat addr < unat (fst (xs ! r)) + unat (fst (snd (xs ! r)))"
    and "r < length xs \<Longrightarrow> rt_writable t ! slot_of p r = snd (snd (xs ! r))"
    and "r < length xs \<Longrightarrow> rt_unpriv t ! slot_of p r = UNPRIV_SAME"
  using assms unfolding holds_def slot_contains_def by fastforce+

lemma holds_grants:
  assumes "holds t p xs"
  shows "grants t p addr w u \<longleftrightarrow>
           u = UNPRIV_SAME \<and> (\<exists>x\<in>set xs. fst x \<le> addr \<and> unat addr < unat (fst x) + unat (fst (snd x)) \<and> snd (snd x) = w)"
    (is "?L \<longleftrightarrow> ?R")
proof
  assume ?L
  then obtain r where r: "r < 8" "slot_contains t (slot_of p r) addr" "rt_writable t ! slot_of p r = w"
      "rt_unpriv t ! slot_of p r = u"
    unfolding grants_def by blast
  then have "r < length xs" using holds_slot(1) [OF assms] by blast
  moreover have "xs ! r \<in> set xs" using calculation by simp
  ultimately show ?R using r holds_slot [OF assms r(1)] by blast
next
  assume R: ?R
  then obtain x where x: "x \<in> set xs" "fst x \<le> addr" "unat addr < unat (fst x) + unat (fst (snd x))" "snd (snd x) = w"
    by blast
  then obtain r where r: "r < length xs" "xs ! r = x" by (auto simp: in_set_conv_nth)
  then have r8: "r < 8" using assms by (simp add: holds_def)
  then show ?L
    unfolding grants_def using R x r holds_slot [OF assms r8] by blast
qed

lemma holds_allows:
  assumes "holds t p xs"
  shows "table_allows t p privileged is_write addr \<longleftrightarrow>
           list_ex (\<lambda>x. fst x \<le> addr \<and> unat addr < unat (fst x) + unat (fst (snd x)) \<and> (is_write \<longrightarrow> snd (snd x))) xs"
    (is "?L \<longleftrightarrow> ?R")
proof
  assume ?L
  then obtain w u where "grants t p addr w u" "is_write \<longrightarrow> w"
    unfolding table_allows_def by (auto split: if_splits)
  then show ?R unfolding holds_grants [OF assms] list_ex_iff by blast
next
  assume ?R
  then obtain x where "x \<in> set xs" "fst x \<le> addr" "unat addr < unat (fst x) + unat (fst (snd x))" "is_write \<longrightarrow> snd (snd x)"
    unfolding list_ex_iff by blast
  then have "grants t p addr (snd (snd x)) UNPRIV_SAME" "is_write \<longrightarrow> snd (snd x)"
    unfolding holds_grants [OF assms] by blast+
  moreover have "UNPRIV_SAME \<noteq> UNPRIV_NONE" by (simp add: UNPRIV_SAME_def UNPRIV_NONE_def)
  ultimately show ?L unfolding table_allows_def by metis
qed

lemma regions_of_probe:
  assumes "unat p < 3" and "q < 3"
  shows "list_ex (\<lambda>x. fst x \<le> SCRATCH_ADDR ! q \<and> unat (SCRATCH_ADDR ! q) < unat (fst x) + unat (fst (snd x)) \<and>
           (is_write \<longrightarrow> snd (snd x))) (partition_regions p) \<longleftrightarrow> q = unat p"
    and "\<not> list_ex (\<lambda>x. fst x \<le> NOBODY_ADDR \<and> unat NOBODY_ADDR < unat (fst x) + unat (fst (snd x)) \<and>
           (is_write \<longrightarrow> snd (snd x))) (partition_regions p)"
proof -
  have "p = 0 \<or> p = 1 \<or> p = 2" using assms(1) by (auto simp: less_3_cases word_unat_eq_iff)
  moreover have "q = 0 \<or> q = 1 \<or> q = 2" using assms(2) by auto
  ultimately show "list_ex (\<lambda>x. fst x \<le> SCRATCH_ADDR ! q \<and> unat (SCRATCH_ADDR ! q) < unat (fst x) + unat (fst (snd x)) \<and>
      (is_write \<longrightarrow> snd (snd x))) (partition_regions p) \<longleftrightarrow> q = unat p"
    by (elim disjE) (simp_all add: partition_regions_def probe_consts)
  show "\<not> list_ex (\<lambda>x. fst x \<le> NOBODY_ADDR \<and> unat NOBODY_ADDR < unat (fst x) + unat (fst (snd x)) \<and>
      (is_write \<longrightarrow> snd (snd x))) (partition_regions p)"
    using \<open>p = 0 \<or> p = 1 \<or> p = 2\<close> by (elim disjE) (simp_all add: partition_regions_def probe_consts)
qed

lemma probe_access:
  assumes "table_inv t" and "unat p < 3" and "holds t p (partition_regions p)" and "maps t p s" and "q < 3"
  shows "map_allows (pr_ctrl s) (pr_region s) privileged is_write (SCRATCH_ADDR ! q) \<longleftrightarrow> q = unat p"
    and "\<not> map_allows (pr_ctrl s) (pr_region s) privileged is_write NOBODY_ADDR"
proof -
  have p4: "unat p < 4" using assms(2) by simp
  have inst: "installed (pr_ctrl s) (pr_region s) t p" using assms(4) by (simp add: maps_def)
  show "map_allows (pr_ctrl s) (pr_region s) privileged is_write (SCRATCH_ADDR ! q) \<longleftrightarrow> q = unat p"
    "\<not> map_allows (pr_ctrl s) (pr_region s) privileged is_write NOBODY_ADDR"
    unfolding installed_allows [OF inst assms(1) p4] holds_allows [OF assms(3)]
    by (rule regions_of_probe [OF assms(2,5)])+
qed

text \<open>The state after k switches.\<close>

definition after_switches :: "nat \<Rightarrow> probe_state \<Rightarrow> probe_state" where
  "after_switches k s =
     fold (switch_effect probe_ctx_save probe_region_swap probe_ctx_resume probe_frame) [0..<k] (probe_bring_up s)"

lemma probe_frame_ids: "mf_partition_id probe_frame = [0, 1, 2, 0]"
  by (simp add: probe_frame_def)

lemma probe_id_less: "unat (mf_partition_id probe_frame ! (k mod 4)) < 3"
proof -
  have "k mod 4 < 4" by simp
  then show ?thesis by (auto simp: less_4_cases probe_frame_ids)
qed

lemma after_switches_maps:
  assumes "table_arrays t" and "table_inv t" and "\<And>p. unat p < 3 \<Longrightarrow> holds t p (partition_regions p)"
    and "pr_table s = Some t" and "pr_resume_map_ok s = 1" and "\<not> pr_stopped s"
  shows "maps t (mf_partition_id probe_frame ! (k mod 4)) (after_switches k s) \<and>
         pr_current_part (after_switches k s) = mf_partition_id probe_frame ! (k mod 4)"
proof (induction k)
  case 0
  then show ?case
    using swap_resume_maps [OF assms(1,2) _ assms(3) assms(4-6), of 0] by (simp add: after_switches_def probe_bring_up_def probe_frame_ids)
next
  case (Suc k)
  let ?s = "after_switches k s" and ?out = "mf_partition_id probe_frame ! (k mod 4)"
  let ?inc = "mf_partition_id probe_frame ! (Suc k mod 4)"
  have saved: "maps t ?out (snd (probe_ctx_save ?out ?s))" using Suc.IH by (simp add: ctx_save_keeps)
  have "after_switches (Suc k) s =
      snd (probe_ctx_resume ?inc (snd (probe_region_swap ?inc (snd (probe_ctx_save ?out ?s)))))"
    by (simp add: after_switches_def switch_effect_def Let_def)
  then show ?case
    using swap_resume_maps [OF assms(1,2) probe_id_less [of "Suc k"] assms(3) [OF probe_id_less [of "Suc k"]],
        of "snd (probe_ctx_save ?out ?s)"] saved
    by (simp add: maps_def)
qed

lemma probe_window: "win_of probe_frame (n mod 40) = n mod 40 div 10"
proof -
  have "n mod 40 < 40" by simp
  then show ?thesis by (auto simp: win_of_def probe_frame_def)
qed

lemma probe_frame_ok: "frame_arrays probe_frame" "frame_inv probe_frame" "unat (mf_frame_len probe_frame) = 40"
  by (simp_all add: probe_frame_def frame_arrays_def frame_inv_def win_end_def)

section \<open>Properties\<close>

text \<open>
  C1: Isolation in space and time, end to end. The table of the demonstrator is built
  without a rejected grant. After the bring-up of window 0, before every tick n the
  frame runs without a panic or stop, the running partition is the owner of the window
  that contains n modulo 40, the read-back of the region registers succeeded at every
  resume, and the registers let the running partition, privileged or not, read and write
  its own scratch word and deny it the scratch words of the other partitions and the word
  granted to nobody.
\<close>

theorem space_time_isolation:
  assumes "pr_table s = probe_table" and "pr_resume_map_ok s = 1" and "\<not> pr_stopped s"
  shows "\<exists>sw s'. frame_run probe_ctx_save probe_region_swap probe_ctx_resume probe_frame n (probe_bring_up s) = Some (sw, s') \<and>
           \<not> pr_stopped s' \<and> pr_resume_map_ok s' = 1 \<and>
           pr_current_part s' = mf_partition_id probe_frame ! (n mod 40 div 10) \<and> unat (sw_cur sw) = n mod 40 div 10 \<and>
           (\<forall>q<3. \<forall>privileged is_write.
              map_allows (pr_ctrl s') (pr_region s') privileged is_write (SCRATCH_ADDR ! q) \<longleftrightarrow> q = unat (pr_current_part s')) \<and>
           (\<forall>privileged is_write. \<not> map_allows (pr_ctrl s') (pr_region s') privileged is_write NOBODY_ADDR)"
proof -
  obtain t where t: "probe_table = Some t" "table_arrays t" "table_inv t" "\<And>p. unat p < 3 \<Longrightarrow> holds t p (partition_regions p)"
    using probe_table_holds by blast
  let ?k = "switches probe_frame n" and ?c = "n mod 40 div 10"
  have k: "?k mod 4 = ?c"
    using switches_mod [of probe_frame n] by (simp add: probe_frame_ok(3) probe_window)
  obtain b where run: "frame_run probe_ctx_save probe_region_swap probe_ctx_resume probe_frame n (probe_bring_up s) =
      Some (\<lparr>sw_frame = probe_frame, sw_cur = of_nat ?c, sw_phase = Running_window, sw_swapped = b\<rparr>, after_switches ?k s)"
    using frame_run_eq [OF probe_frame_ok(1,2), of probe_ctx_save probe_region_swap probe_ctx_resume n "probe_bring_up s"]
    unfolding probe_frame_ok(3) probe_window after_switches_def by (rule exE)
  have maps: "maps t (mf_partition_id probe_frame ! ?c) (after_switches ?k s)"
    "pr_current_part (after_switches ?k s) = mf_partition_id probe_frame ! ?c"
    using after_switches_maps [OF t(2,3,4), of s ?k] assms t(1) unfolding k by auto
  have p: "unat (mf_partition_id probe_frame ! ?c) < 3" using probe_id_less [of ?k] unfolding k .
  have "unat (of_nat ?c :: u32) = ?c"
  proof -
    have "?c < 4" by (simp add: less_mult_imp_div_less)
    then show ?thesis by (simp add: unat_of_nat)
  qed
  then show ?thesis
    using run maps probe_access(1) [OF t(3) p t(4) [OF p] maps(1)] probe_access(2) [OF t(3) p t(4) [OF p] maps(1), of 0]
    by (auto simp: maps_def)
qed

theorem space_time_isolation_witness:
  "\<exists>sw s'. frame_run probe_ctx_save probe_region_swap probe_ctx_resume probe_frame 15
     (probe_bring_up \<lparr>pr_ctrl = 0, pr_rnr = 0, pr_region = (\<lambda>r. (0, 0)), pr_table = probe_table, pr_seam_seq = 0,
        pr_last_save_seq = 0, pr_last_swap_seq = 0, pr_last_resume_seq = 0, pr_last_saved_part = 0xFFFFFFFF,
        pr_current_part = 0xFFFFFFFF, pr_resume_map_ok = 1, pr_stopped = False\<rparr>) = Some (sw, s') \<and>
     pr_current_part s' = 1 \<and> map_allows (pr_ctrl s') (pr_region s') False True 0x20008810 \<and>
     \<not> map_allows (pr_ctrl s') (pr_region s') True True 0x20008010"
proof -
  let ?s = "\<lparr>pr_ctrl = 0, pr_rnr = 0, pr_region = (\<lambda>r. (0, 0)), pr_table = probe_table, pr_seam_seq = 0,
        pr_last_save_seq = 0, pr_last_swap_seq = 0, pr_last_resume_seq = 0, pr_last_saved_part = 0xFFFFFFFF,
        pr_current_part = 0xFFFFFFFF, pr_resume_map_ok = 1, pr_stopped = False\<rparr>"
  obtain sw s' where r: "frame_run probe_ctx_save probe_region_swap probe_ctx_resume probe_frame 15 (probe_bring_up ?s) = Some (sw, s')"
    "pr_current_part s' = mf_partition_id probe_frame ! (15 mod 40 div 10)"
    and a: "\<And>q privileged is_write. q < 3 \<Longrightarrow>
      map_allows (pr_ctrl s') (pr_region s') privileged is_write (SCRATCH_ADDR ! q) \<longleftrightarrow> q = unat (pr_current_part s')"
    using space_time_isolation [of ?s 15] by auto
  have "pr_current_part s' = 1" using r(2) by (simp add: probe_frame_def)
  then show ?thesis
    using r(1) a [of 1 False True] a [of 0 True True] by (auto simp: SCRATCH_ADDR_def)
qed

end
