(* ===== verification/Health_Monitor.thy ===== *)
theory Health_Monitor
  imports Gale_Base
begin

text \<open>
  The health monitor (src/health_monitor.rs): seven gates over one observation, and the
  failsafe state machine with a restart budget that only a quiet interval replenishes.
  Signed 32-bit observations are words read with \<^const>\<open>sint\<close>; the vote computes with
  64-bit differences, checked for overflow.
\<close>

section \<open>Faults and observations\<close>

definition MAX_RESTARTS :: u32 where
  "MAX_RESTARTS = 3"

definition COOLDOWN_QUIET :: u32 where
  "COOLDOWN_QUIET = 4"

datatype hm_state = HM_Normal | HM_Degraded | PartitionFailsafe | CrossCoreTrip

datatype fault = Stale | Implausible | Diverged | BudgetOverrun | DeadlineMiss | HeartbeatLoss | VoteMismatch

record obs =
  age_ms :: u32
  limit_ms :: u32
  obs_value :: "32 word"
  obs_lo :: "32 word"
  obs_hi :: "32 word"
  innov_abs :: u32
  k_sigma :: u32
  used_us :: u32
  budget_us :: u32
  lateness_us :: u32
  missed_beats :: u32
  obs_s0 :: "32 word"
  obs_s1 :: "32 word"
  obs_s2 :: "32 word"
  vote_tol :: "32 word"

section \<open>Gates\<close>

definition fresh :: "u32 \<Rightarrow> u32 \<Rightarrow> bool" where
  "fresh age limit \<longleftrightarrow> age \<le> limit"

definition plausible :: "32 word \<Rightarrow> 32 word \<Rightarrow> 32 word \<Rightarrow> bool" where
  "plausible v lo hi \<longleftrightarrow> sint lo \<le> sint v \<and> sint v \<le> sint hi"

definition innovation_ok :: "u32 \<Rightarrow> u32 \<Rightarrow> bool" where
  "innovation_ok innov k \<longleftrightarrow> innov \<le> k"

definition budget_ok :: "u32 \<Rightarrow> u32 \<Rightarrow> bool" where
  "budget_ok used budget \<longleftrightarrow> used \<le> budget"

definition deadline_ok :: "u32 \<Rightarrow> bool" where
  "deadline_ok lateness \<longleftrightarrow> lateness = 0"

definition heartbeat_ok :: "u32 \<Rightarrow> bool" where
  "heartbeat_ok missed \<longleftrightarrow> missed = 0"

text \<open>A 64-bit signed operation panics when its result leaves the type.\<close>

definition i64_chk :: "int \<Rightarrow> int run" where
  "i64_chk x = (if - (2 ^ 63) \<le> x \<and> x < 2 ^ 63 then Ret x else Panic)"

definition abs_i64 :: "int \<Rightarrow> int run" where
  "abs_i64 d = (if 0 \<le> d then Ret d else i64_chk (- d))"

definition vote_ok :: "32 word \<Rightarrow> 32 word \<Rightarrow> 32 word \<Rightarrow> 32 word \<Rightarrow> bool run" where
  "vote_ok s0 s1 s2 tol = do {
     let t = sint tol;
     d01 \<leftarrow> i64_chk (sint s0 - sint s1);
     d02 \<leftarrow> i64_chk (sint s0 - sint s2);
     d12 \<leftarrow> i64_chk (sint s1 - sint s2);
     e01 \<leftarrow> abs_i64 d01;
     e02 \<leftarrow> abs_i64 d02;
     e12 \<leftarrow> abs_i64 d12;
     let a01 = (e01 \<le> t);
     let a02 = (e02 \<le> t);
     let a12 = (e12 \<le> t);
     Ret (a01 \<and> a02 \<or> a01 \<and> a12 \<or> a02 \<and> a12)
   }"

definition gate_eval :: "fault \<Rightarrow> obs \<Rightarrow> bool run" where
  "gate_eval cause ob =
     (case cause of
        Stale \<Rightarrow> Ret (fresh (age_ms ob) (limit_ms ob))
      | Implausible \<Rightarrow> Ret (plausible (obs_value ob) (obs_lo ob) (obs_hi ob))
      | Diverged \<Rightarrow> Ret (innovation_ok (innov_abs ob) (k_sigma ob))
      | BudgetOverrun \<Rightarrow> Ret (budget_ok (used_us ob) (budget_us ob))
      | DeadlineMiss \<Rightarrow> Ret (deadline_ok (lateness_us ob))
      | HeartbeatLoss \<Rightarrow> Ret (heartbeat_ok (missed_beats ob))
      | VoteMismatch \<Rightarrow> vote_ok (obs_s0 ob) (obs_s1 ob) (obs_s2 ob) (vote_tol ob))"

definition all_clear :: "obs \<Rightarrow> bool run" where
  "all_clear ob =
     (if fresh (age_ms ob) (limit_ms ob) \<and> plausible (obs_value ob) (obs_lo ob) (obs_hi ob) \<and>
         innovation_ok (innov_abs ob) (k_sigma ob) \<and> budget_ok (used_us ob) (budget_us ob) \<and>
         deadline_ok (lateness_us ob) \<and> heartbeat_ok (missed_beats ob)
      then vote_ok (obs_s0 ob) (obs_s1 ob) (obs_s2 ob) (vote_tol ob)
      else Ret False)"

section \<open>The failsafe state machine\<close>

record hm =
  hm_state :: hm_state
  hm_cause :: fault
  restarts_remaining :: u32
  quiet_streak :: u32

definition hm_inv :: "hm \<Rightarrow> bool" where
  "hm_inv h \<longleftrightarrow> restarts_remaining h \<le> MAX_RESTARTS \<and> (hm_state h = HM_Degraded \<longrightarrow> 1 \<le> restarts_remaining h) \<and>
     quiet_streak h < COOLDOWN_QUIET \<and> (hm_state h \<noteq> HM_Normal \<longrightarrow> quiet_streak h = 0)"

definition hm_init :: hm where
  "hm_init = \<lparr>hm_state = HM_Normal, hm_cause = HeartbeatLoss, restarts_remaining = MAX_RESTARTS, quiet_streak = 0\<rparr>"

definition on_fault :: "fault \<Rightarrow> hm \<Rightarrow> hm run" where
  "on_fault f h =
     (if hm_state h = HM_Normal then
        (let h = h\<lparr>hm_cause := f, quiet_streak := 0\<rparr> in
         if 1 \<le> restarts_remaining h then Ret (h\<lparr>hm_state := HM_Degraded\<rparr>)
         else Ret (h\<lparr>hm_state := PartitionFailsafe\<rparr>))
      else if hm_state h = HM_Degraded then
        (if restarts_remaining h \<le> 1 then Ret (h\<lparr>hm_state := PartitionFailsafe, restarts_remaining := 0\<rparr>)
         else do { n \<leftarrow> sub_chk (restarts_remaining h) 1; Ret (h\<lparr>restarts_remaining := n\<rparr>) })
      else if hm_state h = PartitionFailsafe then
        (if f = HeartbeatLoss \<or> f = BudgetOverrun then Ret (h\<lparr>hm_state := CrossCoreTrip, restarts_remaining := 0\<rparr>)
         else Ret h)
      else Ret h)"

definition try_restart :: "obs \<Rightarrow> hm \<Rightarrow> (bool \<times> hm) run" where
  "try_restart ob h =
     (if hm_state h = HM_Degraded \<and> 1 \<le> restarts_remaining h then do {
        c \<leftarrow> all_clear ob;
        if c then do {
          n \<leftarrow> sub_chk (restarts_remaining h) 1;
          Ret (True, h\<lparr>hm_state := HM_Normal, restarts_remaining := n, quiet_streak := 0\<rparr>)
        }
        else Ret (False, h)
      }
      else Ret (False, h))"

definition on_quiet :: "obs \<Rightarrow> hm \<Rightarrow> hm run" where
  "on_quiet ob h =
     (if hm_state h = HM_Normal then do {
        c \<leftarrow> all_clear ob;
        if c then do {
          q \<leftarrow> add_chk (quiet_streak h) 1;
          if COOLDOWN_QUIET \<le> q then Ret (h\<lparr>restarts_remaining := MAX_RESTARTS, quiet_streak := 0\<rparr>)
          else Ret (h\<lparr>quiet_streak := q\<rparr>)
        }
        else Ret (h\<lparr>quiet_streak := 0\<rparr>)
      }
      else Ret h)"

definition is_failsafe_latched :: "hm \<Rightarrow> bool" where
  "is_failsafe_latched h \<longleftrightarrow> hm_state h = PartitionFailsafe \<or> hm_state h = CrossCoreTrip"

text \<open>The events a caller can present, and runs of them with the restarts that were accepted.\<close>

datatype hm_event = Ev_fault fault | Ev_restart obs | Ev_quiet obs

fun hm_step :: "hm_event \<Rightarrow> hm \<Rightarrow> (bool \<times> hm) run" where
  "hm_step (Ev_fault f) h = do { h \<leftarrow> on_fault f h; Ret (False, h) }"
| "hm_step (Ev_restart ob) h = try_restart ob h"
| "hm_step (Ev_quiet ob) h = do { h \<leftarrow> on_quiet ob h; Ret (False, h) }"

primrec hm_run :: "hm_event list \<Rightarrow> hm \<Rightarrow> (nat \<times> hm) run" where
  "hm_run [] h = Ret (0, h)"
| "hm_run (e # es) h = do {
     (acc, h) \<leftarrow> hm_step e h;
     (n, h) \<leftarrow> hm_run es h;
     Ret ((if acc then n + 1 else n), h)
   }"

section \<open>The gates never panic\<close>

definition agree :: "32 word \<Rightarrow> 32 word \<Rightarrow> 32 word \<Rightarrow> bool" where
  "agree a b tol \<longleftrightarrow> \<bar>sint a - sint b\<bar> \<le> sint tol"

lemma sint_range: "- 2147483648 \<le> sint (w :: 32 word)" "sint (w :: 32 word) < 2147483648"
  using sint_greater_eq [of w] sint_less [of w] by simp_all

lemma vote_ok_eq:
  "vote_ok s0 s1 s2 tol =
     Some (agree s0 s1 tol \<and> agree s0 s2 tol \<or> agree s0 s1 tol \<and> agree s1 s2 tol \<or> agree s0 s2 tol \<and> agree s1 s2 tol)"
proof -
  have d: "i64_chk (sint a - sint b) = Some (sint a - sint b)" for a b :: "32 word"
    using sint_range [of a] sint_range [of b] by (simp add: i64_chk_def)
  have e: "abs_i64 (sint a - sint b) = Some \<bar>sint a - sint b\<bar>" for a b :: "32 word"
    using sint_range [of a] sint_range [of b] by (auto simp: abs_i64_def i64_chk_def)
  show ?thesis by (simp add: vote_ok_def d e agree_def Let_def)
qed

definition gates_clear :: "obs \<Rightarrow> bool" where
  "gates_clear ob \<longleftrightarrow> (\<forall>f. gate_eval f ob = Some True)"

lemma all_clear_eq: "all_clear ob = Some (gates_clear ob)"
proof -
  have "(\<forall>f. P f) \<longleftrightarrow> P Stale \<and> P Implausible \<and> P Diverged \<and> P BudgetOverrun \<and> P DeadlineMiss \<and> P HeartbeatLoss \<and> P VoteMismatch"
    for P by (metis fault.exhaust)
  then show ?thesis by (auto simp: all_clear_def gates_clear_def gate_eval_def vote_ok_eq)
qed

section \<open>One event\<close>

text \<open>Restart capacity in units of the cooldown, and the number of faults that still fit.\<close>

definition pot :: "hm \<Rightarrow> nat" where
  "pot h = 4 * unat (restarts_remaining h) + 3 * unat (quiet_streak h)"

fun quiet_clear :: "hm_event \<Rightarrow> nat" where
  "quiet_clear (Ev_quiet ob) = (if gates_clear ob then 1 else 0)"
| "quiet_clear (Ev_fault f) = 0"
| "quiet_clear (Ev_restart ob) = 0"

definition phi :: "hm \<Rightarrow> nat" where
  "phi h = (case hm_state h of
              HM_Normal \<Rightarrow> unat (restarts_remaining h) + 2
            | HM_Degraded \<Rightarrow> unat (restarts_remaining h) + 1
            | PartitionFailsafe \<Rightarrow> 1
            | CrossCoreTrip \<Rightarrow> 0)"

lemma hm_inv_iff:
  "hm_inv h \<longleftrightarrow> unat (restarts_remaining h) \<le> 3 \<and> (hm_state h = HM_Degraded \<longrightarrow> 1 \<le> unat (restarts_remaining h)) \<and>
     unat (quiet_streak h) < 4 \<and> (hm_state h \<noteq> HM_Normal \<longrightarrow> unat (quiet_streak h) = 0)"
  by (auto simp: hm_inv_def MAX_RESTARTS_def COOLDOWN_QUIET_def word_le_nat_alt word_less_nat_alt unat_eq_0)

lemma restarts_pred: "1 \<le> unat n \<Longrightarrow> unat (n - 1) = unat n - 1" for n :: u32
  using unat_minus_one [of n] by (cases "n = 0") auto

lemma on_fault_step:
  assumes "hm_inv h"
  shows "\<exists>h'. on_fault f h = Some h' \<and> hm_inv h' \<and> pot h' \<le> pot h \<and>
           unat (restarts_remaining h') \<le> unat (restarts_remaining h) \<and>
           hm_cause h' = (if hm_state h = HM_Normal then f else hm_cause h) \<and>
           (is_failsafe_latched h \<longrightarrow> is_failsafe_latched h') \<and>
           phi h' = (if \<not> is_failsafe_latched h \<or> hm_state h = PartitionFailsafe \<and> f \<in> {HeartbeatLoss, BudgetOverrun}
                     then phi h - 1 else phi h)"
proof -
  have r: "1 \<le> restarts_remaining h \<longleftrightarrow> 1 \<le> unat (restarts_remaining h)" "restarts_remaining h \<le> 1 \<longleftrightarrow> unat (restarts_remaining h) \<le> 1"
    by (simp_all add: word_le_nat_alt)
  show ?thesis
  proof (cases "hm_state h")
    case HM_Normal
    then show ?thesis
      using assms by (cases "1 \<le> unat (restarts_remaining h)")
        (auto simp: on_fault_def Let_def r hm_inv_iff pot_def phi_def is_failsafe_latched_def)
  next
    case HM_Degraded
    show ?thesis
    proof (cases "unat (restarts_remaining h) \<le> 1")
      case True
      then show ?thesis
        using HM_Degraded assms by (auto simp: on_fault_def r hm_inv_iff pot_def phi_def is_failsafe_latched_def)
    next
      case False
      then have "restarts_remaining h \<noteq> 0" by auto
      then show ?thesis
        using False HM_Degraded assms
        by (auto simp: on_fault_def r sub_chk_one restarts_pred hm_inv_iff pot_def phi_def is_failsafe_latched_def)
    qed
  next
    case PartitionFailsafe
    then show ?thesis using assms by (auto simp: on_fault_def hm_inv_iff pot_def phi_def is_failsafe_latched_def)
  next
    case CrossCoreTrip
    then show ?thesis using assms by (auto simp: on_fault_def hm_inv_iff pot_def phi_def is_failsafe_latched_def)
  qed
qed

lemma try_restart_eq:
  assumes "hm_inv h"
  shows "try_restart ob h =
           Some (if hm_state h = HM_Degraded \<and> gates_clear ob
                 then (True, h\<lparr>hm_state := HM_Normal, restarts_remaining := restarts_remaining h - 1, quiet_streak := 0\<rparr>)
                 else (False, h))"
proof -
  have "hm_state h = HM_Degraded \<Longrightarrow> 1 \<le> restarts_remaining h \<and> restarts_remaining h \<noteq> 0"
    using assms by (auto simp: hm_inv_iff word_le_nat_alt)
  then show ?thesis by (auto simp: try_restart_def all_clear_eq sub_chk_one)
qed

lemma on_quiet_eq:
  assumes "hm_inv h"
  shows "on_quiet ob h =
           Some (if hm_state h \<noteq> HM_Normal then h
                 else if \<not> gates_clear ob then h\<lparr>quiet_streak := 0\<rparr>
                 else if unat (quiet_streak h) = 3 then h\<lparr>restarts_remaining := 3, quiet_streak := 0\<rparr>
                 else h\<lparr>quiet_streak := quiet_streak h + 1\<rparr>)"
proof -
  have q: "unat (quiet_streak h) < 4" using assms by (simp add: hm_inv_iff)
  then have add: "add_chk (quiet_streak h) 1 = Some (quiet_streak h + 1)" by (intro add_chk_Some) simp
  then have "unat (quiet_streak h + 1) = unat (quiet_streak h) + 1" by (auto dest: add_chk_unat)
  then have "COOLDOWN_QUIET \<le> quiet_streak h + 1 \<longleftrightarrow> unat (quiet_streak h) = 3"
    using q by (auto simp: COOLDOWN_QUIET_def word_le_nat_alt)
  then show ?thesis using add by (simp add: on_quiet_def all_clear_eq MAX_RESTARTS_def)
qed

text \<open>What one event guarantees; the long-run properties are inductions over it.\<close>

definition step_ok :: "nat \<Rightarrow> hm \<Rightarrow> bool \<Rightarrow> hm \<Rightarrow> bool" where
  "step_ok quiet h acc h' \<longleftrightarrow> hm_inv h' \<and>
     4 * of_bool acc + pot h' \<le> pot h + 3 * quiet \<and>
     (quiet = 0 \<longrightarrow> of_bool acc + unat (restarts_remaining h') \<le> unat (restarts_remaining h)) \<and>
     (is_failsafe_latched h \<longrightarrow> is_failsafe_latched h' \<and> hm_cause h' = hm_cause h \<and> \<not> acc)"

lemma fault_ok:
  assumes "hm_inv h"
  shows "\<exists>h'. on_fault f h = Some h' \<and> step_ok 0 h False h'"
proof -
  obtain h' where h': "on_fault f h = Some h'" "hm_inv h'" "pot h' \<le> pot h"
    "unat (restarts_remaining h') \<le> unat (restarts_remaining h)"
    "hm_cause h' = (if hm_state h = HM_Normal then f else hm_cause h)"
    "is_failsafe_latched h \<longrightarrow> is_failsafe_latched h'"
    using on_fault_step [OF assms, of f] by blast
  then have "step_ok 0 h False h'" by (simp add: step_ok_def) (simp add: is_failsafe_latched_def)
  then show ?thesis using h'(1) by blast
qed

lemma restart_ok:
  assumes "hm_inv h"
  shows "\<exists>acc h'. try_restart ob h = Some (acc, h') \<and> step_ok 0 h acc h'"
proof (cases "hm_state h = HM_Degraded \<and> gates_clear ob")
  case True
  let ?h = "h\<lparr>hm_state := HM_Normal, restarts_remaining := restarts_remaining h - 1, quiet_streak := 0\<rparr>"
  have "1 \<le> unat (restarts_remaining h)" using True assms by (simp add: hm_inv_iff)
  then have "unat (restarts_remaining h) = unat (restarts_remaining h - 1) + 1"
    using restarts_pred [of "restarts_remaining h"] by linarith
  then have "step_ok 0 h True ?h"
    using True assms by (simp add: step_ok_def hm_inv_iff pot_def is_failsafe_latched_def)
  then show ?thesis using True try_restart_eq [OF assms, of ob] by auto
next
  case False
  then have "try_restart ob h = Some (False, h)" using try_restart_eq [OF assms, of ob] by simp
  moreover have "step_ok 0 h False h" using assms by (simp add: step_ok_def)
  ultimately show ?thesis by blast
qed

lemma quiet_ok:
  assumes "hm_inv h"
  shows "\<exists>h'. on_quiet ob h = Some h' \<and> step_ok (if gates_clear ob then 1 else 0) h False h'"
proof -
  have q: "unat (quiet_streak h) < 3 \<Longrightarrow> unat (quiet_streak h + 1) = unat (quiet_streak h) + 1"
    by (intro unat_plus_one [of _ 3]) (simp add: word_less_nat_alt)
  consider (out) "hm_state h \<noteq> HM_Normal" | (bad) "hm_state h = HM_Normal" "\<not> gates_clear ob"
    | (full) "hm_state h = HM_Normal" "gates_clear ob" "unat (quiet_streak h) = 3"
    | (more) "hm_state h = HM_Normal" "gates_clear ob" "unat (quiet_streak h) < 3"
    using assms by (cases "unat (quiet_streak h) < 3") (force simp: hm_inv_iff)+
  then show ?thesis
  proof cases
    case out
    then show ?thesis using assms by (simp add: on_quiet_eq step_ok_def)
  next
    case bad
    then show ?thesis using assms by (simp add: on_quiet_eq step_ok_def hm_inv_iff pot_def is_failsafe_latched_def)
  next
    case full
    then show ?thesis using assms by (simp add: on_quiet_eq step_ok_def hm_inv_iff pot_def is_failsafe_latched_def)
  next
    case more
    then show ?thesis using assms q by (simp add: on_quiet_eq step_ok_def hm_inv_iff pot_def is_failsafe_latched_def)
  qed
qed

lemma hm_step_ok:
  assumes "hm_inv h"
  shows "\<exists>acc h'. hm_step e h = Some (acc, h') \<and> step_ok (quiet_clear e) h acc h'"
proof (cases e)
  case (Ev_fault f)
  then show ?thesis using fault_ok [OF assms, of f] by auto
next
  case (Ev_restart ob)
  then show ?thesis using restart_ok [OF assms, of ob] by simp
next
  case (Ev_quiet ob)
  then show ?thesis using quiet_ok [OF assms, of ob] by auto
qed

lemma phi_latched:
  assumes "hm_inv h"
  shows "phi h \<le> 1 \<longleftrightarrow> is_failsafe_latched h" and "phi h = 0 \<longleftrightarrow> hm_state h = CrossCoreTrip" and "phi h \<le> 5"
  using assms by (cases "hm_state h"; simp add: phi_def is_failsafe_latched_def hm_inv_iff)+

lemma faults_run:
  assumes "hm_inv h"
  shows "\<exists>h'. hm_run (map Ev_fault fs) h = Some (0, h') \<and> hm_inv h' \<and> phi h' \<le> max 1 (phi h - length fs) \<and>
           (set fs \<subseteq> {HeartbeatLoss, BudgetOverrun} \<longrightarrow> phi h' \<le> phi h - length fs)"
  using assms
proof (induction fs arbitrary: h)
  case (Cons f fs)
  obtain h1 where h1: "on_fault f h = Some h1" "hm_inv h1"
    "phi h1 = (if \<not> is_failsafe_latched h \<or> hm_state h = PartitionFailsafe \<and> f \<in> {HeartbeatLoss, BudgetOverrun}
               then phi h - 1 else phi h)"
    using on_fault_step [OF Cons.prems, of f] by blast
  obtain h' where h': "hm_run (map Ev_fault fs) h1 = Some (0, h')" "hm_inv h'" "phi h' \<le> max 1 (phi h1 - length fs)"
    "set fs \<subseteq> {HeartbeatLoss, BudgetOverrun} \<longrightarrow> phi h' \<le> phi h1 - length fs"
    using Cons.IH [OF h1(2)] by blast
  have "phi h1 \<le> max 1 (phi h - 1)" using h1(3) phi_latched(1) [OF Cons.prems] by auto
  moreover have "phi h1 \<le> phi h - 1" if "f \<in> {HeartbeatLoss, BudgetOverrun}"
    using h1(3) that phi_latched(1,2) [OF Cons.prems] by (auto simp: is_failsafe_latched_def)
  ultimately have "phi h' \<le> max 1 (phi h - length (f # fs))"
    "set (f # fs) \<subseteq> {HeartbeatLoss, BudgetOverrun} \<longrightarrow> phi h' \<le> phi h - length (f # fs)"
    using h'(3,4) by auto
  then show ?case using h1(1) h'(1,2) by simp
qed simp

section \<open>Properties\<close>

text \<open>
  C12: Escalation terminates. From every well-formed state, a run of faults never panics;
  four faults of any kind latch the failsafe, and five liveness faults (heartbeat loss or
  budget overrun, in any mix) reach the cross-core trip.
\<close>

theorem hm_escalates:
  assumes "hm_inv h"
  shows "\<exists>h'. hm_run (map Ev_fault fs) h = Some (0, h') \<and> hm_inv h' \<and>
           (4 \<le> length fs \<longrightarrow> is_failsafe_latched h') \<and>
           (5 \<le> length fs \<and> set fs \<subseteq> {HeartbeatLoss, BudgetOverrun} \<longrightarrow> hm_state h' = CrossCoreTrip)"
proof -
  obtain h' where h': "hm_run (map Ev_fault fs) h = Some (0, h')" "hm_inv h'" "phi h' \<le> max 1 (phi h - length fs)"
    "set fs \<subseteq> {HeartbeatLoss, BudgetOverrun} \<longrightarrow> phi h' \<le> phi h - length fs"
    using faults_run [OF assms] by blast
  have "4 \<le> length fs \<longrightarrow> phi h' \<le> 1" using h'(3) phi_latched(3) [OF assms] by auto
  moreover have "5 \<le> length fs \<and> set fs \<subseteq> {HeartbeatLoss, BudgetOverrun} \<longrightarrow> phi h' = 0"
    using h'(4) phi_latched(3) [OF assms] by auto
  ultimately show ?thesis using h'(1,2) phi_latched [OF h'(2)] by blast
qed

lemma hm_init_inv: "hm_inv hm_init"
  by (simp add: hm_inv_iff hm_init_def MAX_RESTARTS_def)

theorem hm_escalates_witness:
  "\<exists>h'. hm_run (map Ev_fault (replicate 5 HeartbeatLoss)) hm_init = Some (0, h') \<and> hm_state h' = CrossCoreTrip"
  using hm_escalates [OF hm_init_inv, of "replicate 5 HeartbeatLoss"] by auto

text \<open>
  C13: Restarts are limited by proven quiet time. Over every sequence of faults, restart
  attempts and quiet observations, in any order and with any values, no event panics and
  the invariant holds; four times the number of accepted restarts is at most the initial
  capacity plus three per all-clear quiet observation; and without such an observation at
  most the initial budget of restarts is ever accepted.
\<close>

theorem hm_restart_rate:
  assumes "hm_inv h"
  shows "\<exists>n h'. hm_run es h = Some (n, h') \<and> hm_inv h' \<and>
           4 * n + pot h' \<le> pot h + 3 * sum_list (map quiet_clear es) \<and>
           (sum_list (map quiet_clear es) = 0 \<longrightarrow> n + unat (restarts_remaining h') \<le> unat (restarts_remaining h))"
  using assms
proof (induction es arbitrary: h)
  case (Cons e es)
  obtain acc h1 where h1: "hm_step e h = Some (acc, h1)" "step_ok (quiet_clear e) h acc h1"
    using hm_step_ok [OF Cons.prems, of e] by blast
  obtain n h' where h': "hm_run es h1 = Some (n, h')" "hm_inv h'" "4 * n + pot h' \<le> pot h1 + 3 * sum_list (map quiet_clear es)"
    "sum_list (map quiet_clear es) = 0 \<longrightarrow> n + unat (restarts_remaining h') \<le> unat (restarts_remaining h1)"
    using Cons.IH [of h1] h1(2) by (auto simp: step_ok_def)
  have "hm_run (e # es) h = Some (n + of_bool acc, h')" using h1(1) h'(1) by simp
  then show ?case
    using h'(2-4) h1(2) by (intro exI [of _ "n + of_bool acc"] exI [of _ h']) (auto simp: step_ok_def)
qed simp

theorem hm_restart_rate_witness:
  "\<exists>n h'. hm_run [Ev_fault Stale, Ev_fault Diverged] hm_init = Some (n, h') \<and> n + unat (restarts_remaining h') \<le> 3"
  using hm_restart_rate [OF hm_init_inv, of "[Ev_fault Stale, Ev_fault Diverged]"] by (auto simp: hm_init_def MAX_RESTARTS_def)

text \<open>
  The failsafe is absorbing and keeps the evidence. Once the partition failsafe or the
  cross-core trip is latched, no sequence of events leaves the latched states, accepts a
  restart or changes the recorded cause; the cross-core trip is reached as soon as the
  sequence contains a heartbeat loss or a budget overrun.
\<close>

theorem hm_failsafe_absorbing:
  assumes "hm_inv h" and "is_failsafe_latched h"
  shows "\<exists>h'. hm_run es h = Some (0, h') \<and> is_failsafe_latched h' \<and> hm_cause h' = hm_cause h \<and>
           (hm_state h' = CrossCoreTrip \<longleftrightarrow>
              hm_state h = CrossCoreTrip \<or> Ev_fault HeartbeatLoss \<in> set es \<or> Ev_fault BudgetOverrun \<in> set es)"
  using assms
proof (induction es arbitrary: h)
  case Nil
  then show ?case by simp
next
  case (Cons e es)
  obtain acc h1 where h1: "hm_step e h = Some (acc, h1)" "step_ok (quiet_clear e) h acc h1"
    using hm_step_ok [OF Cons.prems(1), of e] by blast
  have ok: "hm_inv h1" "is_failsafe_latched h1" "hm_cause h1 = hm_cause h" "\<not> acc"
    using h1(2) Cons.prems(2) by (simp_all add: step_ok_def)
  have trip: "hm_state h1 = CrossCoreTrip \<longleftrightarrow>
      hm_state h = CrossCoreTrip \<or> e = Ev_fault HeartbeatLoss \<or> e = Ev_fault BudgetOverrun"
    using h1(1) Cons.prems
    by (cases e) (auto simp: is_failsafe_latched_def on_fault_def try_restart_eq on_quiet_eq split: if_splits)
  show ?case using Cons.IH [OF ok(1,2)] h1(1) ok(3,4) trip by auto
qed

theorem hm_failsafe_absorbing_witness:
  "\<exists>h'. hm_run [Ev_fault Stale, Ev_fault HeartbeatLoss]
      \<lparr>hm_state = PartitionFailsafe, hm_cause = Diverged, restarts_remaining = 0, quiet_streak = 0\<rparr> = Some (0, h') \<and>
     hm_state h' = CrossCoreTrip \<and> hm_cause h' = Diverged"
proof -
  let ?h = "\<lparr>hm_state = PartitionFailsafe, hm_cause = Diverged, restarts_remaining = 0, quiet_streak = 0\<rparr>"
  have "hm_inv ?h" "is_failsafe_latched ?h" by (simp_all add: hm_inv_iff is_failsafe_latched_def)
  from hm_failsafe_absorbing [OF this, of "[Ev_fault Stale, Ev_fault HeartbeatLoss]"] show ?thesis by auto
qed

text \<open>The vote clears exactly when one replica agrees with both others; two that agree are not enough.\<close>

lemma vote_needs_a_centre:
  "vote_ok s0 s1 s2 tol =
     Some (agree s0 s1 tol \<and> agree s0 s2 tol \<or> agree s1 s0 tol \<and> agree s1 s2 tol \<or> agree s2 s0 tol \<and> agree s2 s1 tol)"
  by (auto simp: vote_ok_eq agree_def abs_minus_commute)

lemma vote_rejects_outlier:
  "vote_ok 0 0 1000 10 = Some False"
  by (simp add: vote_ok_eq agree_def)

end
