(* ===== verification/Heap.thy ===== *)
theory Heap
  imports Kernel_Thread "HOL-Library.Multiset"
begin

text \<open>
  The chunk accounting of the system heap (src/heap.rs). The bytes and the free lists are
  on the C side; this component counts bytes and chunks. The main property runs it beside
  a ledger of the live allocations of its caller.
\<close>

section \<open>The heap\<close>

definition MAX_CHUNKS :: u32 where
  "MAX_CHUNKS = 65535"

definition CHUNK_UNIT :: u32 where
  "CHUNK_UNIT = 8"

record heap =
  hp_capacity :: u32
  hp_allocated_bytes :: u32
  hp_total_chunks :: u32
  hp_free_chunks :: u32
  hp_next_slot_id :: u32

definition heap_inv :: "heap \<Rightarrow> bool" where
  "heap_inv h \<longleftrightarrow> 0 < hp_capacity h \<and> hp_allocated_bytes h \<le> hp_capacity h \<and> hp_free_chunks h \<le> hp_total_chunks h \<and>
     hp_total_chunks h \<le> MAX_CHUNKS \<and> hp_next_slot_id h \<le> MAX_CHUNKS"

definition heap_init :: "u32 \<Rightarrow> u32 \<Rightarrow> heap result" where
  "heap_init capacity overhead =
     (if capacity = 0 \<or> overhead = 0 \<or> capacity \<le> overhead then Err EINVAL
      else Ok \<lparr>hp_capacity = capacity, hp_allocated_bytes = overhead, hp_total_chunks = 2, hp_free_chunks = 1,
             hp_next_slot_id = 1\<rparr>)"

definition heap_alloc :: "u32 \<Rightarrow> heap \<Rightarrow> (u32 result \<times> heap) run" where
  "heap_alloc bytes h =
     (if hp_free_chunks h = 0 then Ret (Err ENOMEM, h)
      else do {
        avail \<leftarrow> sub_chk (hp_capacity h) (hp_allocated_bytes h);
        if avail < bytes then Ret (Err ENOMEM, h)
        else if MAX_CHUNKS \<le> hp_next_slot_id h then Ret (Err ENOMEM, h)
        else do {
          let slot_id = hp_next_slot_id h;
          a \<leftarrow> add_chk (hp_allocated_bytes h) bytes;
          f \<leftarrow> sub_chk (hp_free_chunks h) 1;
          n \<leftarrow> add_chk (hp_next_slot_id h) 1;
          Ret (Ok slot_id, h\<lparr>hp_allocated_bytes := a, hp_free_chunks := f, hp_next_slot_id := n\<rparr>)
        }
      })"

definition heap_free :: "u32 \<Rightarrow> heap \<Rightarrow> (i32 \<times> heap) run" where
  "heap_free bytes h =
     (if hp_total_chunks h \<le> hp_free_chunks h then Ret (EINVAL, h)
      else if hp_allocated_bytes h < bytes then Ret (EINVAL, h)
      else do {
        a \<leftarrow> sub_chk (hp_allocated_bytes h) bytes;
        f \<leftarrow> add_chk (hp_free_chunks h) 1;
        Ret (OK_code, h\<lparr>hp_allocated_bytes := a, hp_free_chunks := f\<rparr>)
      })"

definition heap_aligned_alloc :: "u32 \<Rightarrow> u32 \<Rightarrow> heap \<Rightarrow> (u32 result \<times> heap) run" where
  "heap_aligned_alloc bytes align h =
     (if align = 0 \<or> align \<le> CHUNK_UNIT then heap_alloc bytes h
      else do {
        padding \<leftarrow> sub_chk (ucast align :: u64) (ucast CHUNK_UNIT);
        padded \<leftarrow> add_chk (ucast bytes) padding;
        if ucast u32_max < padded then Ret (Err ENOMEM, h)
        else heap_alloc (ucast padded) h
      })"

definition heap_split :: "u32 \<Rightarrow> u32 \<Rightarrow> heap \<Rightarrow> (i32 \<times> heap) run" where
  "heap_split left_bytes total_bytes h =
     (if MAX_CHUNKS \<le> hp_total_chunks h then Ret (EINVAL, h)
      else do {
        t \<leftarrow> add_chk (hp_total_chunks h) 1;
        f \<leftarrow> add_chk (hp_free_chunks h) 1;
        Ret (OK_code, h\<lparr>hp_total_chunks := t, hp_free_chunks := f\<rparr>)
      })"

definition heap_merge :: "heap \<Rightarrow> (i32 \<times> heap) run" where
  "heap_merge h =
     (if hp_total_chunks h \<le> 1 \<or> hp_free_chunks h \<le> 1 then Ret (EINVAL, h)
      else do {
        t \<leftarrow> sub_chk (hp_total_chunks h) 1;
        f \<leftarrow> sub_chk (hp_free_chunks h) 1;
        Ret (OK_code, h\<lparr>hp_total_chunks := t, hp_free_chunks := f\<rparr>)
      })"

text \<open>Merging with one neighbour inside coalesce_free.\<close>

definition merge_one :: "bool \<Rightarrow> heap \<Rightarrow> heap run" where
  "merge_one b h =
     (if b then do {
        t \<leftarrow> sub_chk (hp_total_chunks h) 1;
        f \<leftarrow> sub_chk (hp_free_chunks h) 1;
        Ret (h\<lparr>hp_total_chunks := t, hp_free_chunks := f\<rparr>)
      }
      else Ret h)"

definition heap_coalesce_free :: "u32 \<Rightarrow> bool \<Rightarrow> bool \<Rightarrow> heap \<Rightarrow> (i32 \<times> heap) run" where
  "heap_coalesce_free bytes merge_left merge_right h = do {
     a \<leftarrow> sub_chk (hp_allocated_bytes h) bytes;
     f \<leftarrow> add_chk (hp_free_chunks h) 1;
     h \<leftarrow> merge_one merge_right (h\<lparr>hp_allocated_bytes := a, hp_free_chunks := f\<rparr>);
     h \<leftarrow> merge_one merge_left h;
     Ret (OK_code, h)
   }"

definition heap_realloc :: "u32 \<Rightarrow> u32 \<Rightarrow> heap \<Rightarrow> (u32 result \<times> heap) run" where
  "heap_realloc old_bytes new_bytes h =
     (if new_bytes \<le> old_bytes then do {
        d \<leftarrow> sub_chk old_bytes new_bytes;
        if 0 < d then do { a \<leftarrow> sub_chk (hp_allocated_bytes h) d; Ret (Ok 0, h\<lparr>hp_allocated_bytes := a\<rparr>) }
        else Ret (Ok 0, h)
      }
      else do {
        extra \<leftarrow> sub_chk new_bytes old_bytes;
        avail \<leftarrow> sub_chk (hp_capacity h) (hp_allocated_bytes h);
        if extra \<le> avail then do { a \<leftarrow> add_chk (hp_allocated_bytes h) extra; Ret (Ok 0, h\<lparr>hp_allocated_bytes := a\<rparr>) }
        else Ret (Err ENOMEM, h)
      })"

definition heap_free_bytes_get :: "heap \<Rightarrow> u32 run" where
  "heap_free_bytes_get h = sub_chk (hp_capacity h) (hp_allocated_bytes h)"

definition heap_used_chunks_get :: "heap \<Rightarrow> u32 run" where
  "heap_used_chunks_get h = sub_chk (hp_total_chunks h) (hp_free_chunks h)"

definition bytes_to_chunks :: "u32 \<Rightarrow> u32 run" where
  "bytes_to_chunks bytes = do {
     a \<leftarrow> add_chk (ucast bytes :: u64) (ucast CHUNK_UNIT);
     b \<leftarrow> sub_chk a 1;
     Ret (ucast (b div ucast CHUNK_UNIT))
   }"

section \<open>Operations on well-formed heaps\<close>

lemma heap_inv_iff:
  "heap_inv h \<longleftrightarrow> 0 < unat (hp_capacity h) \<and> unat (hp_allocated_bytes h) \<le> unat (hp_capacity h) \<and>
     unat (hp_free_chunks h) \<le> unat (hp_total_chunks h) \<and> unat (hp_total_chunks h) \<le> 65535 \<and> unat (hp_next_slot_id h) \<le> 65535"
  by (simp add: heap_inv_def MAX_CHUNKS_def word_le_nat_alt word_less_nat_alt)

lemmas heap_nat = heap_inv_iff word_le_nat_alt word_less_nat_alt u32_plus u32_minus

lemma heap_alloc_eq:
  assumes "heap_inv h"
  shows "heap_alloc n h =
    (if hp_free_chunks h = 0 \<or> unat (hp_capacity h) < unat (hp_allocated_bytes h) + unat n \<or> MAX_CHUNKS \<le> hp_next_slot_id h
     then Some (Err ENOMEM, h)
     else Some (Ok (hp_next_slot_id h),
                h\<lparr>hp_allocated_bytes := hp_allocated_bytes h + n, hp_free_chunks := hp_free_chunks h - 1,
                  hp_next_slot_id := hp_next_slot_id h + 1\<rparr>))"
proof -
  have "sub_chk (hp_capacity h) (hp_allocated_bytes h) = Some (hp_capacity h - hp_allocated_bytes h)"
    using assms by (simp add: run_simps heap_inv_def)
  moreover have "hp_capacity h - hp_allocated_bytes h < n \<longleftrightarrow> unat (hp_capacity h) < unat (hp_allocated_bytes h) + unat n"
    using assms by (auto simp: heap_nat)
  moreover have "unat (hp_allocated_bytes h) + unat n \<le> unat (hp_capacity h) \<Longrightarrow>
      add_chk (hp_allocated_bytes h) n = Some (hp_allocated_bytes h + n)"
    using unat_u32_less [of "hp_capacity h"] by (simp add: run_simps)
  moreover have "\<not> MAX_CHUNKS \<le> hp_next_slot_id h \<Longrightarrow> add_chk (hp_next_slot_id h) 1 = Some (hp_next_slot_id h + 1)"
    by (rule add_chk_one [of _ MAX_CHUNKS]) simp
  ultimately show ?thesis
    by (auto simp: heap_alloc_def run_simps not_less)
qed

section \<open>The caller's ledger\<close>

text \<open>
  The live allocations of the caller, as a multiset of sizes. An aligned allocation is
  charged with its padding.
\<close>

datatype heap_op =
    H_alloc u32
  | H_aligned u32 u32
  | H_free u32
  | H_split u32 u32
  | H_merge
  | H_coalesce u32 bool bool
  | H_realloc u32 u32

definition charged :: "u32 \<Rightarrow> u32 \<Rightarrow> u32" where
  "charged bytes align = (if align \<le> 8 then bytes else bytes + (align - 8))"

definition granted :: "u32 result \<Rightarrow> u32 \<Rightarrow> u32 multiset \<Rightarrow> u32 multiset" where
  "granted r n L = (case r of Inr _ \<Rightarrow> add_mset n L | Inl _ \<Rightarrow> L)"

fun heap_client :: "heap_op \<Rightarrow> heap \<times> u32 multiset \<Rightarrow> (heap \<times> u32 multiset) run" where
  "heap_client (H_alloc n) (h, L) = do { (r, h) \<leftarrow> heap_alloc n h; Ret (h, granted r n L) }"
| "heap_client (H_aligned n a) (h, L) = do { (r, h) \<leftarrow> heap_aligned_alloc n a h; Ret (h, granted r (charged n a) L) }"
| "heap_client (H_free n) (h, L) = do { (rc, h) \<leftarrow> heap_free n h; Ret (h, if rc = OK_code then L - {#n#} else L) }"
| "heap_client (H_split l n) (h, L) = do { (rc, h) \<leftarrow> heap_split l n h; Ret (h, L) }"
| "heap_client H_merge (h, L) = do { (rc, h) \<leftarrow> heap_merge h; Ret (h, L) }"
| "heap_client (H_coalesce n l r) (h, L) = do { (rc, h) \<leftarrow> heap_coalesce_free n l r h; Ret (h, L - {#n#}) }"
| "heap_client (H_realloc n m) (h, L) = do { (r, h) \<leftarrow> heap_realloc n m h; Ret (h, case r of Inr _ \<Rightarrow> add_mset m (L - {#n#}) | Inl _ \<Rightarrow> L) }"

text \<open>The caller's obligations: only live allocations are freed or resized, only free neighbours are merged.\<close>

fun legal :: "heap_op \<Rightarrow> heap \<times> u32 multiset \<Rightarrow> bool" where
  "legal (H_free n) (h, L) = (n \<in># L)"
| "legal (H_coalesce n l r) (h, L) = (n \<in># L \<and> (l \<or> r \<longrightarrow> 1 \<le> hp_free_chunks h))"
| "legal (H_realloc n m) (h, L) = (n \<in># L)"
| "legal _ _ = True"

definition client_step :: "heap \<times> u32 multiset \<Rightarrow> heap_op \<Rightarrow> heap \<times> u32 multiset \<Rightarrow> bool" where
  "client_step s op s' \<longleftrightarrow> legal op s \<and> heap_client op s = Some s'"

definition balanced :: "u32 \<Rightarrow> u32 \<Rightarrow> heap \<times> u32 multiset \<Rightarrow> bool" where
  "balanced cap ovh s \<longleftrightarrow> (case s of (h, L) \<Rightarrow> heap_inv h \<and> hp_capacity h = cap \<and>
     unat (hp_allocated_bytes h) = unat ovh + sum_mset (image_mset unat L) \<and>
     unat (hp_total_chunks h) = unat (hp_free_chunks h) + 1 + size L)"

text \<open>How a single charge or release moves the books.\<close>

lemma balanced_alloc:
  assumes "balanced cap ovh (h, L)"
  shows "\<exists>r h'. heap_alloc n h = Some (r, h') \<and> balanced cap ovh (h', granted r n L)"
proof -
  have "heap_alloc n h = Some (r, h') \<Longrightarrow> balanced cap ovh (h', granted r n L)" for r h'
    using assms
    by (auto simp: balanced_def heap_inv_iff heap_alloc_def granted_def u32_iffs MAX_CHUNKS_def split: if_splits Option.bind_splits)
  moreover have "heap_inv h" using assms by (simp add: balanced_def)
  ultimately show ?thesis by (auto simp: heap_alloc_eq)
qed

lemma balanced_free:
  assumes "balanced cap ovh (h, L)" and "n \<in># L"
  shows "\<exists>h'. heap_free n h = Some (OK_code, h') \<and> balanced cap ovh (h', L - {#n#})"
proof -
  obtain M where M: "L = add_mset n M" using assms(2) by (metis insert_DiffM)
  have "heap_free n h = Some (OK_code, h') \<Longrightarrow> balanced cap ovh (h', M)" for h'
    using assms(1)
    by (auto simp: M balanced_def heap_inv_iff heap_free_def u32_iffs MAX_CHUNKS_def split: if_splits Option.bind_splits)
  moreover have "\<exists>h'. heap_free n h = Some (OK_code, h')"
    using assms(1) by (simp add: M balanced_def heap_inv_iff heap_free_def run_simps word_le_nat_alt word_less_nat_alt)
  ultimately show ?thesis by (auto simp: M)
qed

lemma balanced_coalesce:
  assumes "balanced cap ovh (h, L)" and "n \<in># L" and "l \<or> r \<longrightarrow> 1 \<le> hp_free_chunks h"
  shows "\<exists>h'. heap_coalesce_free n l r h = Some (OK_code, h') \<and> balanced cap ovh (h', L - {#n#})"
proof -
  obtain M where M: "L = add_mset n M" using assms(2) by (metis insert_DiffM)
  have "heap_coalesce_free n l r h = Some (OK_code, h') \<Longrightarrow> balanced cap ovh (h', M)" for h'
    using assms(1)
    by (auto simp: M balanced_def heap_inv_iff heap_coalesce_free_def merge_one_def u32_iffs split: if_splits Option.bind_splits)
  moreover have "\<exists>h'. heap_coalesce_free n l r h = Some (OK_code, h')"
  proof (cases "heap_coalesce_free n l r h")
    case None
    then show ?thesis using assms(1,3)
      by (auto simp: M balanced_def heap_inv_iff heap_coalesce_free_def merge_one_def u32_iffs split: if_splits Option.bind_splits)
  next
    case (Some y)
    then show ?thesis by (auto simp: heap_coalesce_free_def split: Option.bind_splits)
  qed
  ultimately show ?thesis by (auto simp: M)
qed

lemma balanced_aligned:
  assumes "balanced cap ovh (h, L)"
  shows "\<exists>r h'. heap_aligned_alloc n a h = Some (r, h') \<and> balanced cap ovh (h', granted r (charged n a) L)"
proof (cases "a \<le> 8")
  case True
  then show ?thesis
    using balanced_alloc [OF assms, of n] by (auto simp: heap_aligned_alloc_def charged_def CHUNK_UNIT_def)
next
  case False
  let ?p = "ucast n + (ucast a - 8) :: u64"
  have a: "8 \<le> unat a" "a \<noteq> 0" using False by (auto simp: word_le_nat_alt)
  then have m: "unat (ucast a - 8 :: u64) = unat a - 8"
    by (simp add: unat_sub word_le_nat_alt)
  then have p: "unat ?p = unat n + (unat a - 8)"
    using a unat_u32_less [of n] unat_u32_less [of a] by (simp add: unat_add_lem [THEN iffD1])
  have eq: "heap_aligned_alloc n a h =
      (if ucast u32_max < ?p then Some (Err ENOMEM, h) else heap_alloc (ucast ?p) h)"
    using False a m unat_u32_less [of n] unat_u32_less [of a]
    by (simp add: heap_aligned_alloc_def CHUNK_UNIT_def run_simps word_le_nat_alt)
  have "ucast ?p = charged n a" if "\<not> ucast u32_max < ?p"
  proof -
    have "unat (ucast ?p :: u32) = unat n + (unat a - 8)" "unat n + (unat a - 8) < 4294967296"
      using that p by (simp_all add: unat_ucast_u32 word_less_nat_alt)
    moreover have "unat (a - 8) = unat a - 8" using a by (simp add: unat_sub word_le_nat_alt)
    ultimately show ?thesis using False by (simp add: charged_def word_unat_eq_iff u32_plus)
  qed
  then show ?thesis
    using balanced_alloc [OF assms, of "charged n a"] assms by (auto simp: eq granted_def)
qed

lemma balanced_rest:
  assumes "balanced cap ovh (h, L)"
  shows "\<exists>rc h'. heap_split l n h = Some (rc, h') \<and> balanced cap ovh (h', L)"
    and "\<exists>rc h'. heap_merge h = Some (rc, h') \<and> balanced cap ovh (h', L)"
  using assms
  by (auto simp: balanced_def heap_inv_iff heap_split_def heap_merge_def u32_iffs MAX_CHUNKS_def split: if_splits Option.bind_splits)

lemma balanced_realloc:
  assumes "balanced cap ovh (h, L)" and "n \<in># L"
  shows "\<exists>r h'. heap_realloc n m h = Some (r, h') \<and>
           balanced cap ovh (h', case r of Inr _ \<Rightarrow> add_mset m (L - {#n#}) | Inl _ \<Rightarrow> L)"
proof -
  obtain M where M: "L = add_mset n M" using assms(2) by (metis insert_DiffM)
  show ?thesis
    using assms(1) unat_u32_less [of cap]
    by (auto simp: M balanced_def heap_inv_iff heap_realloc_def u32_iffs split: if_splits Option.bind_splits)
qed

lemma client_balanced:
  assumes "balanced cap ovh s" and "legal op s"
  shows "\<exists>s'. heap_client op s = Some s' \<and> balanced cap ovh s'"
proof -
  obtain h L where s: "s = (h, L)" by (cases s)
  note b = assms(1) [unfolded s]
  have l: "legal op (h, L)" using assms(2) by (simp add: s)
  show ?thesis
  proof (cases op)
    case (H_alloc n)
    then show ?thesis using balanced_alloc [OF b, of n] by (auto simp: s)
  next
    case (H_aligned n a)
    then show ?thesis using balanced_aligned [OF b, of n a] by (auto simp: s)
  next
    case (H_free n)
    then show ?thesis using balanced_free [OF b, of n] l by (auto simp: s)
  next
    case (H_split k n)
    then show ?thesis using balanced_rest(1) [OF b, of k n] by (auto simp: s)
  next
    case H_merge
    then show ?thesis using balanced_rest(2) [OF b] by (auto simp: s)
  next
    case (H_coalesce n k r)
    then show ?thesis using balanced_coalesce [OF b, of n k r] l by (auto simp: s)
  next
    case (H_realloc n m)
    then show ?thesis using balanced_realloc [OF b, of n m] l by (auto simp: s)
  qed
qed

lemma init_balanced:
  assumes "heap_init cap ovh = Ok h"
  shows "balanced cap ovh (h, {#})"
  using assms
  by (auto simp: heap_init_def balanced_def heap_inv_def MAX_CHUNKS_def word_gt_0 split: if_splits)

lemma client_trace_balanced:
  assumes "trace client_step s ops s'" and "balanced cap ovh s"
  shows "balanced cap ovh s'"
  using assms client_balanced
  by (induction rule: trace.induct) (fastforce simp: client_step_def)+

text \<open>The slot counter only grows, so it runs out even if everything is freed.\<close>

lemma heap_slots_run_out:
  assumes "heap_inv h" and "hp_next_slot_id h = MAX_CHUNKS"
  shows "heap_alloc n h = Some (Err ENOMEM, h)"
  using assms by (simp add: heap_alloc_eq)

section \<open>Properties\<close>

text \<open>
  C27: The books always balance. From initialisation, under every sequence of allocations,
  aligned allocations, frees, splits, merges, coalescing frees and resizes in which only
  live allocations are freed or resized, the allocated bytes are the overhead plus the
  sizes of the live allocations (with their alignment padding), the used chunks are the
  live allocations plus the header, and the capacity bounds both. The next call never
  panics, every live allocation can be freed, and when none is left all bytes but the
  overhead are available again.
\<close>

theorem heap_books_balance:
  assumes "heap_init cap ovh = Ok h0" and "trace client_step (h0, {#}) ops (h, L)"
  shows "unat (hp_allocated_bytes h) = unat ovh + sum_mset (image_mset unat L) \<and>
         hp_allocated_bytes h \<le> hp_capacity h \<and> hp_capacity h = cap \<and>
         heap_used_chunks_get h = Some (of_nat (Suc (size L))) \<and>
         (legal op (h, L) \<longrightarrow> heap_client op (h, L) \<noteq> None) \<and>
         (n \<in># L \<longrightarrow> (\<exists>h'. heap_free n h = Some (OK_code, h'))) \<and>
         (L = {#} \<longrightarrow> heap_free_bytes_get h = Some (cap - ovh))"
proof -
  have b: "balanced cap ovh (h, L)"
    using client_trace_balanced [OF assms(2) init_balanced [OF assms(1)]] .
  have "unat (of_nat (Suc (size L)) :: u32) = Suc (size L)"
    using b by (simp add: balanced_def heap_inv_iff unat_of_nat del: of_nat_Suc)
  then have "heap_used_chunks_get h = Some (of_nat (Suc (size L)))"
    using b by (simp add: heap_used_chunks_get_def balanced_def sub_u32_iff del: of_nat_Suc)
  moreover have "L = {#} \<longrightarrow> heap_free_bytes_get h = Some (cap - ovh)"
    using b by (auto simp: heap_free_bytes_get_def balanced_def heap_nat sub_u32_iff)
  ultimately show ?thesis
    using b client_balanced [OF b, of op] balanced_free [OF b, of n] by (auto simp: balanced_def heap_inv_def)
qed

theorem heap_books_balance_witness:
  "\<exists>h. unat (hp_allocated_bytes h) = 64 + 60 \<and> heap_used_chunks_get h = Some 2 \<and> (\<exists>h'. heap_free 60 h = Some (OK_code, h'))"
proof -
  let ?h = "\<lambda>a f t n. \<lparr>hp_capacity = 4096, hp_allocated_bytes = a, hp_total_chunks = t, hp_free_chunks = f, hp_next_slot_id = n\<rparr>"
  have i: "heap_init 4096 64 = Ok (?h 64 1 2 1)" by (simp add: heap_init_def)
  have s: "client_step (?h 64 1 2 1, {#}) (H_split 100 4032) (?h 64 2 3 1, {#})"
    by (simp add: client_step_def heap_split_def MAX_CHUNKS_def add_chk_def)
  have a: "client_step (?h 64 2 3 1, {#}) (H_aligned 36 32) (?h 124 1 3 2, {#60#})"
    by (simp add: client_step_def heap_aligned_alloc_def heap_alloc_def CHUNK_UNIT_def MAX_CHUNKS_def add_chk_def sub_chk_def
        u32_max_def granted_def charged_def word_le_nat_alt word_less_nat_alt)
  show ?thesis
    using heap_books_balance [OF i trace_two [of client_step, OF s a], of H_merge 60]
    by (intro exI [of _ "?h 124 1 3 2"]) simp
qed

end
