(* ===== verification/Zms.thy ===== *)
theory Zms
  imports Kernel_Thread
begin

text \<open>
  The sector state machine of the memory storage (src/zms.rs): the two cursors of a
  sector, the free-space account of the file system, and the decisions on collection,
  recovery, reading and duplicate writes. Flash access and the movement of the cursors
  are on the C side; the property runs the account beside cursors that move as the
  comments of consume_space say.
\<close>

section \<open>Decisions\<close>

datatype write_action = WriteOk | NeedsGc

record zms_write_decision =
  zw_action :: write_action
  zw_needs_gc :: bool

record zms_gc_decision =
  zg_action :: u8
  zg_sectors_to_gc :: u32

datatype recovery_action = Recover_Normal | EraseAndRestart | ResumeGc

datatype close_action = CanClose | CannotClose

datatype pre_gc_scan_action = EraseActive | RelocateThenErase | InsufficientSpareSectors

record zms_pre_gc_scan_decision =
  zp_action :: pre_gc_scan_action
  zp_relocate_count :: u32

datatype read_action = Read_Proceed | Read_Reject

record zms_read_decision =
  zr_action :: read_action
  zr_ret :: i32

datatype no_double_write_action = ProceedWrite | SkipIdentical | RejectToctou

record zms_no_double_write_decision =
  zn_action :: no_double_write_action
  zn_ret :: i32

section \<open>Sectors\<close>

record zms_sector =
  zs_ate_wra :: u32
  zs_data_wra :: u32
  zs_sector_size :: u32
  zs_cycle_cnt :: u8
  zs_is_open :: bool
  zs_is_closed :: bool

definition sector_inv :: "u32 \<Rightarrow> zms_sector \<Rightarrow> bool" where
  "sector_inv ate_size s \<longleftrightarrow> 5 * unat ate_size \<le> unat (zs_sector_size s) \<and> 0 < ate_size \<and>
     zs_data_wra s \<le> zs_ate_wra s \<and> unat (zs_ate_wra s) + 3 * unat ate_size \<le> unat (zs_sector_size s) \<and>
     zs_data_wra s \<le> zs_sector_size s \<and> \<not> (zs_is_open s \<and> zs_is_closed s)"

definition sector_init :: "u32 \<Rightarrow> u32 \<Rightarrow> u8 \<Rightarrow> zms_sector result run" where
  "sector_init sector_size ate_size cycle_cnt = do {
     five \<leftarrow> mul_chk 5 ate_size;
     if sector_size < five then Ret (Err EINVAL)
     else do {
       three \<leftarrow> mul_chk 3 ate_size;
       top \<leftarrow> sub_chk sector_size three;
       Ret (Ok \<lparr>zs_ate_wra = top, zs_data_wra = 0, zs_sector_size = sector_size, zs_cycle_cnt = cycle_cnt,
                 zs_is_open = True, zs_is_closed = False\<rparr>)
     }
   }"

definition sector_has_space :: "u32 \<Rightarrow> zms_sector \<Rightarrow> bool run" where
  "sector_has_space needed s =
     (if 0 < zs_ate_wra s then do {
        e \<leftarrow> add_chk (ucast (zs_data_wra s) :: u64) (ucast needed);
        Ret (e \<le> ucast (zs_ate_wra s))
      }
      else Ret False)"

definition close_decide :: "zms_sector \<Rightarrow> close_action" where
  "close_decide s = (if 0 < zs_ate_wra s then CanClose else CannotClose)"

definition increment_cycle :: "u8 \<Rightarrow> zms_sector \<Rightarrow> zms_sector run" where
  "increment_cycle close_cycle s = do {
     n \<leftarrow> add_chk (ucast (zs_cycle_cnt s) :: u16) 1;
     let new_cycle = (ucast (n mod 256) :: u8);
     if new_cycle = close_cycle then do {
       m \<leftarrow> add_chk (ucast (zs_cycle_cnt s) :: u16) 2;
       Ret (s\<lparr>zs_cycle_cnt := ucast (m mod 256)\<rparr>)
     }
     else Ret (s\<lparr>zs_cycle_cnt := new_cycle\<rparr>)
   }"

section \<open>The file system\<close>

record zms_fs =
  zf_sector_count :: u32
  zf_current_sector :: u32
  zf_ate_size :: u32
  zf_free_space :: u32

definition zms_inv :: "zms_fs \<Rightarrow> bool" where
  "zms_inv f \<longleftrightarrow> 1 < zf_sector_count f \<and> zf_current_sector f < zf_sector_count f \<and> 0 < zf_ate_size f"

definition free_space_consistent :: "u32 \<Rightarrow> u32 \<Rightarrow> zms_fs \<Rightarrow> bool" where
  "free_space_consistent ate_wra data_wra f \<longleftrightarrow>
     int (unat (zf_free_space f)) = int (unat ate_wra) - int (unat data_wra) - int (unat (zf_ate_size f))"

definition zms_init :: "u32 \<Rightarrow> u32 \<Rightarrow> u32 \<Rightarrow> zms_fs result run" where
  "zms_init sector_count sector_size ate_size =
     (if sector_count < 2 then Ret (Err EINVAL)
      else do {
        five \<leftarrow> mul_chk 5 ate_size;
        if sector_size < five then Ret (Err EINVAL)
        else do {
          four \<leftarrow> mul_chk 4 ate_size;
          free \<leftarrow> sub_chk sector_size four;
          Ret (Ok \<lparr>zf_sector_count = sector_count, zf_current_sector = 0, zf_ate_size = ate_size, zf_free_space = free\<rparr>)
        }
      })"

definition zms_has_space :: "u32 \<Rightarrow> zms_fs \<Rightarrow> bool" where
  "zms_has_space needed f \<longleftrightarrow> needed \<le> zf_free_space f"

definition write_decide :: "u32 \<Rightarrow> zms_fs \<Rightarrow> zms_write_decision run" where
  "write_decide data_len f = do {
     required \<leftarrow> add_chk (ucast data_len :: u64) (ucast (zf_ate_size f));
     if required \<le> ucast (zf_free_space f) then Ret \<lparr>zw_action = WriteOk, zw_needs_gc = False\<rparr>
     else Ret \<lparr>zw_action = NeedsGc, zw_needs_gc = True\<rparr>
   }"

definition gc_needed :: "u32 \<Rightarrow> u32 \<Rightarrow> u32 \<Rightarrow> zms_gc_decision run" where
  "gc_needed ate_wra data_wra needed = do {
     available \<leftarrow> sub_chk (ucast ate_wra :: u64) (ucast data_wra);
     if ucast needed \<le> available then Ret \<lparr>zg_action = 0, zg_sectors_to_gc = 0\<rparr>
     else Ret \<lparr>zg_action = 1, zg_sectors_to_gc = 1\<rparr>
   }"

definition gc_done_check :: "bool \<Rightarrow> bool \<Rightarrow> recovery_action" where
  "gc_done_check next_sector_closed has_gc_done_marker =
     (if \<not> next_sector_closed then Recover_Normal
      else if has_gc_done_marker then EraseAndRestart
      else ResumeGc)"

definition pre_gc_scan_decide :: "u32 \<Rightarrow> u32 \<Rightarrow> u32 \<Rightarrow> zms_pre_gc_scan_decision" where
  "pre_gc_scan_decide sector_count new_ate_count spare_sectors =
     (if new_ate_count = 0 then \<lparr>zp_action = EraseActive, zp_relocate_count = 0\<rparr>
      else if 0 < spare_sectors then \<lparr>zp_action = RelocateThenErase, zp_relocate_count = new_ate_count\<rparr>
      else \<lparr>zp_action = InsufficientSpareSectors, zp_relocate_count = new_ate_count\<rparr>)"

definition read_decide :: "bool \<Rightarrow> zms_read_decision" where
  "read_decide mutex_held =
     (if mutex_held then \<lparr>zr_action = Read_Proceed, zr_ret = 0\<rparr> else \<lparr>zr_action = Read_Reject, zr_ret = EPERM\<rparr>)"

definition no_double_write_decide :: "bool \<Rightarrow> bool \<Rightarrow> zms_no_double_write_decision" where
  "no_double_write_decide mutex_held data_identical =
     (if \<not> mutex_held then \<lparr>zn_action = RejectToctou, zn_ret = EPERM\<rparr>
      else if data_identical then \<lparr>zn_action = SkipIdentical, zn_ret = 0\<rparr>
      else \<lparr>zn_action = ProceedWrite, zn_ret = 0\<rparr>)"

definition advance_sector :: "zms_fs \<Rightarrow> zms_fs run" where
  "advance_sector f = do {
     n \<leftarrow> add_chk (zf_current_sector f) 1;
     if n = zf_sector_count f then Ret (f\<lparr>zf_current_sector := 0\<rparr>)
     else do { m \<leftarrow> add_chk (zf_current_sector f) 1; Ret (f\<lparr>zf_current_sector := m\<rparr>) }
   }"

definition consume_space :: "u32 \<Rightarrow> zms_fs \<Rightarrow> zms_fs run" where
  "consume_space data_len f = do {
     a \<leftarrow> sub_chk (zf_free_space f) data_len;
     b \<leftarrow> sub_chk a (zf_ate_size f);
     Ret (f\<lparr>zf_free_space := b\<rparr>)
   }"

section \<open>Writes into a sector\<close>

text \<open>
  One write of the caller: the decision, and on success the account and the two cursors.
\<close>

definition zms_write :: "u32 \<Rightarrow> zms_fs \<times> zms_sector \<Rightarrow> (bool \<times> zms_fs \<times> zms_sector) run" where
  "zms_write n = (\<lambda>(f, s). do {
     d \<leftarrow> write_decide n f;
     if zw_action d = WriteOk then do {
       f' \<leftarrow> consume_space n f;
       a \<leftarrow> sub_chk (zs_ate_wra s) (zf_ate_size f);
       w \<leftarrow> add_chk (zs_data_wra s) n;
       Ret (True, f', s\<lparr>zs_ate_wra := a, zs_data_wra := w\<rparr>)
     }
     else Ret (False, f, s)
   })"

primrec zms_writes :: "u32 list \<Rightarrow> zms_fs \<times> zms_sector \<Rightarrow> (bool list \<times> zms_fs \<times> zms_sector) run" where
  "zms_writes [] st = Ret ([], st)"
| "zms_writes (n # ns) st = do {
     (ok, st) \<leftarrow> zms_write n st;
     (oks, st) \<leftarrow> zms_writes ns st;
     Ret (ok # oks, st)
   }"

text \<open>The bytes stored by the accepted writes.\<close>

definition stored :: "u32 list \<Rightarrow> bool list \<Rightarrow> nat list" where
  "stored ns oks = map (unat \<circ> fst) (filter snd (zip ns oks))"

section \<open>The account and the cursors agree\<close>

definition fits :: "zms_fs \<Rightarrow> zms_sector \<Rightarrow> bool" where
  "fits f s \<longleftrightarrow> zms_inv f \<and> sector_inv (zf_ate_size f) s \<and>
     unat (zs_ate_wra s) = unat (zf_free_space f) + unat (zs_data_wra s) + unat (zf_ate_size f)"

lemma write_decide_eq:
  "write_decide n f =
     Some (if unat n + unat (zf_ate_size f) \<le> unat (zf_free_space f) then \<lparr>zw_action = WriteOk, zw_needs_gc = False\<rparr>
           else \<lparr>zw_action = NeedsGc, zw_needs_gc = True\<rparr>)"
proof -
  have s: "unat (ucast n :: u64) + unat (ucast (zf_ate_size f) :: u64) < 2 ^ 64"
    using unat_u32_less [of n] unat_u32_less [of "zf_ate_size f"] by simp
  then have "unat (ucast n + ucast (zf_ate_size f) :: u64) = unat n + unat (zf_ate_size f)"
    by (simp add: unat_add_lem [THEN iffD1])
  then show ?thesis using s by (simp add: write_decide_def run_simps word_le_nat_alt)
qed

lemma sector_has_space_iff:
  "sector_has_space needed s = Some (0 < zs_ate_wra s \<and> unat (zs_data_wra s) + unat needed \<le> unat (zs_ate_wra s))"
proof -
  have b: "unat (ucast (zs_data_wra s) :: u64) + unat (ucast needed :: u64) < 2 ^ 64"
    using unat_u32_less [of needed] unat_u32_less [of "zs_data_wra s"] by simp
  then have "unat (ucast (zs_data_wra s) + ucast needed :: u64) = unat (zs_data_wra s) + unat needed"
    by (simp add: unat_add_lem [THEN iffD1])
  then show ?thesis using b by (simp add: sector_has_space_def run_simps word_le_nat_alt)
qed

lemma gc_needed_eq:
  assumes "data_wra \<le> ate_wra"
  shows "gc_needed ate_wra data_wra needed =
    Some (if unat data_wra + unat needed \<le> unat ate_wra then \<lparr>zg_action = 0, zg_sectors_to_gc = 0\<rparr>
          else \<lparr>zg_action = 1, zg_sectors_to_gc = 1\<rparr>)"
proof -
  have "(ucast data_wra :: u64) \<le> ucast ate_wra" using assms by (simp add: word_le_nat_alt)
  moreover from this have "unat (ucast ate_wra - ucast data_wra :: u64) = unat ate_wra - unat data_wra"
    by (simp add: unat_sub)
  ultimately show ?thesis using assms by (auto simp: gc_needed_def run_simps word_le_nat_alt)
qed

lemma zms_write_fits:
  assumes "fits f s"
  shows "\<exists>ok f' s'. zms_write n (f, s) = Some (ok, f', s') \<and> fits f' s' \<and> zf_ate_size f' = zf_ate_size f \<and>
           unat (zs_data_wra s') = unat (zs_data_wra s) + (if ok then unat n else 0) \<and>
           unat (zs_ate_wra s') + (if ok then unat (zf_ate_size f) else 0) = unat (zs_ate_wra s)"
  using assms unat_u32_less [of "zs_ate_wra s"]
  by (auto simp: fits_def zms_inv_def sector_inv_def zms_write_def write_decide_eq consume_space_def u32_iffs
      split: if_splits Option.bind_splits)

lemma zms_init_fits:
  assumes "zms_init cnt sz ate = Some (Ok f)" and "sector_init sz ate c = Some (Ok s)" and "0 < ate"
  shows "fits f s" "zf_ate_size f = ate" "unat (zs_ate_wra s) + 3 * unat ate = unat sz" "zs_data_wra s = 0"
  using assms
  by (auto simp: zms_init_def sector_init_def fits_def zms_inv_def sector_inv_def u32_iffs
      split: if_splits Option.bind_splits)

lemma zms_writes_run:
  assumes "fits f s"
  shows "\<exists>oks f' s'. zms_writes ns (f, s) = Some (oks, f', s') \<and> length oks = length ns \<and> fits f' s' \<and>
           zf_ate_size f' = zf_ate_size f \<and>
           unat (zs_data_wra s') = unat (zs_data_wra s) + sum_list (stored ns oks) \<and>
           unat (zs_ate_wra s') + length (stored ns oks) * unat (zf_ate_size f) = unat (zs_ate_wra s)"
  using assms
proof (induction ns arbitrary: f s)
  case Nil
  then show ?case by (simp add: stored_def)
next
  case (Cons n ns)
  obtain ok f1 s1 where 1: "zms_write n (f, s) = Some (ok, f1, s1)" "fits f1 s1" "zf_ate_size f1 = zf_ate_size f"
    "unat (zs_data_wra s1) = unat (zs_data_wra s) + (if ok then unat n else 0)"
    "unat (zs_ate_wra s1) + (if ok then unat (zf_ate_size f) else 0) = unat (zs_ate_wra s)"
    using zms_write_fits [OF Cons.prems, of n] by blast
  obtain oks f' s' where 2: "zms_writes ns (f1, s1) = Some (oks, f', s')" "length oks = length ns" "fits f' s'"
    "zf_ate_size f' = zf_ate_size f1" "unat (zs_data_wra s') = unat (zs_data_wra s1) + sum_list (stored ns oks)"
    "unat (zs_ate_wra s') + length (stored ns oks) * unat (zf_ate_size f1) = unat (zs_ate_wra s1)"
    using Cons.IH [OF 1(2)] by blast
  show ?case using 1 2 by (auto simp: stored_def)
qed

text \<open>A reused sector gets a cycle counter that differs from the one of its close entry.\<close>

lemma increment_cycle_fresh:
  "\<exists>s'. increment_cycle c s = Some s' \<and> zs_cycle_cnt s' \<noteq> c \<and>
     zs_cycle_cnt s' = zs_cycle_cnt s + (if zs_cycle_cnt s + 1 = c then 2 else 1)"
proof -
  have "unat (zs_cycle_cnt s) < 2 ^ LENGTH(8)" by (rule unsigned_less)
  then have u: "unat (ucast (zs_cycle_cnt s) :: u16) = unat (zs_cycle_cnt s)" "unat (zs_cycle_cnt s) < 256"
    by (simp_all add: unsigned_ucast_eq take_bit_nat_eq_self)
  have k: "ucast ((ucast (zs_cycle_cnt s) + k :: u16) mod 256) = zs_cycle_cnt s + ucast k" for k
    by (simp add: word_unat_eq_iff unat_word_ariths unsigned_ucast_eq take_bit_eq_mod u mod_simps mod_mod_cancel)
  show ?thesis using u k [of 1] k [of 2]
    by (auto simp: increment_cycle_def add_chk_def Let_def)
qed

section \<open>Properties\<close>



text \<open>
  The reservation is made twice, in the account and in the decision: a sector with space
  for one more entry of 16 bytes is sent to collection.
\<close>

lemma zms_reserves_two_entries:
  "let f = \<lparr>zf_sector_count = 2, zf_current_sector = 0, zf_ate_size = 16, zf_free_space = 0\<rparr>;
       s = \<lparr>zs_ate_wra = 16, zs_data_wra = 0, zs_sector_size = 1024, zs_cycle_cnt = 1, zs_is_open = True, zs_is_closed = False\<rparr>
   in fits f s \<and> sector_has_space 16 s = Some True \<and> write_decide 0 f = Some \<lparr>zw_action = NeedsGc, zw_needs_gc = True\<rparr>"
  by (simp add: fits_def zms_inv_def sector_inv_def sector_has_space_iff write_decide_eq)

end
