(* ===== verification/Userspace.thy ===== *)
theory Userspace
  imports Kernel_Thread
begin

text \<open>
  Kernel object permissions (src/userspace.rs): the permission bits of an object, the
  access check and the validation that guards every system call. The main property
  characterises who passes validation by the history of the object.
\<close>

section \<open>Kernel objects\<close>

definition MAX_THREADS :: u32 where
  "MAX_THREADS = 64"

datatype obj_type =
    OT_Any | OT_Thread | OT_Sem | OT_Mutex | OT_CondVar | OT_MsgQ | OT_Stack | OT_Pipe | OT_Timer | OT_Event
  | OT_MemSlab | OT_Fifo | OT_Lifo | OT_SysMutex | OT_Futex | OT_Mbox

datatype init_check = MustBeInit | MustNotBeInit | DontCare

record kernel_object =
  ko_obj_type :: obj_type
  ko_flag_initialized :: bool
  ko_flag_public :: bool
  ko_flag_alloc :: bool
  ko_flag_driver :: bool
  ko_thread_perms :: "bool list"

text \<open>The permission array has 64 entries by its type.\<close>

definition ko_arrays :: "kernel_object \<Rightarrow> bool" where
  "ko_arrays k \<longleftrightarrow> length (ko_thread_perms k) = 64"

definition ko_new :: "obj_type \<Rightarrow> kernel_object" where
  "ko_new ty = \<lparr>ko_obj_type = ty, ko_flag_initialized = False, ko_flag_public = False, ko_flag_alloc = False,
     ko_flag_driver = False, ko_thread_perms = replicate 64 False\<rparr>"

definition grant_access :: "u32 \<Rightarrow> kernel_object \<Rightarrow> (i32 \<times> kernel_object) run" where
  "grant_access tid k =
     (if MAX_THREADS \<le> tid then Ret (EINVAL, k)
      else do { ps \<leftarrow> arr_set (ko_thread_perms k) (unat tid) True; Ret (OK_code, k\<lparr>ko_thread_perms := ps\<rparr>) })"

definition revoke_access :: "u32 \<Rightarrow> kernel_object \<Rightarrow> (i32 \<times> kernel_object) run" where
  "revoke_access tid k =
     (if MAX_THREADS \<le> tid then Ret (EINVAL, k)
      else do { ps \<leftarrow> arr_set (ko_thread_perms k) (unat tid) False; Ret (OK_code, k\<lparr>ko_thread_perms := ps\<rparr>) })"

definition clear_thread_perm :: "u32 \<Rightarrow> kernel_object \<Rightarrow> (i32 \<times> kernel_object) run" where
  "clear_thread_perm tid k = revoke_access tid k"

definition clear_all_perms :: "kernel_object \<Rightarrow> kernel_object" where
  "clear_all_perms k = k\<lparr>ko_thread_perms := replicate 64 False\<rparr>"

definition check_access :: "u32 \<Rightarrow> bool \<Rightarrow> kernel_object \<Rightarrow> bool run" where
  "check_access tid is_supervisor k =
     (if is_supervisor then Ret True
      else if ko_flag_public k then Ret True
      else if MAX_THREADS \<le> tid then Ret False
      else arr_get (ko_thread_perms k) (unat tid))"

definition type_ok :: "obj_type \<Rightarrow> kernel_object \<Rightarrow> bool" where
  "type_ok expected_type k = (case expected_type of OT_Any \<Rightarrow> True | ty \<Rightarrow> ko_obj_type k = ty)"

definition validate :: "obj_type \<Rightarrow> u32 \<Rightarrow> bool \<Rightarrow> init_check \<Rightarrow> kernel_object \<Rightarrow> unit result run" where
  "validate expected_type tid is_supervisor chk k =
     (if \<not> type_ok expected_type k then Ret (Err EBADF)
      else do {
        granted \<leftarrow> check_access tid is_supervisor k;
        if \<not> granted then Ret (Err EPERM)
        else case chk of
          MustBeInit \<Rightarrow> if \<not> ko_flag_initialized k then Ret (Err EINVAL) else Ret (Ok ())
        | MustNotBeInit \<Rightarrow> if ko_flag_initialized k then Ret (Err EADDRINUSE) else Ret (Ok ())
        | DontCare \<Rightarrow> Ret (Ok ())
      })"

definition init_object :: "kernel_object \<Rightarrow> kernel_object" where
  "init_object k = k\<lparr>ko_flag_initialized := True\<rparr>"

definition uninit_object :: "kernel_object \<Rightarrow> kernel_object" where
  "uninit_object k = k\<lparr>ko_flag_initialized := False\<rparr>"

definition recycle :: "u32 \<Rightarrow> kernel_object \<Rightarrow> (i32 \<times> kernel_object) run" where
  "recycle current_tid k = do {
     ps \<leftarrow> arr_set (replicate 64 False) (unat current_tid) True;
     Ret (OK_code, k\<lparr>ko_thread_perms := ps, ko_flag_initialized := True\<rparr>)
   }"

definition make_public :: "kernel_object \<Rightarrow> kernel_object" where
  "make_public k = k\<lparr>ko_flag_public := True\<rparr>"

definition has_perm :: "u32 \<Rightarrow> kernel_object \<Rightarrow> bool run" where
  "has_perm tid k = arr_get (ko_thread_perms k) (unat tid)"

section \<open>Decisions\<close>

definition access_decide :: "bool \<Rightarrow> bool \<Rightarrow> bool" where
  "access_decide is_public has_perm_bit \<longleftrightarrow> is_public \<or> has_perm_bit"

definition validate_decide :: "bool \<Rightarrow> bool \<Rightarrow> bool \<Rightarrow> int \<Rightarrow> unit result" where
  "validate_decide type_matches has_access is_initialized chk =
     (if \<not> type_matches then Err EBADF
      else if \<not> has_access then Err EPERM
      else if chk = 0 then (if \<not> is_initialized then Err EINVAL else Ok ())
      else if chk = -1 then (if is_initialized then Err EADDRINUSE else Ok ())
      else Ok ())"

definition FLAG_INITIALIZED :: u8 where
  "FLAG_INITIALIZED = 1"

definition FLAG_PUBLIC :: u8 where
  "FLAG_PUBLIC = 2"

definition init_flags_decide :: "u8 \<Rightarrow> u8" where
  "init_flags_decide current_flags = current_flags OR FLAG_INITIALIZED"

definition uninit_flags_decide :: "u8 \<Rightarrow> u8" where
  "uninit_flags_decide current_flags = current_flags AND NOT FLAG_INITIALIZED"

definition recycle_flags_decide :: "u8 \<Rightarrow> u8" where
  "recycle_flags_decide current_flags = current_flags OR FLAG_INITIALIZED"

section \<open>Histories\<close>

datatype perm_op =
    P_grant u32
  | P_revoke u32
  | P_clear_thread u32
  | P_clear_all
  | P_init
  | P_uninit
  | P_recycle u32
  | P_public

fun perm_step :: "perm_op \<Rightarrow> kernel_object \<Rightarrow> kernel_object run" where
  "perm_step (P_grant t) k = do { (rc, k) \<leftarrow> grant_access t k; Ret k }"
| "perm_step (P_revoke t) k = do { (rc, k) \<leftarrow> revoke_access t k; Ret k }"
| "perm_step (P_clear_thread t) k = do { (rc, k) \<leftarrow> clear_thread_perm t k; Ret k }"
| "perm_step P_clear_all k = Ret (clear_all_perms k)"
| "perm_step P_init k = Ret (init_object k)"
| "perm_step P_uninit k = Ret (uninit_object k)"
| "perm_step (P_recycle t) k = do { (rc, k) \<leftarrow> recycle t k; Ret k }"
| "perm_step P_public k = Ret (make_public k)"

text \<open>Operations that give thread t the permission, and operations that take it away.\<close>

fun gives :: "u32 \<Rightarrow> perm_op \<Rightarrow> bool" where
  "gives t (P_grant u) = (u = t)"
| "gives t (P_recycle u) = (u = t)"
| "gives t _ = False"

fun takes :: "u32 \<Rightarrow> perm_op \<Rightarrow> bool" where
  "takes t (P_revoke u) = (u = t)"
| "takes t (P_clear_thread u) = (u = t)"
| "takes t P_clear_all = True"
| "takes t (P_recycle u) = (u \<noteq> t)"
| "takes t _ = False"

definition authorised :: "u32 \<Rightarrow> perm_op list \<Rightarrow> bool" where
  "authorised t ops \<longleftrightarrow> since (gives t) (takes t) ops"

definition ready_for_use :: "perm_op list \<Rightarrow> bool" where
  "ready_for_use ops \<longleftrightarrow> since (\<lambda>q. q = P_init \<or> (\<exists>t. q = P_recycle t)) (\<lambda>q. q = P_uninit) ops"

definition perm_rel :: "kernel_object \<Rightarrow> perm_op \<Rightarrow> kernel_object \<Rightarrow> bool" where
  "perm_rel k q k' \<longleftrightarrow> perm_step q k = Some k'"

text \<open>The object as its history determines it.\<close>

definition reflects :: "obj_type \<Rightarrow> perm_op list \<Rightarrow> kernel_object \<Rightarrow> bool" where
  "reflects ty ops k \<longleftrightarrow> ko_arrays k \<and> ko_obj_type k = ty \<and> ko_flag_public k = (P_public \<in> set ops) \<and>
     ko_flag_initialized k = ready_for_use ops \<and> (\<forall>t. unat t < 64 \<longrightarrow> ko_thread_perms k ! unat t = authorised t ops)"

lemmas perm_defs = grant_access_def revoke_access_def clear_thread_perm_def clear_all_perms_def init_object_def
  uninit_object_def recycle_def make_public_def arr_set_def MAX_THREADS_def

lemma reflects_step:
  assumes "reflects ty ops k" and "perm_step q k = Some k'"
  shows "reflects ty (ops @ [q]) k'"
  using assms
  by (cases q) (auto simp: reflects_def ko_arrays_def ready_for_use_def authorised_def perm_defs nth_list_update
      word_le_nat_alt word_unat_eq_iff split: if_splits)

lemma reflects_trace:
  assumes "trace perm_rel (ko_new ty) ops k"
  shows "reflects ty ops k"
  using assms
proof (induction rule: trace.induct)
  case trace_Nil
  show ?case by (simp add: reflects_def ko_new_def ko_arrays_def ready_for_use_def authorised_def)
next
  case (trace_snoc es k q k')
  then show ?case using reflects_step by (simp add: perm_rel_def)
qed

section \<open>Properties\<close>

text \<open>
  C29: Who passes the guard of a system call. After any history of grants, revocations,
  clearings, initialisations and recyclings of a kernel object, validation never panics
  and its answer, each error included, is determined by the history: the type must be the
  one the object was created with, the caller must be in supervisor mode, the object made
  public, or the caller's permission given by some operation and not taken by a later
  one, and the initialisation state must be the expected one.
\<close>

theorem validate_history:
  assumes "trace perm_rel (ko_new ty) ops k"
  shows "validate ety t su chk k = Some (
           if ety \<noteq> OT_Any \<and> ety \<noteq> ty then Err EBADF
           else if \<not> su \<and> P_public \<notin> set ops \<and> \<not> (unat t < 64 \<and> authorised t ops) then Err EPERM
           else if chk = MustBeInit \<and> \<not> ready_for_use ops then Err EINVAL
           else if chk = MustNotBeInit \<and> ready_for_use ops then Err EADDRINUSE
           else Ok ())"
proof -
  have r: "reflects ty ops k" by (rule reflects_trace [OF assms])
  have "check_access t su k = Some (su \<or> P_public \<in> set ops \<or> unat t < 64 \<and> authorised t ops)"
    using r by (auto simp: check_access_def reflects_def ko_arrays_def MAX_THREADS_def word_le_nat_alt arr_get_def)
  moreover have "type_ok ety k \<longleftrightarrow> ety = OT_Any \<or> ety = ty"
    using r by (cases ety) (auto simp: type_ok_def reflects_def)
  ultimately show ?thesis
    using r by (cases chk) (auto simp: validate_def reflects_def)
qed

theorem validate_history_witness:
  "\<exists>k. validate OT_Sem 5 False MustBeInit k = Some (Err EPERM) \<and> validate OT_Mutex 7 False MustBeInit k = Some (Err EBADF) \<and>
     validate OT_Sem 7 False MustBeInit k = Some (Ok ())"
proof -
  obtain k1 k2 where s: "perm_rel (ko_new OT_Sem) (P_grant 5) k1" "perm_rel k1 (P_recycle 7) k2"
    by (simp add: perm_rel_def ko_new_def perm_defs)
  note t = trace_two [of perm_rel, OF s]
  have "authorised 7 [P_grant 5, P_recycle 7]" "\<not> authorised 5 [P_grant 5, P_recycle 7]" "ready_for_use [P_grant 5, P_recycle 7]"
    using since_snoc [of _ _ "[P_grant 5]" "P_recycle 7"] by (simp_all add: authorised_def ready_for_use_def)
  then show ?thesis
    using validate_history [OF t, of OT_Sem 5 False MustBeInit] validate_history [OF t, of OT_Mutex 7 False MustBeInit]
      validate_history [OF t, of OT_Sem 7 False MustBeInit] by (intro exI [of _ k2]) simp
qed

text \<open>The flag bytes of the shim: the operations on them follow those on the object.\<close>

definition flags_of :: "kernel_object \<Rightarrow> u8" where
  "flags_of k = (if ko_flag_initialized k then 1 else 0) OR (if ko_flag_public k then 2 else 0)"

lemma flags_follow:
  "init_flags_decide (flags_of k) = flags_of (init_object k)"
  "uninit_flags_decide (flags_of k) = flags_of (uninit_object k)"
  by (simp_all add: flags_of_def init_flags_decide_def uninit_flags_decide_def FLAG_INITIALIZED_def init_object_def uninit_object_def)

end
