(* ===== verification/Mem_Domain.thy ===== *)
theory Mem_Domain
  imports Kernel_Thread
begin

text \<open>
  Memory domains (src/mem_domain.rs): an array of up to 16 partitions of the address
  space. The property is a refinement to the collection of active partitions.
\<close>

section \<open>Partitions and domains\<close>

definition MAX_DOMAIN_PARTITIONS :: nat where
  "MAX_DOMAIN_PARTITIONS = 16"

record mem_partition =
  mp_start :: u32
  mp_size :: u32
  mp_attr :: u32

record mem_domain =
  md_partitions :: "mem_partition list"
  md_num_partitions :: u32

definition end_u64 :: "mem_partition \<Rightarrow> u64 run" where
  "end_u64 p = add_chk (ucast (mp_start p)) (ucast (mp_size p))"

definition is_valid_rt :: "mem_partition \<Rightarrow> bool run" where
  "is_valid_rt p =
     (if 0 < mp_size p then do { e \<leftarrow> add_chk (ucast (mp_start p) :: u64) (ucast (mp_size p)); Ret (e \<le> ucast u32_max) }
      else Ret False)"

definition part_overlaps :: "mem_partition \<Rightarrow> mem_partition \<Rightarrow> bool run" where
  "part_overlaps p q = do {
     self_end \<leftarrow> add_chk (ucast (mp_start p) :: u64) (ucast (mp_size p));
     other_end \<leftarrow> add_chk (ucast (mp_start q) :: u64) (ucast (mp_size q));
     Ret (ucast (mp_start q) < self_end \<and> ucast (mp_start p) < other_end)
   }"

definition md_init :: mem_domain where
  "md_init = \<lparr>md_partitions = replicate 16 \<lparr>mp_start = 0, mp_size = 0, mp_attr = 0\<rparr>, md_num_partitions = 0\<rparr>"

function check_from :: "nat \<Rightarrow> mem_partition \<Rightarrow> mem_domain \<Rightarrow> bool run" where
  "check_from i part d =
     (if i < MAX_DOMAIN_PARTITIONS then do {
        p \<leftarrow> arr_get (md_partitions d) i;
        hit \<leftarrow> (if 0 < mp_size p then part_overlaps part p else Ret False);
        if hit then Ret False else check_from (i + 1) part d
      }
      else Ret True)"
  by pat_completeness auto
termination
  by (relation "measure (\<lambda>(i, part, d). MAX_DOMAIN_PARTITIONS - i)") auto

definition check_add_partition :: "mem_partition \<Rightarrow> mem_domain \<Rightarrow> bool run" where
  "check_add_partition part d =
     (if mp_size part = 0 then Ret False
      else do {
        pend \<leftarrow> add_chk (ucast (mp_start part) :: u64) (ucast (mp_size part));
        if ucast u32_max < pend then Ret False else check_from 0 part d
      })"

function add_from :: "nat \<Rightarrow> mem_partition \<Rightarrow> mem_domain \<Rightarrow> (u32 result \<times> mem_domain) run" where
  "add_from i part d =
     (if i < MAX_DOMAIN_PARTITIONS then do {
        p \<leftarrow> arr_get (md_partitions d) i;
        if mp_size p = 0 then do {
          ps \<leftarrow> arr_set (md_partitions d) i part;
          n \<leftarrow> add_chk (md_num_partitions d) 1;
          Ret (Ok (of_nat i), d\<lparr>md_partitions := ps, md_num_partitions := n\<rparr>)
        }
        else add_from (i + 1) part d
      }
      else Ret (Err ENOSPC, d))"
  by pat_completeness auto
termination
  by (relation "measure (\<lambda>(i, part, d). MAX_DOMAIN_PARTITIONS - i)") auto

definition add_partition :: "mem_partition \<Rightarrow> mem_domain \<Rightarrow> (u32 result \<times> mem_domain) run" where
  "add_partition part d = do {
     ok \<leftarrow> check_add_partition part d;
     if \<not> ok then Ret (Err EINVAL, d) else add_from 0 part d
   }"

function remove_from :: "nat \<Rightarrow> u32 \<Rightarrow> u32 \<Rightarrow> mem_domain \<Rightarrow> (u32 result \<times> mem_domain) run" where
  "remove_from i start sz d =
     (if i < MAX_DOMAIN_PARTITIONS then do {
        p \<leftarrow> arr_get (md_partitions d) i;
        if mp_start p = start \<and> mp_size p = sz then do {
          ps \<leftarrow> arr_set (md_partitions d) i \<lparr>mp_start = 0, mp_size = 0, mp_attr = 0\<rparr>;
          n \<leftarrow> sub_chk (md_num_partitions d) 1;
          Ret (Ok (of_nat i), d\<lparr>md_partitions := ps, md_num_partitions := n\<rparr>)
        }
        else remove_from (i + 1) start sz d
      }
      else Ret (Err ENOENT, d))"
  by pat_completeness auto
termination
  by (relation "measure (\<lambda>(i, start, sz, d). MAX_DOMAIN_PARTITIONS - i)") auto

definition remove_partition :: "u32 \<Rightarrow> u32 \<Rightarrow> mem_domain \<Rightarrow> (u32 result \<times> mem_domain) run" where
  "remove_partition start sz d = remove_from 0 start sz d"

definition partition_get :: "u32 \<Rightarrow> mem_domain \<Rightarrow> mem_partition option run" where
  "partition_get idx d =
     (if of_nat MAX_DOMAIN_PARTITIONS \<le> idx then Ret None
      else do { p \<leftarrow> arr_get (md_partitions d) (unat idx); Ret (if mp_size p = 0 then None else Some p) })"

function free_slot_from :: "nat \<Rightarrow> mem_domain \<Rightarrow> bool run" where
  "free_slot_from i d =
     (if i < MAX_DOMAIN_PARTITIONS then do {
        p \<leftarrow> arr_get (md_partitions d) i;
        if mp_size p = 0 then Ret True else free_slot_from (i + 1) d
      }
      else Ret False)"
  by pat_completeness auto
termination
  by (relation "measure (\<lambda>(i, d). MAX_DOMAIN_PARTITIONS - i)") auto

definition has_free_slot :: "mem_domain \<Rightarrow> bool run" where
  "has_free_slot d = free_slot_from 0 d"

function contains_from :: "nat \<Rightarrow> u32 \<Rightarrow> mem_domain \<Rightarrow> bool run" where
  "contains_from i addr d =
     (if i < MAX_DOMAIN_PARTITIONS then do {
        p \<leftarrow> arr_get (md_partitions d) i;
        hit \<leftarrow> (if 0 < mp_size p then do {
                 pend \<leftarrow> add_chk (ucast (mp_start p) :: u64) (ucast (mp_size p));
                 Ret ((ucast (mp_start p) :: u64) \<le> ucast addr \<and> ucast addr < pend)
               }
               else Ret False);
        if hit then Ret True else contains_from (i + 1) addr d
      }
      else Ret False)"
  by pat_completeness auto
termination
  by (relation "measure (\<lambda>(i, addr, d). MAX_DOMAIN_PARTITIONS - i)") auto

definition contains_addr :: "u32 \<Rightarrow> mem_domain \<Rightarrow> bool run" where
  "contains_addr addr d = contains_from 0 addr d"

definition partitions_overlap_decide :: "u32 \<Rightarrow> u32 \<Rightarrow> u32 \<Rightarrow> u32 \<Rightarrow> bool run" where
  "partitions_overlap_decide part_start part_size existing_start existing_size = do {
     pend \<leftarrow> add_chk (ucast part_start :: u64) (ucast part_size);
     eend \<leftarrow> add_chk (ucast existing_start :: u64) (ucast existing_size);
     Ret (ucast existing_start < pend \<and> ucast part_start < eend)
   }"

definition partition_valid_decide :: "u32 \<Rightarrow> u32 \<Rightarrow> bool run" where
  "partition_valid_decide start sz =
     (if 0 < sz then do { e \<leftarrow> add_chk (ucast start :: u64) (ucast sz); Ret (e \<le> ucast u32_max) } else Ret False)"

declare check_from.simps [simp del] add_from.simps [simp del] remove_from.simps [simp del]
  free_slot_from.simps [simp del] contains_from.simps [simp del]

section \<open>The collection of active partitions\<close>

definition active :: "mem_partition \<Rightarrow> bool" where
  "active p \<longleftrightarrow> 0 < mp_size p"

definition addrs :: "mem_partition \<Rightarrow> nat set" where
  "addrs p = {unat (mp_start p)..<unat (mp_start p) + unat (mp_size p)}"

definition part_valid :: "mem_partition \<Rightarrow> bool" where
  "part_valid p \<longleftrightarrow> 0 < mp_size p \<and> unat (mp_start p) + unat (mp_size p) < 2 ^ 32"

definition parts :: "mem_domain \<Rightarrow> mem_partition multiset" where
  "parts d = filter_mset active (mset (md_partitions d))"

text \<open>The domain invariant, with the count that the operations maintain.\<close>

definition md_inv :: "mem_domain \<Rightarrow> bool" where
  "md_inv d \<longleftrightarrow> length (md_partitions d) = 16 \<and> unat (md_num_partitions d) = size (parts d) \<and>
     (\<forall>i<16. active (md_partitions d ! i) \<longrightarrow> part_valid (md_partitions d ! i)) \<and>
     (\<forall>i<16. \<forall>j<16. i \<noteq> j \<longrightarrow> addrs (md_partitions d ! i) \<inter> addrs (md_partitions d ! j) = {})"

lemma end_eq [simp]: "add_chk (ucast a :: u64) (ucast b) = Some (ucast a + ucast b)" for a b :: u32
  using unat_u32_less [of a] unat_u32_less [of b] by (simp add: run_simps)

lemma unat_end [simp]: "unat (ucast a + ucast b :: u64) = unat a + unat b" for a b :: u32
  using unat_u32_less [of a] unat_u32_less [of b] by (simp add: unat_add_lem [THEN iffD1])

lemma part_overlaps_eq:
  assumes "active p" and "active q"
  shows "part_overlaps p q = Some (addrs p \<inter> addrs q \<noteq> {})"
proof -
  have "addrs p \<inter> addrs q \<noteq> {} \<longleftrightarrow>
      unat (mp_start q) < unat (mp_start p) + unat (mp_size p) \<and> unat (mp_start p) < unat (mp_start q) + unat (mp_size q)"
    using assms by (auto simp: addrs_def active_def word_less_nat_alt)
  then show ?thesis by (simp add: part_overlaps_def word_less_nat_alt)
qed

lemma inactive_addrs [simp]: "\<not> active p \<Longrightarrow> addrs p = {}"
  by (simp add: active_def addrs_def word_less_nat_alt)

lemma in_parts_iff: "length (md_partitions d) = 16 \<Longrightarrow> p \<in># parts d \<longleftrightarrow> (\<exists>i<16. md_partitions d ! i = p \<and> active p)"
  by (auto simp: parts_def in_set_conv_nth)

lemma check_add_partition_eq:
  assumes "length (md_partitions d) = 16"
  shows "check_add_partition p d = Some (part_valid p \<and> (\<forall>i<16. addrs p \<inter> addrs (md_partitions d ! i) = {}))"
proof (cases "part_valid p")
  case True
  then have a: "active p" by (simp add: part_valid_def active_def)
  have step: "check_from i p d =
      (if i < 16 then (if addrs p \<inter> addrs (md_partitions d ! i) \<noteq> {} then Some False else check_from (i + 1) p d) else Some True)" for i
    using part_overlaps_eq [OF a, of "md_partitions d ! i"] assms
    by (subst check_from.simps) (auto simp: MAX_DOMAIN_PARTITIONS_def run_simps active_def)
  have "check_from 0 p d = Some (\<forall>i<16. addrs p \<inter> addrs (md_partitions d ! i) = {})"
    unfolding scan_eq [of "\<lambda>i. check_from i p d", OF step]
    by (auto split: option.split simp: find_None_all dest: find_Some_first)
  then show ?thesis
    using True by (auto simp: check_add_partition_def part_valid_def word_less_nat_alt)
next
  case False
  then show ?thesis
    by (auto simp: check_add_partition_def part_valid_def word_gt_0 word_less_nat_alt [where ?'a = 64])
qed

lemma add_from_eq:
  assumes "md_inv d"
  shows "add_from 0 p d =
    (case List.find (\<lambda>i. \<not> active (md_partitions d ! i)) [0..<16] of
       Some i \<Rightarrow> Some (Ok (of_nat i), d\<lparr>md_partitions := (md_partitions d)[i := p], md_num_partitions := md_num_partitions d + 1\<rparr>)
     | None \<Rightarrow> Some (Err ENOSPC, d))"
proof (rule scan_eq)
  have "size (parts d) \<le> 16"
    using assms size_filter_mset_lesseq [of active "mset (md_partitions d)"] by (simp add: md_inv_def parts_def)
  then have "add_chk (md_num_partitions d) 1 = Some (md_num_partitions d + 1)"
    using assms by (simp add: md_inv_def run_simps)
  then show "add_from i p d =
    (if i < 16 then (if \<not> active (md_partitions d ! i)
       then Some (Ok (of_nat i), d\<lparr>md_partitions := (md_partitions d)[i := p], md_num_partitions := md_num_partitions d + 1\<rparr>)
       else add_from (i + 1) p d) else Some (Err ENOSPC, d))" for i
    using assms by (subst add_from.simps) (simp add: MAX_DOMAIN_PARTITIONS_def run_simps md_inv_def active_def word_gt_0)
qed

lemma remove_from_eq:
  assumes "md_inv d" and "sz \<noteq> 0"
  shows "remove_from 0 start sz d =
    (case List.find (\<lambda>i. mp_start (md_partitions d ! i) = start \<and> mp_size (md_partitions d ! i) = sz) [0..<16] of
       Some i \<Rightarrow> Some (Ok (of_nat i), d\<lparr>md_partitions := (md_partitions d)[i := \<lparr>mp_start = 0, mp_size = 0, mp_attr = 0\<rparr>],
                   md_num_partitions := md_num_partitions d - 1\<rparr>)
     | None \<Rightarrow> Some (Err ENOENT, d))"
proof (rule scan_eq)
  show "remove_from i start sz d =
    (if i < 16 then (if mp_start (md_partitions d ! i) = start \<and> mp_size (md_partitions d ! i) = sz
       then Some (Ok (of_nat i), d\<lparr>md_partitions := (md_partitions d)[i := \<lparr>mp_start = 0, mp_size = 0, mp_attr = 0\<rparr>],
                   md_num_partitions := md_num_partitions d - 1\<rparr>)
       else remove_from (i + 1) start sz d) else Some (Err ENOENT, d))" for i
  proof -
    have "md_num_partitions d \<noteq> 0" if "i < 16" "mp_size (md_partitions d ! i) = sz"
    proof -
      have "md_partitions d ! i \<in># parts d"
        using that assms by (auto simp: md_inv_def parts_def active_def word_gt_0)
      then show ?thesis using assms(1) by (auto simp: md_inv_def)
    qed
    then show ?thesis
      using assms by (subst remove_from.simps) (auto simp: MAX_DOMAIN_PARTITIONS_def run_simps md_inv_def)
  qed
qed

lemma contains_addr_eq:
  assumes "length (md_partitions d) = 16"
  shows "contains_addr a d = Some (\<exists>p\<in>#parts d. unat a \<in> addrs p)"
proof -
  have step: "contains_from i a d =
      (if i < 16 then (if unat a \<in> addrs (md_partitions d ! i) then Some True else contains_from (i + 1) a d) else Some False)" for i
    using assms
    by (subst contains_from.simps)
       (auto simp: MAX_DOMAIN_PARTITIONS_def run_simps addrs_def word_less_nat_alt word_le_nat_alt)
  have "contains_from 0 a d = Some (\<exists>i<16. unat a \<in> addrs (md_partitions d ! i))"
    unfolding scan_eq [of "\<lambda>i. contains_from i a d", OF step]
    by (auto split: option.split simp: find_None_all dest: find_Some_first)
  moreover have "(\<exists>i<16. unat a \<in> addrs (md_partitions d ! i)) \<longleftrightarrow> (\<exists>p\<in>#parts d. unat a \<in> addrs p)"
    unfolding Bex_def in_parts_iff [OF assms] by (metis empty_iff inactive_addrs)
  ultimately show ?thesis by (simp add: contains_addr_def)
qed

text \<open>Replacing one slot keeps the invariant when the new content is disjoint from the rest.\<close>

lemma md_inv_update:
  assumes "md_inv d" and "i < 16" and "unat n = size (filter_mset active (mset ((md_partitions d)[i := p])))"
    and "active p \<Longrightarrow> part_valid p \<and> (\<forall>j<16. addrs p \<inter> addrs (md_partitions d ! j) = {})"
  shows "md_inv (d\<lparr>md_partitions := (md_partitions d)[i := p], md_num_partitions := n\<rparr>)"
proof -
  have "addrs p \<inter> addrs (md_partitions d ! j) = {}" if "j < 16" for j
    using that assms(4) by (cases "active p") auto
  then show ?thesis
    using assms by (auto simp: md_inv_def parts_def nth_list_update Int_commute)
qed

section \<open>The refinement\<close>

datatype domain_op = D_add mem_partition | D_remove u32 u32

fun domain_step :: "domain_op \<Rightarrow> mem_domain \<Rightarrow> (u32 result \<times> mem_domain) run" where
  "domain_step (D_add p) d = add_partition p d"
| "domain_step (D_remove st sz) d = remove_partition st sz d"

text \<open>What the operation does to a collection of partitions.\<close>

fun spec_step :: "domain_op \<Rightarrow> mem_partition multiset \<Rightarrow> i32 \<times> mem_partition multiset" where
  "spec_step (D_add p) M =
     (if \<not> part_valid p \<or> (\<exists>q\<in>#M. addrs p \<inter> addrs q \<noteq> {}) then (EINVAL, M)
      else if size M = 16 then (ENOSPC, M)
      else (0, add_mset p M))"
| "spec_step (D_remove st sz) M =
     (if \<exists>q\<in>#M. mp_start q = st \<and> mp_size q = sz then (0, {#q \<in># M. \<not> (mp_start q = st \<and> mp_size q = sz)#})
      else (ENOENT, M))"

definition code_of :: "u32 result \<Rightarrow> i32" where
  "code_of r = (case r of Inl e \<Rightarrow> e | Inr _ \<Rightarrow> 0)"

lemma add_refines:
  assumes "md_inv d"
  shows "\<exists>r d'. add_partition p d = Some (r, d') \<and> md_inv d' \<and> (code_of r, parts d') = spec_step (D_add p) (parts d)"
proof -
  let ?ps = "md_partitions d"
  have l: "length ?ps = 16" using assms by (simp add: md_inv_def)
  have none: "(\<exists>q\<in>#parts d. addrs p \<inter> addrs q \<noteq> {}) \<longleftrightarrow> (\<exists>i<16. addrs p \<inter> addrs (?ps ! i) \<noteq> {})"
    unfolding Bex_def in_parts_iff [OF l] by (metis Int_empty_right inactive_addrs)
  show ?thesis
  proof (cases "part_valid p \<and> (\<forall>i<16. addrs p \<inter> addrs (?ps ! i) = {})")
    case False
    then show ?thesis using assms none by (auto simp: add_partition_def check_add_partition_eq [OF l] code_of_def)
  next
    case True
    then have ok: "\<not> (\<not> part_valid p \<or> (\<exists>q\<in>#parts d. addrs p \<inter> addrs q \<noteq> {}))" using none by blast
    have a: "active p" using True by (simp add: part_valid_def active_def)
    show ?thesis
    proof (cases "List.find (\<lambda>i. \<not> active (?ps ! i)) [0..<16]")
      case None
      then have "parts d = mset ?ps"
        using l unfolding parts_def find_None_all by (auto simp: filter_mset_eq_conv in_set_conv_nth)
      then show ?thesis using None ok True assms l
        by (simp add: add_partition_def check_add_partition_eq [OF l] add_from_eq [OF assms] code_of_def)
    next
      case (Some i)
      note i = find_Some_first [OF Some]
      have m: "filter_mset active (mset (?ps[i := p])) = add_mset p (parts d)"
        using i a l by (simp add: parts_def mset_update filter_diff_mset)
      have sz: "size (parts d) < 16"
        using size_filter_mset_lesseq [of active "mset (?ps[i := p])"] l unfolding m by simp
      then have "unat (md_num_partitions d + 1) = size (add_mset p (parts d))"
        using assms u32_plus [of "md_num_partitions d" 1] by (simp add: md_inv_def)
      then have "md_inv (d\<lparr>md_partitions := ?ps[i := p], md_num_partitions := md_num_partitions d + 1\<rparr>)"
        using assms i(1) True m by (intro md_inv_update) simp_all
      then show ?thesis using Some ok True m sz
        by (simp add: add_partition_def check_add_partition_eq [OF l] add_from_eq [OF assms] code_of_def parts_def)
    qed
  qed
qed

lemma nth_other:
  assumes "i < length xs" and "q \<in># mset xs - {#xs ! i#}"
  shows "\<exists>j<length xs. j \<noteq> i \<and> q = xs ! j"
proof -
  have "mset xs = add_mset (xs ! i) (mset (take i xs @ drop (Suc i) xs))"
    by (subst id_take_nth_drop [OF assms(1)]) simp
  then have "q \<in> set (take i xs) \<union> set (drop (Suc i) xs)" using assms(2) by simp
  then consider j where "j < i" "q = xs ! j" | j where "j < length xs - Suc i" "q = xs ! (Suc i + j)"
    using assms(1) by (force simp: in_set_conv_nth)
  then show ?thesis
  proof cases
    case 1
    then show ?thesis using assms(1) by (intro exI [of _ j]) simp
  next
    case 2
    then show ?thesis by (intro exI [of _ "Suc i + j"]) simp
  qed
qed

lemma remove_refines:
  assumes "md_inv d" and "sz \<noteq> 0"
  shows "\<exists>r d'. remove_partition st sz d = Some (r, d') \<and> md_inv d' \<and> (code_of r, parts d') = spec_step (D_remove st sz) (parts d)"
proof -
  let ?ps = "md_partitions d" and ?hit = "\<lambda>q. mp_start q = st \<and> mp_size q = sz" and ?e = "\<lparr>mp_start = 0, mp_size = 0, mp_attr = 0\<rparr>"
  have l: "length ?ps = 16" using assms by (simp add: md_inv_def)
  have hit: "active q" if "?hit q" for q using that assms(2) by (auto simp: active_def word_gt_0)
  show ?thesis
  proof (cases "List.find (\<lambda>i. ?hit (?ps ! i)) [0..<16]")
    case None
    then have "\<not> (\<exists>q\<in>#parts d. ?hit q)"
      unfolding Bex_def in_parts_iff [OF l] find_None_all by metis
    then show ?thesis using None assms
      by (auto simp: remove_partition_def remove_from_eq [OF assms] code_of_def)
  next
    case (Some i)
    note i = find_Some_first [OF Some]
    have other: "\<not> ?hit q" if q: "q \<in># mset ?ps - {#?ps ! i#}" for q
    proof
      assume h: "?hit q"
      obtain j where j: "j < 16" "j \<noteq> i" "q = ?ps ! j" using nth_other [of i ?ps q] q i(1) l by auto
      then have "addrs (?ps ! j) \<inter> addrs (?ps ! i) = {}" using assms(1) i(1) by (simp add: md_inv_def)
      moreover have "unat st \<in> addrs (?ps ! j)" "unat st \<in> addrs (?ps ! i)"
        using h i(2) j(3) assms(2) by (auto simp: addrs_def unat_gt_0)
      ultimately show False by blast
    qed
    obtain N where m: "mset ?ps = add_mset (?ps ! i) N" using i(1) l by (metis insert_DiffM nth_mem_mset)
    have upd: "mset (?ps[i := ?e]) = add_mset ?e N" using i(1) l m by (simp add: mset_update)
    have "filter_mset (\<lambda>q. \<not> ?hit q) (filter_mset active N) = filter_mset active N"
      using other by (intro multiset_eqI) (auto simp: m count_eq_zero_iff)
    then have p: "filter_mset active (mset (?ps[i := ?e])) = {#q \<in># parts d. \<not> ?hit q#}"
      using i(2) by (simp add: upd parts_def m active_def)
    have sz: "size (parts d) = Suc (size (filter_mset active (mset (?ps[i := ?e]))))"
      using hit [OF i(2)] by (simp add: upd parts_def m) (simp add: active_def)
    then have "unat (md_num_partitions d - 1) = size (filter_mset active (mset (?ps[i := ?e])))"
      using assms(1) by (simp add: md_inv_def unat_sub word_le_nat_alt)
    then have "md_inv (d\<lparr>md_partitions := ?ps[i := ?e], md_num_partitions := md_num_partitions d - 1\<rparr>)"
      using assms i(1) by (intro md_inv_update) (simp_all add: active_def)
    moreover have "\<exists>q\<in>#parts d. ?hit q" unfolding Bex_def in_parts_iff [OF l] using i(1,2) hit by blast
    ultimately show ?thesis using Some p
      by (simp add: remove_partition_def remove_from_eq [OF assms] code_of_def parts_def)
  qed
qed

primrec domain_run :: "domain_op list \<Rightarrow> mem_domain \<Rightarrow> (i32 list \<times> mem_domain) run" where
  "domain_run [] d = Ret ([], d)"
| "domain_run (x # xs) d = do {
     (r, d) \<leftarrow> domain_step x d;
     (rs, d) \<leftarrow> domain_run xs d;
     Ret (code_of r # rs, d)
   }"

primrec spec_run :: "domain_op list \<Rightarrow> mem_partition multiset \<Rightarrow> i32 list \<times> mem_partition multiset" where
  "spec_run [] M = ([], M)"
| "spec_run (x # xs) M = (let (c, M) = spec_step x M; (cs, M) = spec_run xs M in (c # cs, M))"

fun removes_something :: "domain_op \<Rightarrow> bool" where
  "removes_something (D_add p) = True"
| "removes_something (D_remove st sz) = (sz \<noteq> 0)"

lemma domain_run_refines:
  assumes "md_inv d" and "\<forall>x\<in>set ops. removes_something x"
  shows "\<exists>cs d'. domain_run ops d = Some (cs, d') \<and> md_inv d' \<and> (cs, parts d') = spec_run ops (parts d)"
  using assms
proof (induction ops arbitrary: d)
  case (Cons x ops)
  obtain r d1 where 1: "domain_step x d = Some (r, d1)" "md_inv d1" "(code_of r, parts d1) = spec_step x (parts d)"
  proof (cases x)
    case (D_add p)
    then show thesis using that add_refines [OF Cons.prems(1), of p] by auto
  next
    case (D_remove st sz)
    then show thesis using that remove_refines [OF Cons.prems(1), of sz st] Cons.prems(2) by auto
  qed
  obtain cs d' where 2: "domain_run ops d1 = Some (cs, d')" "md_inv d'" "(cs, parts d') = spec_run ops (parts d1)"
    using Cons.IH [OF 1(2)] Cons.prems(2) by auto
  show ?case using 1 2 by (auto simp: Let_def split: prod.splits)
qed simp

lemma parts_disjoint:
  assumes "md_inv d" and "p \<in># parts d" and "q \<in># parts d - {#p#}"
  shows "addrs p \<inter> addrs q = {}"
proof -
  have l: "length (md_partitions d) = 16" using assms(1) by (simp add: md_inv_def)
  obtain i where i: "i < 16" "p = md_partitions d ! i" using assms(2) by (auto simp: in_parts_iff [OF l])
  have "parts d - {#p#} \<subseteq># mset (md_partitions d) - {#p#}"
    by (simp add: parts_def subseteq_mset_def diff_le_mono)
  then obtain j where "j < 16" "j \<noteq> i" "q = md_partitions d ! j"
    using nth_other [of i "md_partitions d" q] assms(3) i l by (auto dest: mset_subset_eqD)
  then show ?thesis using assms(1) i by (simp add: md_inv_def)
qed

lemma md_init_inv: "md_inv md_init" "parts md_init = {#}"
  by (simp_all add: md_inv_def md_init_def parts_def active_def addrs_def)

text \<open>
  Removing the empty partition matches a free slot: the call reports success and the
  count drops below the number of active partitions.
\<close>

lemma remove_empty_miscounts:
  fixes d :: mem_domain
  assumes "d = \<lparr>md_partitions = \<lparr>mp_start = 64, mp_size = 32, mp_attr = 0\<rparr> # replicate 15 \<lparr>mp_start = 0, mp_size = 0, mp_attr = 0\<rparr>,
                 md_num_partitions = 1\<rparr>"
  shows "\<exists>d'. remove_partition 0 0 d = Some (Ok 1, d') \<and> md_num_partitions d' = 0 \<and> size (parts d') = 1"
proof -
  have "remove_from 0 0 0 d = remove_from 1 0 0 d"
    using assms by (subst remove_from.simps) (simp add: MAX_DOMAIN_PARTITIONS_def arr_get_def)
  also have "\<dots> = Some (Ok 1, d\<lparr>md_num_partitions := 0\<rparr>)"
    using assms by (subst remove_from.simps) (simp add: MAX_DOMAIN_PARTITIONS_def arr_get_def arr_set_def sub_chk_def numeral_eq_Suc)
  finally show ?thesis
    using assms by (simp add: remove_partition_def parts_def active_def)
qed

section \<open>Properties\<close>

text \<open>
  C30: A memory domain is a collection of disjoint partitions. From the empty domain, any
  sequence of additions and removals of nonempty ranges runs without a panic, answers
  each call like the abstract collection (rejecting invalid or overlapping partitions,
  the seventeenth partition and unknown ranges), counts its partitions, keeps them valid
  and disjoint, and an address is in the domain exactly when some partition of the
  collection contains it.
\<close>

theorem domain_refines_collection:
  assumes "\<forall>x\<in>set ops. removes_something x"
  shows "\<exists>cs d. domain_run ops md_init = Some (cs, d) \<and> (cs, parts d) = spec_run ops {#} \<and>
           unat (md_num_partitions d) = size (parts d) \<and> size (parts d) \<le> 16 \<and>
           (\<forall>p\<in>#parts d. part_valid p) \<and>
           (\<forall>p q. p \<in># parts d \<and> q \<in># parts d - {#p#} \<longrightarrow> addrs p \<inter> addrs q = {}) \<and>
           contains_addr a d = Some (\<exists>p\<in>#parts d. unat a \<in> addrs p)"
proof -
  obtain cs d where d: "domain_run ops md_init = Some (cs, d)" "md_inv d" "(cs, parts d) = spec_run ops {#}"
    using domain_run_refines [OF md_init_inv(1) assms] by (auto simp: md_init_inv(2))
  have l: "length (md_partitions d) = 16" using d(2) by (simp add: md_inv_def)
  have "size (parts d) \<le> 16"
    using size_filter_mset_lesseq [of active "mset (md_partitions d)"] l by (simp add: parts_def)
  moreover have "\<forall>p\<in>#parts d. part_valid p"
    using d(2) by (auto simp: in_parts_iff [OF l] md_inv_def)
  ultimately show ?thesis
    using d contains_addr_eq [OF l, of a] parts_disjoint [OF d(2)]
    by (intro exI [of _ cs] exI [of _ d]) (auto simp: md_inv_def)
qed

theorem domain_refines_collection_witness:
  "\<exists>cs d. domain_run [D_add \<lparr>mp_start = 64, mp_size = 32, mp_attr = 0\<rparr>, D_remove 64 32] md_init = Some (cs, d) \<and>
     unat (md_num_partitions d) = size (parts d)"
  using domain_refines_collection [of "[D_add \<lparr>mp_start = 64, mp_size = 32, mp_attr = 0\<rparr>, D_remove 64 32]"]
  by (force simp del: domain_run.simps)

end
