(* ===== verification/Net_Buf.thy ===== *)
theory Net_Buf
  imports Kernel_Thread
begin

text \<open>
  Network buffers (src/net_buf.rs): the pool that counts the buffers in use, and the
  buffer with its data window and reference count. The property composes the two: the
  pool counts exactly the buffers that still have a reference.
\<close>

section \<open>The pool\<close>

record net_buf_pool =
  np_capacity :: u16
  np_allocated :: u16

definition pool_inv :: "net_buf_pool \<Rightarrow> bool" where
  "pool_inv p \<longleftrightarrow> 0 < np_capacity p \<and> np_allocated p \<le> np_capacity p"

definition pool_init :: "u16 \<Rightarrow> net_buf_pool result" where
  "pool_init capacity = (if capacity = 0 then Err EINVAL else Ok \<lparr>np_capacity = capacity, np_allocated = 0\<rparr>)"

definition pool_alloc :: "net_buf_pool \<Rightarrow> (i32 \<times> net_buf_pool) run" where
  "pool_alloc p =
     (if np_allocated p < np_capacity p
      then do { a \<leftarrow> add_chk (np_allocated p) 1; Ret (OK_code, p\<lparr>np_allocated := a\<rparr>) }
      else Ret (ENOMEM, p))"

definition pool_free :: "net_buf_pool \<Rightarrow> (i32 \<times> net_buf_pool) run" where
  "pool_free p =
     (if 0 < np_allocated p
      then do { a \<leftarrow> sub_chk (np_allocated p) 1; Ret (OK_code, p\<lparr>np_allocated := a\<rparr>) }
      else Ret (EINVAL, p))"

definition pool_free_get :: "net_buf_pool \<Rightarrow> u16 run" where
  "pool_free_get p = sub_chk (np_capacity p) (np_allocated p)"

definition pool_is_full :: "net_buf_pool \<Rightarrow> bool" where
  "pool_is_full p \<longleftrightarrow> np_allocated p = np_capacity p"

definition pool_is_empty :: "net_buf_pool \<Rightarrow> bool" where
  "pool_is_empty p \<longleftrightarrow> np_allocated p = 0"

section \<open>The buffer\<close>

record net_buf =
  nb_size :: u16
  nb_head_offset :: u16
  nb_len :: u16
  nb_ref_count :: u8

definition nb_inv :: "net_buf \<Rightarrow> bool" where
  "nb_inv b \<longleftrightarrow> 0 < nb_size b \<and> unat (nb_head_offset b) + unat (nb_len b) \<le> unat (nb_size b) \<and> 1 \<le> nb_ref_count b"

definition nb_init :: "u16 \<Rightarrow> net_buf result" where
  "nb_init sz = (if sz = 0 then Err EINVAL else Ok \<lparr>nb_size = sz, nb_head_offset = 0, nb_len = 0, nb_ref_count = 1\<rparr>)"

definition nb_reset :: "u16 \<Rightarrow> net_buf \<Rightarrow> i32 \<times> net_buf" where
  "nb_reset reserve b =
     (if nb_size b < reserve then (EINVAL, b) else (OK_code, b\<lparr>nb_head_offset := reserve, nb_len := 0\<rparr>))"

definition nb_ref_get :: "net_buf \<Rightarrow> (i32 \<times> net_buf) run" where
  "nb_ref_get b =
     (if nb_ref_count b < 255
      then do { r \<leftarrow> add_chk (nb_ref_count b) 1; Ret (OK_code, b\<lparr>nb_ref_count := r\<rparr>) }
      else Ret (EOVERFLOW, b))"

definition nb_unref :: "net_buf \<Rightarrow> (bool \<times> net_buf) run" where
  "nb_unref b =
     (if 1 < nb_ref_count b
      then do { r \<leftarrow> sub_chk (nb_ref_count b) 1; Ret (False, b\<lparr>nb_ref_count := r\<rparr>) }
      else Ret (True, b\<lparr>nb_ref_count := 0\<rparr>))"

definition nb_headroom :: "net_buf \<Rightarrow> u16" where
  "nb_headroom b = nb_head_offset b"

definition nb_tailroom :: "net_buf \<Rightarrow> u16 run" where
  "nb_tailroom b = do { a \<leftarrow> sub_chk (nb_size b) (nb_head_offset b); sub_chk a (nb_len b) }"

definition nb_max_len :: "net_buf \<Rightarrow> u16 run" where
  "nb_max_len b = sub_chk (nb_size b) (nb_head_offset b)"

definition nb_add :: "u16 \<Rightarrow> net_buf \<Rightarrow> (i32 \<times> net_buf) run" where
  "nb_add bytes b = do {
     a \<leftarrow> sub_chk (nb_size b) (nb_head_offset b);
     tailroom \<leftarrow> sub_chk a (nb_len b);
     if tailroom < bytes then Ret (ENOMEM, b)
     else do { l \<leftarrow> add_chk (nb_len b) bytes; Ret (OK_code, b\<lparr>nb_len := l\<rparr>) }
   }"

definition nb_remove :: "u16 \<Rightarrow> net_buf \<Rightarrow> (i32 \<times> net_buf) run" where
  "nb_remove bytes b =
     (if nb_len b < bytes then Ret (EINVAL, b)
      else do { l \<leftarrow> sub_chk (nb_len b) bytes; Ret (OK_code, b\<lparr>nb_len := l\<rparr>) })"

definition nb_push :: "u16 \<Rightarrow> net_buf \<Rightarrow> (i32 \<times> net_buf) run" where
  "nb_push bytes b =
     (if nb_head_offset b < bytes then Ret (EINVAL, b)
      else do {
        h \<leftarrow> sub_chk (nb_head_offset b) bytes;
        l \<leftarrow> add_chk (nb_len b) bytes;
        Ret (OK_code, b\<lparr>nb_head_offset := h, nb_len := l\<rparr>)
      })"

definition nb_pull :: "u16 \<Rightarrow> net_buf \<Rightarrow> (i32 \<times> net_buf) run" where
  "nb_pull bytes b =
     (if nb_len b < bytes then Ret (EINVAL, b)
      else do {
        h \<leftarrow> add_chk (nb_head_offset b) bytes;
        l \<leftarrow> sub_chk (nb_len b) bytes;
        Ret (OK_code, b\<lparr>nb_head_offset := h, nb_len := l\<rparr>)
      })"

section \<open>Decisions\<close>

definition nb_alloc_decide :: "u16 \<Rightarrow> u16 \<Rightarrow> u16 result run" where
  "nb_alloc_decide allocated capacity =
     (if allocated < capacity then do { a \<leftarrow> add_chk allocated 1; Ret (Ok a) } else Ret (Err ENOMEM))"

definition nb_free_decide :: "u16 \<Rightarrow> u16 result run" where
  "nb_free_decide allocated = (if 0 < allocated then do { a \<leftarrow> sub_chk allocated 1; Ret (Ok a) } else Ret (Err EINVAL))"

definition nb_ref_decide :: "u8 \<Rightarrow> u8 result run" where
  "nb_ref_decide ref_count = (if ref_count < 255 then do { r \<leftarrow> add_chk ref_count 1; Ret (Ok r) } else Ret (Err EOVERFLOW))"

definition nb_unref_decide :: "u8 \<Rightarrow> (u8 \<times> bool) result run" where
  "nb_unref_decide ref_count =
     (if ref_count = 0 then Ret (Err EINVAL)
      else do { new_ref \<leftarrow> sub_chk ref_count 1; Ret (Ok (new_ref, new_ref = 0)) })"

definition nb_add_decide :: "u16 \<Rightarrow> u16 \<Rightarrow> u16 \<Rightarrow> u16 \<Rightarrow> u16 result run" where
  "nb_add_decide head_offset len sz bytes = do {
     a \<leftarrow> sub_chk sz head_offset;
     tailroom \<leftarrow> sub_chk a len;
     if tailroom < bytes then Ret (Err ENOMEM) else do { l \<leftarrow> add_chk len bytes; Ret (Ok l) }
   }"

definition nb_remove_decide :: "u16 \<Rightarrow> u16 \<Rightarrow> u16 result run" where
  "nb_remove_decide len bytes = (if len < bytes then Ret (Err EINVAL) else do { l \<leftarrow> sub_chk len bytes; Ret (Ok l) })"

definition nb_push_decide :: "u16 \<Rightarrow> u16 \<Rightarrow> u16 \<Rightarrow> (u16 \<times> u16) result run" where
  "nb_push_decide head_offset len bytes =
     (if head_offset < bytes then Ret (Err EINVAL)
      else do { h \<leftarrow> sub_chk head_offset bytes; l \<leftarrow> add_chk len bytes; Ret (Ok (h, l)) })"

definition nb_pull_decide :: "u16 \<Rightarrow> u16 \<Rightarrow> u16 \<Rightarrow> u16 \<Rightarrow> (u16 \<times> u16) result run" where
  "nb_pull_decide head_offset len sz bytes =
     (if len < bytes then Ret (Err EINVAL)
      else do { h \<leftarrow> add_chk head_offset bytes; l \<leftarrow> sub_chk len bytes; Ret (Ok (h, l)) })"

section \<open>A pool and its buffers\<close>

text \<open>
  Buffers get fresh numbers; a buffer that loses its last reference goes back to the pool.
\<close>

record net_sys =
  ns_pool :: net_buf_pool
  ns_next :: nat
  ns_bufs :: "nat \<Rightarrow> net_buf option"

datatype nb_op =
    NB_alloc u16
  | NB_ref nat
  | NB_unref nat
  | NB_reset nat u16
  | NB_add nat u16
  | NB_remove nat u16
  | NB_push nat u16
  | NB_pull nat u16

definition on_buf :: "nat \<Rightarrow> (net_buf \<Rightarrow> (i32 \<times> net_buf) run) \<Rightarrow> net_sys \<Rightarrow> (bool \<times> net_sys) run" where
  "on_buf i f s =
     (case ns_bufs s i of
        None \<Rightarrow> Ret (False, s)
      | Some b \<Rightarrow> do { (rc, b) \<leftarrow> f b; Ret (rc = OK_code, s\<lparr>ns_bufs := (ns_bufs s)(i := Some b)\<rparr>) })"

fun nb_apply :: "nb_op \<Rightarrow> net_sys \<Rightarrow> (bool \<times> net_sys) run" where
  "nb_apply (NB_alloc sz) s =
     (case nb_init sz of
        Inl e \<Rightarrow> Ret (False, s)
      | Inr b \<Rightarrow> do {
          (rc, p) \<leftarrow> pool_alloc (ns_pool s);
          if rc = OK_code
          then Ret (True, s\<lparr>ns_pool := p, ns_next := Suc (ns_next s), ns_bufs := (ns_bufs s)(ns_next s := Some b)\<rparr>)
          else Ret (False, s\<lparr>ns_pool := p\<rparr>)
        })"
| "nb_apply (NB_unref i) s =
     (case ns_bufs s i of
        None \<Rightarrow> Ret (False, s)
      | Some b \<Rightarrow> do {
          (fin, b) \<leftarrow> nb_unref b;
          if fin
          then do { (rc, p) \<leftarrow> pool_free (ns_pool s); Ret (True, s\<lparr>ns_pool := p, ns_bufs := (ns_bufs s)(i := None)\<rparr>) }
          else Ret (True, s\<lparr>ns_bufs := (ns_bufs s)(i := Some b)\<rparr>)
        })"
| "nb_apply (NB_ref i) s = on_buf i nb_ref_get s"
| "nb_apply (NB_reset i n) s = on_buf i (\<lambda>b. Ret (nb_reset n b)) s"
| "nb_apply (NB_add i n) s = on_buf i (nb_add n) s"
| "nb_apply (NB_remove i n) s = on_buf i (nb_remove n) s"
| "nb_apply (NB_push i n) s = on_buf i (nb_push n) s"
| "nb_apply (NB_pull i n) s = on_buf i (nb_pull n) s"

definition nb_step :: "net_sys \<Rightarrow> nb_op \<times> bool \<Rightarrow> net_sys \<Rightarrow> bool" where
  "nb_step s e s' \<longleftrightarrow> nb_apply (fst e) s = Some (snd e, s')"

definition refs :: "nat \<Rightarrow> (nb_op \<times> bool) list \<Rightarrow> nat" where
  "refs i es = length (filter (\<lambda>e. e = (NB_ref i, True)) es)"

definition unrefs :: "nat \<Rightarrow> (nb_op \<times> bool) list \<Rightarrow> nat" where
  "unrefs i es = length (filter (\<lambda>e. e = (NB_unref i, True)) es)"

definition live :: "net_sys \<Rightarrow> nat set" where
  "live s = {i. ns_bufs s i \<noteq> None}"

definition net_inv :: "(nb_op \<times> bool) list \<Rightarrow> net_sys \<Rightarrow> bool" where
  "net_inv es s \<longleftrightarrow> pool_inv (ns_pool s) \<and> live s \<subseteq> {..<ns_next s} \<and> unat (np_allocated (ns_pool s)) = card (live s) \<and>
     (\<forall>i b. ns_bufs s i = Some b \<longrightarrow> nb_inv b \<and> unat (nb_ref_count b) + unrefs i es = 1 + refs i es) \<and>
     (\<forall>i<ns_next s. ns_bufs s i = None \<longrightarrow> unrefs i es = 1 + refs i es) \<and>
     (\<forall>i\<ge>ns_next s. unrefs i es = 0 \<and> refs i es = 0)"

lemma refs_snoc [simp]:
  "refs i (es @ [e]) = refs i es + (if e = (NB_ref i, True) then 1 else 0)"
  "unrefs i (es @ [e]) = unrefs i es + (if e = (NB_unref i, True) then 1 else 0)"
  by (simp_all add: refs_def unrefs_def)

text \<open>Every buffer operation but unref keeps the buffer well formed; only ref changes the count.\<close>

lemmas nb_defs = nb_inv_def nb_ref_get_def nb_reset_def nb_add_def nb_remove_def nb_push_def nb_pull_def

lemma nb_op_keeps:
  assumes "nb_inv b"
  shows "\<exists>rc b'. nb_add n b = Some (rc, b') \<and> nb_inv b' \<and> nb_ref_count b' = nb_ref_count b"
    and "\<exists>rc b'. nb_remove n b = Some (rc, b') \<and> nb_inv b' \<and> nb_ref_count b' = nb_ref_count b"
    and "\<exists>rc b'. nb_push n b = Some (rc, b') \<and> nb_inv b' \<and> nb_ref_count b' = nb_ref_count b"
    and "\<exists>rc b'. nb_pull n b = Some (rc, b') \<and> nb_inv b' \<and> nb_ref_count b' = nb_ref_count b"
    and "\<exists>rc b'. nb_reset n b = (rc, b') \<and> nb_inv b' \<and> nb_ref_count b' = nb_ref_count b"
    and "\<exists>rc b'. nb_ref_get b = Some (rc, b') \<and> nb_inv b' \<and>
           unat (nb_ref_count b') = unat (nb_ref_count b) + (if rc = OK_code then 1 else 0)"
proof -
  have s: "unat (nb_size b) < 65536" using unat_less_pow [of "nb_size b"] by simp
  show "\<exists>rc b'. nb_add n b = Some (rc, b') \<and> nb_inv b' \<and> nb_ref_count b' = nb_ref_count b"
    using assms s by (auto simp: nb_inv_def nb_add_def chk_iffs split: Option.bind_splits)
  show "\<exists>rc b'. nb_remove n b = Some (rc, b') \<and> nb_inv b' \<and> nb_ref_count b' = nb_ref_count b"
    using assms s by (auto simp: nb_inv_def nb_remove_def chk_iffs split: Option.bind_splits)
  show "\<exists>rc b'. nb_push n b = Some (rc, b') \<and> nb_inv b' \<and> nb_ref_count b' = nb_ref_count b"
    using assms s by (auto simp: nb_inv_def nb_push_def chk_iffs split: Option.bind_splits)
  show "\<exists>rc b'. nb_pull n b = Some (rc, b') \<and> nb_inv b' \<and> nb_ref_count b' = nb_ref_count b"
    using assms s by (auto simp: nb_inv_def nb_pull_def chk_iffs split: Option.bind_splits)
  show "\<exists>rc b'. nb_reset n b = (rc, b') \<and> nb_inv b' \<and> nb_ref_count b' = nb_ref_count b"
    using assms by (auto simp: nb_inv_def nb_reset_def word_le_nat_alt word_less_nat_alt)
  show "\<exists>rc b'. nb_ref_get b = Some (rc, b') \<and> nb_inv b' \<and>
           unat (nb_ref_count b') = unat (nb_ref_count b) + (if rc = OK_code then 1 else 0)"
    using assms by (auto simp: nb_inv_def nb_ref_get_def chk_iffs OK_code_def EOVERFLOW_def split: Option.bind_splits)
qed

lemma live_update: "live (s\<lparr>ns_bufs := (ns_bufs s)(i := x)\<rparr>) = (if x = None then live s - {i} else insert i (live s))"
  by (auto simp: live_def)

lemma on_buf_keeps:
  assumes "net_inv es s" and "\<And>b. nb_inv b \<Longrightarrow> \<exists>rc b'. f b = Some (rc, b') \<and> nb_inv b' \<and> nb_ref_count b' = nb_ref_count b"
    and "\<And>j. q \<noteq> NB_ref j \<and> q \<noteq> NB_unref j"
  shows "\<exists>ok s'. on_buf i f s = Some (ok, s') \<and> net_inv (es @ [(q, ok)]) s'"
proof (cases "ns_bufs s i")
  case None
  then show ?thesis using assms(1,3) by (auto simp: on_buf_def net_inv_def)
next
  case (Some b)
  then have "nb_inv b" using assms(1) by (simp add: net_inv_def)
  then obtain rc b' where b': "f b = Some (rc, b')" "nb_inv b'" "nb_ref_count b' = nb_ref_count b" using assms(2) by blast
  have l: "live (s\<lparr>ns_bufs := (ns_bufs s)(i := Some b')\<rparr>) = live s" using Some by (auto simp: live_def)
  have "net_inv (es @ [(q, rc = OK_code)]) (s\<lparr>ns_bufs := (ns_bufs s)(i := Some b')\<rparr>)"
    using assms(1,3) b' Some unfolding net_inv_def l by auto
  then show ?thesis using Some b'(1) by (simp add: on_buf_def)
qed

lemma ref_keeps:
  assumes "net_inv es s"
  shows "\<exists>ok s'. on_buf i nb_ref_get s = Some (ok, s') \<and> net_inv (es @ [(NB_ref i, ok)]) s'"
proof (cases "ns_bufs s i")
  case None
  then show ?thesis using assms by (auto simp: on_buf_def net_inv_def)
next
  case (Some b)
  then have "nb_inv b" using assms by (simp add: net_inv_def)
  then obtain rc b' where b': "nb_ref_get b = Some (rc, b')" "nb_inv b'"
    "unat (nb_ref_count b') = unat (nb_ref_count b) + (if rc = OK_code then 1 else 0)" using nb_op_keeps(6) by blast
  have l: "live (s\<lparr>ns_bufs := (ns_bufs s)(i := Some b')\<rparr>) = live s" using Some by (auto simp: live_def)
  have i: "i < ns_next s" using assms Some by (auto simp: net_inv_def live_def)
  have "net_inv (es @ [(NB_ref i, rc = OK_code)]) (s\<lparr>ns_bufs := (ns_bufs s)(i := Some b')\<rparr>)"
    using assms b'(2,3) Some i unfolding net_inv_def l by auto
  then show ?thesis using Some b'(1) by (simp add: on_buf_def)
qed

lemma unref_keeps:
  assumes "net_inv es s"
  shows "\<exists>ok s'. nb_apply (NB_unref i) s = Some (ok, s') \<and> net_inv (es @ [(NB_unref i, ok)]) s'"
proof (cases "ns_bufs s i")
  case None
  then show ?thesis using assms by (auto simp: net_inv_def)
next
  case (Some b)
  have i: "i < ns_next s" "i \<in> live s" using assms Some by (auto simp: net_inv_def live_def)
  have b: "nb_inv b" "unat (nb_ref_count b) + unrefs i es = 1 + refs i es" using assms Some by (simp_all add: net_inv_def)
  show ?thesis
  proof (cases "1 < nb_ref_count b")
    case True
    then obtain r where r: "sub_chk (nb_ref_count b) 1 = Some r" "unat r = unat (nb_ref_count b) - 1"
      using sub_chk_ex [of 1 "nb_ref_count b"] by (auto simp: word_less_nat_alt)
    let ?s = "s\<lparr>ns_bufs := (ns_bufs s)(i := Some (b\<lparr>nb_ref_count := r\<rparr>))\<rparr>"
    have l: "live ?s = live s" using Some by (auto simp: live_def)
    have "net_inv (es @ [(NB_unref i, True)]) ?s"
      using assms b r(2) True i(1) unfolding net_inv_def l by (auto simp: nb_inv_def word_le_nat_alt word_less_nat_alt)
    then show ?thesis using Some True r(1) by (auto simp: nb_unref_def)
  next
    case False
    then have one: "unat (nb_ref_count b) = 1" using b(1) by (auto simp: nb_inv_def word_le_nat_alt word_less_nat_alt)
    have fin: "finite (live s)" using assms by (auto simp: net_inv_def intro: finite_subset)
    then have c: "card (live s) = Suc (card (live s - {i}))" using i(2) by (rule card.remove)
    then have "0 < np_allocated (ns_pool s)" using assms by (simp add: net_inv_def word_less_nat_alt)
    then obtain a where a: "pool_free (ns_pool s) = Some (OK_code, (ns_pool s)\<lparr>np_allocated := a\<rparr>)"
      "unat a = unat (np_allocated (ns_pool s)) - 1"
      using sub_chk_ex [of 1 "np_allocated (ns_pool s)"] by (auto simp: pool_free_def word_less_nat_alt)
    let ?s = "s\<lparr>ns_pool := (ns_pool s)\<lparr>np_allocated := a\<rparr>, ns_bufs := (ns_bufs s)(i := None)\<rparr>"
    have l: "live ?s = live s - {i}" by (auto simp: live_def)
    have "net_inv (es @ [(NB_unref i, True)]) ?s"
      using assms b one a(2) c i(1) unfolding net_inv_def l by (auto simp: pool_inv_def word_le_nat_alt)
    then show ?thesis using Some False a(1) by (auto simp: nb_unref_def)
  qed
qed

lemma alloc_keeps:
  assumes "net_inv es s"
  shows "\<exists>ok s'. nb_apply (NB_alloc n) s = Some (ok, s') \<and> net_inv (es @ [(NB_alloc n, ok)]) s'"
proof (cases "n = 0 \<or> \<not> np_allocated (ns_pool s) < np_capacity (ns_pool s)")
  case True
  then show ?thesis using assms by (auto simp: nb_init_def pool_alloc_def net_inv_def live_def OK_code_def ENOMEM_def)
next
  case False
  then obtain a where a: "pool_alloc (ns_pool s) = Some (OK_code, (ns_pool s)\<lparr>np_allocated := a\<rparr>)"
    "unat a = unat (np_allocated (ns_pool s)) + 1"
    using add_chk_one [of "np_allocated (ns_pool s)" "np_capacity (ns_pool s)"]
    by (auto simp: pool_alloc_def dest: add_chk_unat)
  let ?b = "\<lparr>nb_size = n, nb_head_offset = 0, nb_len = 0, nb_ref_count = 1\<rparr>"
  let ?s = "s\<lparr>ns_pool := (ns_pool s)\<lparr>np_allocated := a\<rparr>, ns_next := Suc (ns_next s), ns_bufs := (ns_bufs s)(ns_next s := Some ?b)\<rparr>"
  have fin: "finite (live s)" "ns_next s \<notin> live s" using assms by (auto simp: net_inv_def intro: finite_subset)
  have l: "live ?s = insert (ns_next s) (live s)" by (auto simp: live_def)
  have "net_inv (es @ [(NB_alloc n, True)]) ?s"
    using assms a(2) fin False unfolding net_inv_def l
    by (auto simp: pool_inv_def nb_inv_def word_le_nat_alt word_less_nat_alt unat_gt_0 less_Suc_eq)
  then show ?thesis using a(1) False by (auto simp: nb_init_def)
qed

lemma nb_apply_keeps:
  assumes "net_inv es s"
  shows "\<exists>ok s'. nb_apply q s = Some (ok, s') \<and> net_inv (es @ [(q, ok)]) s'"
proof (cases q)
  case (NB_alloc n)
  then show ?thesis using alloc_keeps [OF assms] by simp
next
  case (NB_ref i)
  then show ?thesis using ref_keeps [OF assms] by simp
next
  case (NB_unref i)
  then show ?thesis using unref_keeps [OF assms] by simp
qed (use on_buf_keeps [OF assms] nb_op_keeps in auto)

definition net_start :: "net_buf_pool \<Rightarrow> net_sys" where
  "net_start p = \<lparr>ns_pool = p, ns_next = 0, ns_bufs = (\<lambda>_. None)\<rparr>"

lemma net_trace_inv:
  assumes "pool_init capacity = Ok p" and "trace nb_step (net_start p) es s"
  shows "net_inv es s"
  using assms(2)
proof (induction rule: trace.induct)
  case trace_Nil
  show ?case
    using assms(1) by (auto simp: net_inv_def net_start_def live_def refs_def unrefs_def pool_init_def pool_inv_def word_gt_0 split: if_splits)
next
  case (trace_snoc es s e s')
  then show ?case using nb_apply_keeps [OF trace_snoc.IH, of "fst e"] by (cases e) (auto simp: nb_step_def)
qed

section \<open>Properties\<close>

text \<open>
  C31: Buffers are neither leaked nor freed early. Over every sequence of allocations,
  references, releases and window operations on a pool and its buffers, no call panics;
  the pool counts exactly the live buffers and never exceeds its capacity; a buffer is
  live exactly from its allocation until its releases outnumber its references, its count
  being one more than the difference; and every live buffer's window stays inside it,
  with headroom, data and tailroom adding up to its size.
\<close>

theorem net_buf_lifecycle:
  assumes "pool_init capacity = Ok p" and "trace nb_step (net_start p) es s"
  shows "unat (np_allocated (ns_pool s)) = card (live s) \<and> np_allocated (ns_pool s) \<le> np_capacity (ns_pool s) \<and>
         nb_apply q s \<noteq> None \<and>
         (i \<in> live s \<longleftrightarrow> i < ns_next s \<and> unrefs i es \<le> refs i es) \<and>
         (i \<notin> live s \<and> i < ns_next s \<longrightarrow> unrefs i es = refs i es + 1) \<and>
         (\<forall>b. ns_bufs s i = Some b \<longrightarrow> unat (nb_ref_count b) + unrefs i es = 1 + refs i es \<and>
            (\<exists>t. nb_tailroom b = Some t \<and> unat (nb_headroom b) + unat (nb_len b) + unat t = unat (nb_size b)))"
proof -
  have inv: "net_inv es s" by (rule net_trace_inv [OF assms])
  have live: "i \<in> live s \<longleftrightarrow> i < ns_next s \<and> unrefs i es \<le> refs i es"
    using inv by (cases "ns_bufs s i") (fastforce simp: net_inv_def live_def nb_inv_def word_le_nat_alt)+
  have "\<exists>t. nb_tailroom b = Some t \<and> unat (nb_headroom b) + unat (nb_len b) + unat t = unat (nb_size b)"
    if "ns_bufs s i = Some b" for b
  proof -
    have "nb_inv b" using inv that by (simp add: net_inv_def)
    then show ?thesis
      using sub_chk_ex [of "nb_head_offset b" "nb_size b"] sub_chk_ex [of "nb_len b" "nb_size b - nb_head_offset b"]
      by (auto simp: nb_inv_def nb_tailroom_def nb_headroom_def sub_chk_eq_Some_iff unat_sub word_le_nat_alt run_simps)
  qed
  then show ?thesis
    using inv live nb_apply_keeps [OF inv, of q] by (auto simp: net_inv_def pool_inv_def live_def)
qed

theorem net_buf_lifecycle_witness:
  "\<exists>s. unat (np_allocated (ns_pool s)) = card (live s) \<and> 0 \<in> live s"
proof -
  let ?p = "\<lparr>np_capacity = 4, np_allocated = 0\<rparr>"
  have p: "pool_init 4 = Ok ?p" by (simp add: pool_init_def)
  obtain s1 where s1: "nb_step (net_start ?p) (NB_alloc 64, True) s1" "ns_bufs s1 0 \<noteq> None"
    by (simp add: nb_step_def net_start_def nb_init_def pool_alloc_def add_chk_def)
  show ?thesis
    using net_buf_lifecycle [OF p trace_one [of nb_step, OF s1(1)], of "NB_ref 0" 0] s1(2)
    by (intro exI [of _ s1]) (simp add: live_def)
qed

end
