(* ===== verification/Work.thy ===== *)
theory Work
  imports Kernel_Thread
begin

text \<open>
  Work items: the flag state machine (src/work.rs), its exported decisions (the work
  section of ffi/src/lib.rs) and the C shim that applies them to a work queue
  (zephyr/gale_work.c).
\<close>

section \<open>The work item (work.rs)\<close>

definition FLAG_RUNNING :: u8 where
  "FLAG_RUNNING = 1"

definition FLAG_CANCELING :: u8 where
  "FLAG_CANCELING = 2"

definition FLAG_QUEUED :: u8 where
  "FLAG_QUEUED = 4"

definition FLAG_FLUSHING :: u8 where
  "FLAG_FLUSHING = 16"

definition BUSY_MASK :: u8 where
  "BUSY_MASK = 7"

record work_item =
  wi_flags :: u8

definition work_inv :: "work_item \<Rightarrow> bool" where
  "work_inv w \<longleftrightarrow> wi_flags w AND NOT (FLAG_RUNNING OR FLAG_CANCELING OR FLAG_QUEUED OR FLAG_FLUSHING) = 0"

definition work_init :: work_item where
  "work_init = \<lparr>wi_flags = 0\<rparr>"

definition busy_get :: "work_item \<Rightarrow> u8" where
  "busy_get w = wi_flags w AND BUSY_MASK"

definition work_is_idle :: "work_item \<Rightarrow> bool" where
  "work_is_idle w \<longleftrightarrow> wi_flags w AND BUSY_MASK = 0"

definition work_is_queued :: "work_item \<Rightarrow> bool" where
  "work_is_queued w \<longleftrightarrow> wi_flags w AND FLAG_QUEUED \<noteq> 0"

definition work_is_running :: "work_item \<Rightarrow> bool" where
  "work_is_running w \<longleftrightarrow> wi_flags w AND FLAG_RUNNING \<noteq> 0"

definition work_is_canceling :: "work_item \<Rightarrow> bool" where
  "work_is_canceling w \<longleftrightarrow> wi_flags w AND FLAG_CANCELING \<noteq> 0"

definition work_submit :: "work_item \<Rightarrow> i32 \<times> work_item" where
  "work_submit w =
     (if wi_flags w AND FLAG_CANCELING \<noteq> 0 then (EBUSY, w)
      else if wi_flags w AND FLAG_QUEUED \<noteq> 0 then (0, w)
      else (if wi_flags w AND FLAG_RUNNING \<noteq> 0 then 2 else 1, w\<lparr>wi_flags := wi_flags w OR FLAG_QUEUED\<rparr>))"

definition start_running :: "work_item \<Rightarrow> work_item" where
  "start_running w = w\<lparr>wi_flags := (wi_flags w AND NOT FLAG_QUEUED) OR FLAG_RUNNING\<rparr>"

definition finish_running :: "work_item \<Rightarrow> work_item" where
  "finish_running w = w\<lparr>wi_flags := wi_flags w AND NOT FLAG_RUNNING\<rparr>"

definition work_cancel :: "work_item \<Rightarrow> u8 \<times> work_item" where
  "work_cancel w =
     (let w = w\<lparr>wi_flags := wi_flags w AND NOT FLAG_QUEUED\<rparr>;
          busy = wi_flags w AND BUSY_MASK;
          w = (if busy \<noteq> 0 then w\<lparr>wi_flags := wi_flags w OR FLAG_CANCELING\<rparr> else w)
      in (wi_flags w AND BUSY_MASK, w))"

definition finish_cancel :: "work_item \<Rightarrow> work_item" where
  "finish_cancel w = w\<lparr>wi_flags := wi_flags w AND NOT FLAG_CANCELING\<rparr>"

section \<open>Decisions\<close>

datatype submit_decision = Submit_Queue | Submit_Requeue | AlreadyQueued | Submit_Reject

definition submit_decide :: "u8 \<Rightarrow> submit_decision \<times> u8" where
  "submit_decide flags =
     (if flags AND FLAG_CANCELING \<noteq> 0 then (Submit_Reject, flags)
      else if flags AND FLAG_QUEUED \<noteq> 0 then (AlreadyQueued, flags)
      else (let new_flags = flags OR FLAG_QUEUED
            in if flags AND FLAG_RUNNING \<noteq> 0 then (Submit_Requeue, new_flags) else (Submit_Queue, new_flags)))"

datatype cancel_decision_action = Cancel_Idle | Cancel_Dequeue | SetCanceling

definition cancel_decide :: "u8 \<Rightarrow> cancel_decision_action \<times> u8 \<times> u8" where
  "cancel_decide flags =
     (let dequeued = (flags AND FLAG_CANCELING = 0 \<and> flags AND FLAG_QUEUED \<noteq> 0);
          f = (if dequeued then flags AND NOT FLAG_QUEUED else flags);
          busy = f AND BUSY_MASK;
          f = (if busy \<noteq> 0 then f OR FLAG_CANCELING else f);
          action = (if busy = 0 then Cancel_Idle else if dequeued then Cancel_Dequeue else SetCanceling)
      in (action, f, busy))"

section \<open>The exported decisions (ffi)\<close>

record gale_work_submit_decision =
  ws_action :: u8
  ws_new_flags :: u8
  ws_ret :: i32

definition gale_k_work_submit_decide :: "u8 \<Rightarrow> u8 \<Rightarrow> u8 \<Rightarrow> gale_work_submit_decision" where
  "gale_k_work_submit_decide flags is_queued is_running =
     (let (decision, new_flags) = submit_decide flags in
      case decision of
        Submit_Queue \<Rightarrow> \<lparr>ws_action = 0, ws_new_flags = new_flags, ws_ret = 1\<rparr>
      | Submit_Requeue \<Rightarrow> \<lparr>ws_action = 1, ws_new_flags = new_flags, ws_ret = 2\<rparr>
      | AlreadyQueued \<Rightarrow> \<lparr>ws_action = 2, ws_new_flags = new_flags, ws_ret = 0\<rparr>
      | Submit_Reject \<Rightarrow> \<lparr>ws_action = 3, ws_new_flags = new_flags, ws_ret = EBUSY\<rparr>)"

record gale_work_cancel_decision =
  wc_action :: u8
  wc_new_flags :: u8
  wc_busy :: u8

definition gale_k_work_cancel_decide :: "u8 \<Rightarrow> u8 \<Rightarrow> u8 \<Rightarrow> gale_work_cancel_decision" where
  "gale_k_work_cancel_decide flags is_queued is_running =
     (let (decision, new_flags, busy) = cancel_decide flags;
          action = (case decision of Cancel_Idle \<Rightarrow> 0 | Cancel_Dequeue \<Rightarrow> 1 | SetCanceling \<Rightarrow> 2)
      in \<lparr>wc_action = action, wc_new_flags = new_flags, wc_busy = busy\<rparr>)"

text \<open>The validate calls write through a pointer; None is the null pointer.\<close>

definition gale_work_submit_validate :: "u8 \<Rightarrow> u8 option \<Rightarrow> i32 \<times> u8 option" where
  "gale_work_submit_validate flags new_flags =
     (case new_flags of
        None \<Rightarrow> (EINVAL, None)
      | Some _ \<Rightarrow>
          (let is_queued = (if flags AND 4 \<noteq> 0 then 1 else 0);
               is_running = (if flags AND 1 \<noteq> 0 then 1 else 0);
               d = gale_k_work_submit_decide flags is_queued is_running
           in (ws_ret d, Some (ws_new_flags d))))"

definition gale_work_cancel_validate :: "u8 \<Rightarrow> u8 option \<Rightarrow> u8 option \<Rightarrow> i32 \<times> u8 option \<times> u8 option" where
  "gale_work_cancel_validate flags new_flags busy =
     (if new_flags = None \<or> busy = None then (EINVAL, new_flags, busy)
      else
        (let is_queued = (if flags AND 4 \<noteq> 0 then 1 else 0);
             is_running = (if flags AND 1 \<noteq> 0 then 1 else 0);
             d = gale_k_work_cancel_decide flags is_queued is_running
         in (OK_code, Some (wc_new_flags d), Some (wc_busy d))))"

section \<open>The C shim (gale_work.c)\<close>

text \<open>
  Work items and queues are addressed by numbers; a queue has the list of its pending
  items and the three flag bits the shim tests. The thread that runs and whether an interrupt is served are part of the state,
  and waking the queue thread is recorded.
\<close>

record k_work =
  kw_flags :: u32
  kw_queue :: "nat option"

record k_work_q =
  kq_started :: bool
  kq_draining :: bool
  kq_plugged :: bool
  kq_thread_id :: nat
  kq_pending :: "nat list"

record work_state =
  wk_work :: "nat \<Rightarrow> k_work"
  wk_queues :: "nat \<Rightarrow> k_work_q"
  wk_current :: nat
  wk_in_isr :: bool
  wk_woken :: "nat list"

definition ENODEV :: i32 where
  "ENODEV = -19"

definition set_flags :: "u8 \<Rightarrow> k_work \<Rightarrow> k_work" where
  "set_flags f w = w\<lparr>kw_flags := (kw_flags w AND NOT 0xFF) OR ucast f\<rparr>"

definition gale_submit_to_queue_locked :: "nat \<Rightarrow> nat option \<Rightarrow> work_state \<Rightarrow> (i32 \<times> nat option \<times> work_state) run" where
  "gale_submit_to_queue_locked work queuep s =
     (let w = wk_work s work;
          flags = kw_flags w;
          is_queued = (if flags AND 4 \<noteq> 0 then 1 else 0);
          is_running = (if flags AND 1 \<noteq> 0 then 1 else 0);
          d = gale_k_work_submit_decide (ucast (flags AND 0xFF)) is_queued is_running
      in if ws_action d = 2 then Ret (ws_ret d, queuep, s)
         else if ws_action d = 3 then Ret (ws_ret d, None, s)
         else if ws_action d = 1 \<and> kw_queue w = None then Panic
         else
           (let queuep = (if ws_action d = 1 then kw_queue w else queuep);
                queuep = (if queuep = None then kw_queue w else queuep)
            in case queuep of
                 None \<Rightarrow> Ret (EINVAL, None, s)
               | Some q \<Rightarrow>
                   (let kq = wk_queues s q;
                        chained = (wk_current s = kq_thread_id kq \<and> \<not> wk_in_isr s);
                        draining = kq_draining kq;
                        plugged = kq_plugged kq
                    in if \<not> kq_started kq then Ret (ENODEV, None, s)
                       else if draining \<and> \<not> chained then Ret (EBUSY, None, s)
                       else if plugged \<and> \<not> draining then Ret (EBUSY, None, s)
                       else Ret (ws_ret d, Some q,
                              s\<lparr>wk_queues := (wk_queues s)(q := kq\<lparr>kq_pending := kq_pending kq @ [work]\<rparr>),
                                wk_work := (wk_work s)(work := (set_flags (ws_new_flags d) w)\<lparr>kw_queue := Some q\<rparr>),
                                wk_woken := wk_woken s @ [q]\<rparr>))))"

definition gale_cancel_async_locked :: "nat \<Rightarrow> work_state \<Rightarrow> i32 \<times> work_state" where
  "gale_cancel_async_locked work s =
     (let w = wk_work s work;
          flags = kw_flags w;
          is_queued = (if flags AND 4 \<noteq> 0 then 1 else 0);
          is_running = (if flags AND 1 \<noteq> 0 then 1 else 0);
          d = gale_k_work_cancel_decide (ucast (flags AND 0xFF)) is_queued is_running;
          s = (if wc_action d = 1
               then (case kw_queue w of
                       None \<Rightarrow> s
                     | Some q \<Rightarrow> s\<lparr>wk_queues := (wk_queues s)(q := (wk_queues s q)\<lparr>kq_pending := remove1 work (kq_pending (wk_queues s q))\<rparr>)\<rparr>)
               else s)
      in (int (unat (wc_busy d)), s\<lparr>wk_work := (wk_work s)(work := set_flags (wc_new_flags d) w)\<rparr>))"

section \<open>Flags as bits\<close>

lemma flag_bits:
  fixes f :: u8
  shows "f AND FLAG_RUNNING = 0 \<longleftrightarrow> \<not> bit f 0" "f AND FLAG_CANCELING = 0 \<longleftrightarrow> \<not> bit f 1" "f AND FLAG_QUEUED = 0 \<longleftrightarrow> \<not> bit f 2"
  using and_exp_eq_0_iff_not_bit [of f 0] and_exp_eq_0_iff_not_bit [of f 1] and_exp_eq_0_iff_not_bit [of f 2]
  by (simp_all add: FLAG_RUNNING_def FLAG_CANCELING_def FLAG_QUEUED_def)

lemma bit_flags:
  "bit FLAG_RUNNING n \<longleftrightarrow> n = 0" "bit FLAG_CANCELING n \<longleftrightarrow> n = 1" "bit FLAG_QUEUED n \<longleftrightarrow> n = 2" "bit FLAG_FLUSHING n \<longleftrightarrow> n = 4"
  using bit_push_bit_iff [of 0 "1 :: u8" n] bit_push_bit_iff [of 1 "1 :: u8" n] bit_push_bit_iff [of 2 "1 :: u8" n]
    bit_push_bit_iff [of 4 "1 :: u8" n]
  by (auto simp: FLAG_RUNNING_def FLAG_CANCELING_def FLAG_QUEUED_def FLAG_FLUSHING_def push_bit_eq_mult bit_1_iff)

lemma busy_mask_eq: "BUSY_MASK = FLAG_RUNNING OR FLAG_CANCELING OR FLAG_QUEUED"
  by (simp add: BUSY_MASK_def FLAG_RUNNING_def FLAG_CANCELING_def FLAG_QUEUED_def)

lemma bit_busy: "bit BUSY_MASK n \<longleftrightarrow> n = 0 \<or> n = 1 \<or> n = 2"
  unfolding busy_mask_eq by (simp add: bit_or_iff bit_flags)

lemma busy_bits: "f AND BUSY_MASK = 0 \<longleftrightarrow> \<not> bit f 0 \<and> \<not> bit f 1 \<and> \<not> bit f 2" for f :: u8
proof
  assume "f AND BUSY_MASK = 0"
  then have "\<not> bit (f AND BUSY_MASK) n" for n by simp
  then show "\<not> bit f 0 \<and> \<not> bit f 1 \<and> \<not> bit f 2" unfolding bit_and_iff bit_busy by blast
next
  assume "\<not> bit f 0 \<and> \<not> bit f 1 \<and> \<not> bit f 2"
  then have "\<not> bit (f AND BUSY_MASK) n" for n unfolding bit_and_iff bit_busy by blast
  then show "f AND BUSY_MASK = 0" by (intro bit_word_eqI) simp
qed

lemmas bits = flag_bits bit_flags busy_bits bit_and_iff bit_or_iff bit_not_iff

section \<open>Runs of a work item\<close>

datatype work_event = W_submit i32 | W_start | W_finish | W_cancel bool | W_finish_cancel

text \<open>The callers' obligations are the guards: only a queued item starts, only a running one finishes.\<close>

inductive work_step :: "work_item \<Rightarrow> work_event \<Rightarrow> work_item \<Rightarrow> bool" where
  submit: "work_submit w = (r, w') \<Longrightarrow> work_step w (W_submit r) w'"
| start: "work_is_queued w \<Longrightarrow> work_step w W_start (start_running w)"
| finish: "work_is_running w \<Longrightarrow> work_step w W_finish (finish_running w)"
| cancel: "work_cancel w = (r, w') \<Longrightarrow> work_step w (W_cancel (r \<noteq> 0)) w'"
| finish_cancel: "work_is_canceling w \<Longrightarrow> work_step w W_finish_cancel (finish_cancel w)"

lemmas work_defs = work_is_queued_def work_is_running_def work_is_canceling_def work_is_idle_def
  work_submit_def start_running_def finish_running_def work_cancel_def finish_cancel_def Let_def

lemma work_inv_bits: "work_inv w \<longleftrightarrow> (\<forall>n<8. bit (wi_flags w) n \<longrightarrow> n = 0 \<or> n = 1 \<or> n = 2 \<or> n = 4)"
  unfolding work_inv_def bit_eq_iff [of _ "0 :: u8"] by (auto simp: bits possible_bit_word)

definition cancel_pending :: "work_event list \<Rightarrow> bool" where
  "cancel_pending es \<longleftrightarrow> since (\<lambda>e. e = W_cancel True) (\<lambda>e. e = W_finish_cancel) es"

lemma work_step_keeps:
  assumes "work_step w e w'" and "work_inv w" and "\<not> (work_is_canceling w \<and> work_is_queued w)"
    and "work_is_canceling w \<longleftrightarrow> cancel_pending es"
  shows "work_inv w' \<and> \<not> (work_is_canceling w' \<and> work_is_queued w') \<and> (work_is_canceling w' \<longleftrightarrow> cancel_pending (es @ [e]))"
  using assms
  by cases (auto simp: work_defs work_inv_bits bits possible_bit_word cancel_pending_def split: if_splits)

lemma work_trace_keeps:
  assumes "trace work_step work_init es w"
  shows "work_inv w \<and> \<not> (work_is_canceling w \<and> work_is_queued w) \<and> (work_is_canceling w \<longleftrightarrow> cancel_pending es)"
  using assms
proof (induction rule: trace.induct)
  case trace_Nil
  show ?case by (simp add: work_init_def work_inv_def work_defs cancel_pending_def)
next
  case (trace_snoc es w e w')
  then show ?case using work_step_keeps by blast
qed

lemma decide_agrees:
  assumes "\<not> (work_is_canceling w \<and> work_is_queued w)"
  shows "snd (submit_decide (wi_flags w)) = wi_flags (snd (work_submit w))"
    and "ws_ret (gale_k_work_submit_decide (wi_flags w) i j) = fst (work_submit w)"
    and "fst (snd (cancel_decide (wi_flags w))) = wi_flags (snd (work_cancel w))"
    and "snd (snd (cancel_decide (wi_flags w))) = 0 \<longleftrightarrow> fst (work_cancel w) = 0"
proof -
  let ?f = "wi_flags w"
  have q: "?f AND NOT FLAG_QUEUED = ?f" if "\<not> bit ?f 2"
    using that by (intro bit_word_eqI) (auto simp: bits)
  show "snd (submit_decide ?f) = wi_flags (snd (work_submit w))" "ws_ret (gale_k_work_submit_decide ?f i j) = fst (work_submit w)"
    by (simp_all add: submit_decide_def work_submit_def gale_k_work_submit_decide_def Let_def)
  have c: "cancel_decide ?f = (let f = ?f AND NOT FLAG_QUEUED; busy = f AND BUSY_MASK in
      (if busy = 0 then Cancel_Idle else if bit ?f 2 then Cancel_Dequeue else SetCanceling,
       if busy \<noteq> 0 then f OR FLAG_CANCELING else f, busy))"
    using assms q by (auto simp: cancel_decide_def work_defs bits)
  show "fst (snd (cancel_decide ?f)) = wi_flags (snd (work_cancel w))"
    by (simp add: c work_cancel_def Let_def)
  show "snd (snd (cancel_decide ?f)) = 0 \<longleftrightarrow> fst (work_cancel w) = 0"
    by (auto simp: c work_cancel_def Let_def bits)
qed

text \<open>
  A queued item that is not running is cancelled with the action for an idle one, so the
  shim clears the queued flag but leaves the item in the pending list; the next
  submission lists it a second time.
\<close>

lemma cancel_leaves_stale_entry:
  assumes "kw_flags (wk_work s w) = 4" and "kw_queue (wk_work s w) = Some q"
    and "kq_started (wk_queues s q)" "\<not> kq_draining (wk_queues s q)" "\<not> kq_plugged (wk_queues s q)"
  shows "\<exists>s' s''. gale_cancel_async_locked w s = (0, s') \<and> kw_flags (wk_work s' w) = 0 \<and>
           kq_pending (wk_queues s' q) = kq_pending (wk_queues s q) \<and>
           gale_submit_to_queue_locked w (Some q) s' = Some (1, Some q, s'') \<and>
           kq_pending (wk_queues s'' q) = kq_pending (wk_queues s q) @ [w]"
  using assms
  by (simp add: gale_cancel_async_locked_def gale_submit_to_queue_locked_def gale_k_work_cancel_decide_def cancel_decide_def
      gale_k_work_submit_decide_def submit_decide_def FLAG_RUNNING_def FLAG_CANCELING_def FLAG_QUEUED_def BUSY_MASK_def
      set_flags_def Let_def)

section \<open>Properties\<close>

text \<open>
  C32: A cancelled work item does not run again until the cancellation is finished. Over
  every run of a work item, its cancelling flag is set exactly from a cancellation that
  found it busy until the cancellation is finished; meanwhile it is never queued, so it
  cannot start, and submissions are refused. The exported decisions compute the flags and
  return codes of the object in every such state.
\<close>

theorem work_cancel_blocks_runs:
  assumes "trace work_step work_init es w"
  shows "(work_is_canceling w \<longleftrightarrow> cancel_pending es) \<and>
         (cancel_pending es \<longrightarrow> \<not> work_step w W_start w' \<and> work_submit w = (EBUSY, w)) \<and>
         ws_new_flags (gale_k_work_submit_decide (wi_flags w) i j) = wi_flags (snd (work_submit w)) \<and>
         ws_ret (gale_k_work_submit_decide (wi_flags w) i j) = fst (work_submit w) \<and>
         wc_new_flags (gale_k_work_cancel_decide (wi_flags w) i j) = wi_flags (snd (work_cancel w)) \<and>
         (wc_busy (gale_k_work_cancel_decide (wi_flags w) i j) = 0 \<longleftrightarrow> fst (work_cancel w) = 0)"
proof -
  have k: "\<not> (work_is_canceling w \<and> work_is_queued w)" "work_is_canceling w \<longleftrightarrow> cancel_pending es"
    using work_trace_keeps [OF assms] by blast+
  have "\<not> work_step w W_start w'" if "work_is_canceling w"
    using k(1) that by (auto elim: work_step.cases)
  moreover have "ws_new_flags (gale_k_work_submit_decide (wi_flags w) i j) = snd (submit_decide (wi_flags w))"
    by (simp add: gale_k_work_submit_decide_def split: prod.split submit_decision.split)
  moreover have "wc_new_flags (gale_k_work_cancel_decide (wi_flags w) i j) = fst (snd (cancel_decide (wi_flags w)))"
    "wc_busy (gale_k_work_cancel_decide (wi_flags w) i j) = snd (snd (cancel_decide (wi_flags w)))"
    by (simp_all add: gale_k_work_cancel_decide_def split: prod.split)
  ultimately show ?thesis
    using k decide_agrees [OF k(1)] by (auto simp: work_is_canceling_def work_submit_def)
qed

theorem work_cancel_blocks_runs_witness:
  "\<exists>w. work_is_canceling w \<and> work_submit w = (EBUSY, w)"
proof -
  let ?w = "\<lambda>f. \<lparr>wi_flags = f\<rparr>"
  have "work_step work_init (W_submit 1) (?w 4)"
    using work_step.submit [of work_init 1 "?w 4"] by (simp add: work_init_def work_submit_def FLAG_RUNNING_def FLAG_CANCELING_def FLAG_QUEUED_def)
  moreover have "work_step (?w 4) W_start (?w 1)"
    using work_step.start [of "?w 4"] by (simp add: work_is_queued_def start_running_def FLAG_RUNNING_def FLAG_QUEUED_def)
  moreover have "work_step (?w 1) (W_cancel True) (?w 3)"
    using work_step.cancel [of "?w 1" 3 "?w 3"]
    by (simp add: work_cancel_def Let_def FLAG_RUNNING_def FLAG_CANCELING_def FLAG_QUEUED_def BUSY_MASK_def)
  ultimately have t: "trace work_step work_init [W_submit 1, W_start, W_cancel True] (?w 3)"
    using trace_snoc [of work_step _ "[W_submit 1, W_start]"] trace_two [of work_step] by fastforce
  have "cancel_pending [W_submit 1, W_start, W_cancel True]"
    using since_snoc [of _ _ "[W_submit 1, W_start]" "W_cancel True"] by (simp add: cancel_pending_def)
  then show ?thesis
    using work_cancel_blocks_runs [OF t] by blast
qed

end
