(* ===== verification/Thread_Lifecycle.thy ===== *)
theory Thread_Lifecycle
  imports Kernel_Thread
begin

text \<open>
  Thread lifecycle (src/thread_lifecycle.rs): stack accounting, thread information, the
  counter of live threads and the decisions of the thread calls, with the functions
  exported to C (the thread_lifecycle section of ffi/src/lib.rs).
\<close>

section \<open>Stack, thread and tracker (thread_lifecycle.rs)\<close>

definition MAX_THREADS_live :: u32 where
  "MAX_THREADS_live = 256"

record stack_info =
  si_base :: u32
  si_size :: u32
  si_usage :: u32

definition stack_info_inv :: "stack_info \<Rightarrow> bool" where
  "stack_info_inv s \<longleftrightarrow> si_size s > 0 \<and> si_usage s \<le> si_size s"

definition stack_info_init :: "u32 \<Rightarrow> u32 \<Rightarrow> stack_info result" where
  "stack_info_init base sz =
     (if sz = 0 then Err EINVAL else Ok \<lparr>si_base = base, si_size = sz, si_usage = 0\<rparr>)"

definition record_usage :: "u32 \<Rightarrow> stack_info \<Rightarrow> i32 \<times> stack_info" where
  "record_usage observed s =
     (if observed > si_size s then (EINVAL, s)
      else (OK_code, if observed > si_usage s then s\<lparr>si_usage := observed\<rparr> else s))"

definition stack_unused :: "stack_info \<Rightarrow> u32 run" where
  "stack_unused s = sub_chk (si_size s) (si_usage s)"

definition stack_get_size :: "stack_info \<Rightarrow> u32" where
  "stack_get_size s = si_size s"

definition stack_get_usage :: "stack_info \<Rightarrow> u32" where
  "stack_get_usage s = si_usage s"

record thread_info =
  ti_id :: u32
  ti_priority :: u32
  ti_stack :: stack_info

definition thread_info_inv :: "thread_info \<Rightarrow> bool" where
  "thread_info_inv t \<longleftrightarrow> ti_priority t < MAX_PRIORITY \<and> stack_info_inv (ti_stack t)"

definition thread_info_new :: "u32 \<Rightarrow> u32 \<Rightarrow> u32 \<Rightarrow> u32 \<Rightarrow> thread_info result" where
  "thread_info_new i priority stack_base stack_size =
     (if priority \<ge> MAX_PRIORITY then Err EINVAL
      else if stack_size = 0 then Err EINVAL
      else Ok \<lparr>ti_id = i, ti_priority = priority,
               ti_stack = \<lparr>si_base = stack_base, si_size = stack_size, si_usage = 0\<rparr>\<rparr>)"

definition priority_get :: "thread_info \<Rightarrow> u32" where
  "priority_get t = ti_priority t"

definition priority_set :: "u32 \<Rightarrow> thread_info \<Rightarrow> i32 \<times> thread_info" where
  "priority_set new_priority t =
     (if new_priority \<ge> MAX_PRIORITY then (EINVAL, t) else (OK_code, t\<lparr>ti_priority := new_priority\<rparr>))"

record thread_tracker =
  tt_count :: u32
  tt_peak :: u32

definition tracker_inv :: "thread_tracker \<Rightarrow> bool" where
  "tracker_inv t \<longleftrightarrow> tt_count t \<le> MAX_THREADS_live \<and> tt_count t \<le> tt_peak t \<and> tt_peak t \<le> MAX_THREADS_live"

definition tracker_new :: thread_tracker where
  "tracker_new = \<lparr>tt_count = 0, tt_peak = 0\<rparr>"

definition tracker_create :: "thread_tracker \<Rightarrow> (i32 \<times> thread_tracker) run" where
  "tracker_create t =
     (if tt_count t \<ge> MAX_THREADS_live then Ret (EAGAIN, t)
      else do {
        c \<leftarrow> add_chk (tt_count t) 1;
        let t = t\<lparr>tt_count := c\<rparr>;
        Ret (OK_code, if tt_count t > tt_peak t then t\<lparr>tt_peak := tt_count t\<rparr> else t) })"

definition tracker_exit :: "thread_tracker \<Rightarrow> (i32 \<times> thread_tracker) run" where
  "tracker_exit t =
     (if tt_count t = 0 then Ret (EINVAL, t)
      else do { c \<leftarrow> sub_chk (tt_count t) 1; Ret (OK_code, t\<lparr>tt_count := c\<rparr>) })"

definition active_count :: "thread_tracker \<Rightarrow> u32" where
  "active_count t = tt_count t"

definition peak_count :: "thread_tracker \<Rightarrow> u32" where
  "peak_count t = tt_peak t"

definition has_active :: "thread_tracker \<Rightarrow> bool" where
  "has_active t \<longleftrightarrow> tt_count t > 0"

section \<open>Decisions\<close>

definition THREAD_STATE_SUSPENDED :: u8 where
  "THREAD_STATE_SUSPENDED = 0x02"

definition THREAD_STATE_DEAD :: u8 where
  "THREAD_STATE_DEAD = 0x08"

definition suspend_decide :: "u8 \<Rightarrow> u8" where
  "suspend_decide thread_state = (if thread_state AND THREAD_STATE_SUSPENDED \<noteq> 0 then 1 else 0)"

definition resume_decide :: "u8 \<Rightarrow> u8" where
  "resume_decide thread_state = (if thread_state AND THREAD_STATE_SUSPENDED = 0 then 1 else 0)"

record priority_set_decision =
  ps_action :: u8
  ps_ret :: i32

definition priority_set_decide :: "u32 \<Rightarrow> priority_set_decision" where
  "priority_set_decide new_priority =
     (if new_priority \<ge> MAX_PRIORITY then \<lparr>ps_action = 1, ps_ret = EINVAL\<rparr>
      else \<lparr>ps_action = 0, ps_ret = OK_code\<rparr>)"

record stack_space_decision =
  sp_action :: u8
  sp_ret :: i32
  sp_unused_estimate :: u32

definition stack_space_decide :: "stack_info \<Rightarrow> bool \<Rightarrow> stack_space_decision run" where
  "stack_space_decide stack stack_mapped_valid =
     (if \<not> stack_mapped_valid then Ret \<lparr>sp_action = 1, sp_ret = EINVAL, sp_unused_estimate = 0\<rparr>
      else do {
        unused_estimate \<leftarrow> stack_unused stack;
        Ret \<lparr>sp_action = 0, sp_ret = OK_code, sp_unused_estimate = unused_estimate\<rparr> })"

record deadline_decision =
  dl_action :: u8
  dl_ret :: i32
  dl_clamped :: i32

definition deadline_decide :: "i32 \<Rightarrow> deadline_decision" where
  "deadline_decide deadline =
     (if deadline \<le> 0 then \<lparr>dl_action = 1, dl_ret = EINVAL, dl_clamped = 0\<rparr>
      else \<lparr>dl_action = 0, dl_ret = OK_code, dl_clamped = deadline\<rparr>)"

definition thread_abort_decide :: "u8 \<Rightarrow> bool \<Rightarrow> u8" where
  "thread_abort_decide thread_state is_essential =
     (if thread_state AND THREAD_STATE_DEAD \<noteq> 0 then 1 else if is_essential then 2 else 0)"

record join_decision =
  jn_action :: u8
  jn_ret :: i32

definition join_decide :: "bool \<Rightarrow> bool \<Rightarrow> bool \<Rightarrow> join_decision" where
  "join_decide is_dead is_no_wait is_self_or_circular =
     (if is_dead then \<lparr>jn_action = 0, jn_ret = OK_code\<rparr>
      else if is_no_wait then \<lparr>jn_action = 0, jn_ret = EBUSY\<rparr>
      else if is_self_or_circular then \<lparr>jn_action = 0, jn_ret = EDEADLK\<rparr>
      else \<lparr>jn_action = 1, jn_ret = OK_code\<rparr>)"

section \<open>The exported functions (ffi)\<close>

text \<open>An output pointer is an option; None is the null pointer.\<close>

definition gale_thread_create_validate :: "u32 \<Rightarrow> u32 option \<Rightarrow> (i32 \<times> u32 option) run" where
  "gale_thread_create_validate cnt new_count =
     (if new_count = None then Ret (EINVAL, new_count)
      else if cnt \<ge> MAX_THREADS_live then Ret (EAGAIN, new_count)
      else do { c \<leftarrow> add_chk cnt 1; Ret (OK_code, Some c) })"

definition gale_thread_exit_validate :: "u32 \<Rightarrow> u32 option \<Rightarrow> (i32 \<times> u32 option) run" where
  "gale_thread_exit_validate cnt new_count =
     (if new_count = None then Ret (EINVAL, new_count)
      else if cnt = 0 then Ret (EINVAL, new_count)
      else do { c \<leftarrow> sub_chk cnt 1; Ret (OK_code, Some c) })"

definition gale_thread_priority_validate :: "u32 \<Rightarrow> i32" where
  "gale_thread_priority_validate priority = ps_ret (priority_set_decide priority)"

record gale_thread_create_decision =
  gtc_action :: u8
  gtc_ret :: i32

definition MIN_STACK_SIZE :: u32 where
  "MIN_STACK_SIZE = 64"

definition gale_k_thread_create_decide :: "u32 \<Rightarrow> u32 \<Rightarrow> u32 \<Rightarrow> u32 \<Rightarrow> gale_thread_create_decision" where
  "gale_k_thread_create_decide stack_size priority options active =
     (if stack_size < MIN_STACK_SIZE \<or> isl (stack_info_init 0 stack_size)
      then \<lparr>gtc_action = 1, gtc_ret = EINVAL\<rparr>
      else
        (let prio_d = priority_set_decide priority
         in if ps_action prio_d \<noteq> 0 then \<lparr>gtc_action = 1, gtc_ret = ps_ret prio_d\<rparr>
            else if active \<ge> MAX_THREADS_live then \<lparr>gtc_action = 1, gtc_ret = EAGAIN\<rparr>
            else \<lparr>gtc_action = 0, gtc_ret = OK_code\<rparr>))"

definition gale_k_thread_abort_decide :: "u8 \<Rightarrow> u32 \<Rightarrow> u8" where
  "gale_k_thread_abort_decide thread_state is_essential =
     (let d = thread_abort_decide thread_state (is_essential \<noteq> 0)
      in if d = 1 then 1 else if d = 2 then 2 else if d = 0 then 0 else 0)"

definition gale_k_thread_join_decide :: "u32 \<Rightarrow> u32 \<Rightarrow> u32 \<Rightarrow> join_decision" where
  "gale_k_thread_join_decide is_dead is_no_wait is_self_or_circular =
     (let d = join_decide (is_dead \<noteq> 0) (is_no_wait \<noteq> 0) (is_self_or_circular \<noteq> 0)
      in \<lparr>jn_action = (if jn_action d = 0 then 0 else if jn_action d = 1 then 1 else 0), jn_ret = jn_ret d\<rparr>)"

definition gale_k_thread_suspend_decide :: "u8 \<Rightarrow> u8" where
  "gale_k_thread_suspend_decide thread_state = suspend_decide thread_state"

definition gale_k_thread_resume_decide :: "u8 \<Rightarrow> u8" where
  "gale_k_thread_resume_decide thread_state = resume_decide thread_state"

definition gale_k_thread_priority_set_decide :: "u32 \<Rightarrow> priority_set_decision" where
  "gale_k_thread_priority_set_decide new_priority =
     (let d = priority_set_decide new_priority in \<lparr>ps_action = ps_action d, ps_ret = ps_ret d\<rparr>)"

definition gale_k_thread_stack_space_decide :: "u32 \<Rightarrow> u32 \<Rightarrow> u32 \<Rightarrow> stack_space_decision run" where
  "gale_k_thread_stack_space_decide stack_size stack_usage stack_mapped_valid =
     (case stack_info_init 0 stack_size of
        Inl e \<Rightarrow> Ret \<lparr>sp_action = 1, sp_ret = EINVAL, sp_unused_estimate = 0\<rparr>
      | Inr si \<Rightarrow>
          stack_space_decide (si\<lparr>si_usage := if stack_usage > stack_size then stack_size else stack_usage\<rparr>)
            (stack_mapped_valid \<noteq> 0))"

definition gale_k_thread_deadline_decide :: "i32 \<Rightarrow> deadline_decision" where
  "gale_k_thread_deadline_decide deadline =
     (let d = deadline_decide deadline
      in \<lparr>dl_action = dl_action d, dl_ret = dl_ret d, dl_clamped = dl_clamped d\<rparr>)"

section \<open>Runs of the tracker and of the stack watermark\<close>

datatype tracker_event = T_create bool | T_exit bool

inductive tracker_step :: "thread_tracker \<Rightarrow> tracker_event \<Rightarrow> thread_tracker \<Rightarrow> bool" where
  create: "tracker_create t = Ret (r, t') \<Longrightarrow> tracker_step t (T_create (r = OK_code)) t'"
| exit: "tracker_exit t = Ret (r, t') \<Longrightarrow> tracker_step t (T_exit (r = OK_code)) t'"

text \<open>The threads that are live after a history of calls.\<close>

definition live_threads :: "tracker_event list \<Rightarrow> int" where
  "live_threads es = int (count_list es (T_create True)) - int (count_list es (T_exit True))"

lemma live_threads_snoc [simp]:
  "live_threads [] = 0"
  "live_threads (es @ [e]) = live_threads es + (if e = T_create True then 1 else if e = T_exit True then -1 else 0)"
  by (auto simp: live_threads_def)

definition tracker_view :: "tracker_event list \<Rightarrow> thread_tracker \<Rightarrow> bool" where
  "tracker_view es t \<longleftrightarrow> tracker_inv t \<and> int (unat (tt_count t)) = live_threads es \<and>
     int (unat (tt_peak t)) = high_water live_threads es"

lemma tracker_create_cases:
  assumes "tracker_create t = Ret (r, t')"
  shows "r = EAGAIN \<and> t' = t \<and> 256 \<le> unat (tt_count t) \<or>
         r = OK_code \<and> unat (tt_count t) < 256 \<and> unat (tt_count t') = unat (tt_count t) + 1 \<and>
         unat (tt_peak t') = max (unat (tt_peak t)) (unat (tt_count t) + 1)"
  using assms
  by (auto simp: tracker_create_def MAX_THREADS_live_def Let_def word_le_nat_alt word_less_nat_alt chk_iffs max_def
      split: if_splits Option.bind_splits)

lemma tracker_exit_cases:
  assumes "tracker_exit t = Ret (r, t')"
  shows "r = EINVAL \<and> t' = t \<and> unat (tt_count t) = 0 \<or>
         r = OK_code \<and> 0 < unat (tt_count t) \<and> unat (tt_count t') = unat (tt_count t) - 1 \<and> tt_peak t' = tt_peak t"
  using assms
  by (auto simp: tracker_exit_def chk_iffs split: if_splits Option.bind_splits)

lemma tracker_view_nat:
  "tracker_view es t \<longleftrightarrow> unat (tt_count t) \<le> unat (tt_peak t) \<and> unat (tt_peak t) \<le> 256 \<and>
     int (unat (tt_count t)) = live_threads es \<and> int (unat (tt_peak t)) = high_water live_threads es"
  by (auto simp: tracker_view_def tracker_inv_def MAX_THREADS_live_def word_le_nat_alt)

lemma tracker_step_keeps:
  assumes "tracker_step t e t'" and "tracker_view es t"
  shows "tracker_view (es @ [e]) t'"
  using assms(1)
proof cases
  case (create r)
  show ?thesis
    using tracker_create_cases [OF create(2)] assms(2) unfolding tracker_view_nat create(1)
    by (auto simp: error_codes simp del: of_nat_unat)
next
  case (exit r)
  show ?thesis
    using tracker_exit_cases [OF exit(2)] assms(2) unfolding tracker_view_nat exit(1)
    by (auto simp: error_codes simp del: of_nat_unat)
qed

lemma tracker_trace_keeps:
  assumes "trace tracker_step tracker_new es t"
  shows "tracker_view es t"
  using assms
proof (induction rule: trace.induct)
  case trace_Nil
  show ?case by (simp add: tracker_view_def tracker_new_def tracker_inv_def)
next
  case (trace_snoc es t e t')
  show ?case by (rule tracker_step_keeps [OF trace_snoc.hyps(2) trace_snoc.IH])
qed

lemma tracker_calls_return:
  assumes "tracker_inv t"
  shows "\<exists>r t'. tracker_create t = Ret (r, t')" "\<exists>r t'. tracker_exit t = Ret (r, t')"
proof -
  have a: "unat (tt_count t) + unat (1 :: u32) < 2 ^ LENGTH(32)"
    using assms by (simp add: tracker_inv_def MAX_THREADS_live_def word_le_nat_alt)
  show "\<exists>r t'. tracker_create t = Ret (r, t')"
    using add_chk_ex [OF a] by (auto simp: tracker_create_def Let_def)
  have s: "unat (1 :: u32) \<le> unat (tt_count t)" if "tt_count t \<noteq> 0"
    using that unat_eq_0 [of "tt_count t"] by simp
  show "\<exists>r t'. tracker_exit t = Ret (r, t')"
    using sub_chk_ex [OF s] by (auto simp: tracker_exit_def)
qed

text \<open>The watermark is the largest accepted observation.\<close>

fun record_all :: "u32 list \<Rightarrow> stack_info \<Rightarrow> stack_info" where
  "record_all [] s = s"
| "record_all (x # xs) s = record_all xs (snd (record_usage x s))"

lemma record_all_size [simp]: "si_size (record_all xs s) = si_size s"
  by (induction xs arbitrary: s) (simp_all add: record_usage_def)

lemma record_all_usage:
  "si_usage (record_all xs s) = fold max (filter (\<lambda>x. x \<le> si_size s) xs) (si_usage s)"
  by (induction xs arbitrary: s) (auto simp: record_usage_def not_less max_def)

lemma stack_watermark:
  assumes "stack_info_init base sz = Ok s"
  shows "stack_info_inv (record_all xs s) \<and>
         (\<exists>u. stack_unused (record_all xs s) = Ret u \<and>
            unat u + unat (fold max (filter (\<lambda>x. x \<le> sz) xs) 0) = unat sz)"
proof -
  have s: "si_size s = sz" "si_usage s = 0" "sz \<noteq> 0"
    using assms by (auto simp: stack_info_init_def split: if_splits)
  have "fold max (filter (\<lambda>x. x \<le> sz) xs) b \<le> sz" if "b \<le> sz" for b
    using that by (induction xs arbitrary: b) (auto simp: max_def)
  then have le: "fold max (filter (\<lambda>x. x \<le> sz) xs) 0 \<le> sz" by simp
  then obtain u where u: "stack_unused (record_all xs s) = Ret u"
    "unat u = unat sz - unat (fold max (filter (\<lambda>x. x \<le> sz) xs) 0)"
    using sub_chk_ex [of "si_usage (record_all xs s)" "si_size (record_all xs s)"]
    by (auto simp: stack_unused_def record_all_usage s word_le_nat_alt chk_iffs)
  show ?thesis
    using u le s by (auto simp: stack_info_inv_def record_all_usage word_le_nat_alt word_gt_0)
qed

section \<open>Properties\<close>

text \<open>
  C33: The thread tracker counts exactly. After any sequence of create and exit calls no call
  has panicked or can panic, the count is the number of accepted creations less the
  accepted exits, the peak is the largest such count at any time so far, a creation is
  accepted exactly below 256 live threads and an exit exactly when one is live. The exported
  creation decision proceeds exactly when the stack has at least 64 bytes, the priority is
  in range and the tracker accepts; then the thread's record can be built and is well formed.
\<close>

theorem thread_tracker_exact:
  assumes "trace tracker_step tracker_new es t"
  shows "int (unat (active_count t)) = live_threads es \<and>
         int (unat (peak_count t)) = high_water live_threads es \<and>
         (\<exists>r t'. tracker_create t = Ret (r, t') \<and> (r = OK_code \<longleftrightarrow> live_threads es < 256)) \<and>
         (\<exists>r t'. tracker_exit t = Ret (r, t') \<and> (r = OK_code \<longleftrightarrow> live_threads es > 0)) \<and>
         (gtc_action (gale_k_thread_create_decide sz pr opt (active_count t)) = 0 \<longleftrightarrow>
            64 \<le> sz \<and> pr < 32 \<and> live_threads es < 256) \<and>
         (gtc_action (gale_k_thread_create_decide sz pr opt (active_count t)) = 0 \<longrightarrow>
            (\<exists>th. thread_info_new i pr base sz = Ok th \<and> thread_info_inv th))"
proof -
  have v: "tracker_inv t" "int (unat (tt_count t)) = live_threads es" "int (unat (tt_peak t)) = high_water live_threads es"
    using tracker_trace_keeps [OF assms] by (auto simp: tracker_view_def)
  have "r = OK_code \<longleftrightarrow> live_threads es < 256" if "tracker_create t = Ret (r, t')" for r t'
    using tracker_create_cases [OF that] v(2) by (auto simp: error_codes simp del: of_nat_unat)
  moreover have "r = OK_code \<longleftrightarrow> live_threads es > 0" if "tracker_exit t = Ret (r, t')" for r t'
    using tracker_exit_cases [OF that] v(2) by (auto simp: error_codes simp del: of_nat_unat)
  moreover have g: "gtc_action (gale_k_thread_create_decide sz pr opt (active_count t)) = 0 \<longleftrightarrow>
      64 \<le> sz \<and> pr < 32 \<and> live_threads es < 256"
    using v(2)
    by (auto simp: gale_k_thread_create_decide_def MIN_STACK_SIZE_def stack_info_init_def priority_set_decide_def
        MAX_PRIORITY_def MAX_THREADS_live_def active_count_def word_le_nat_alt word_less_nat_alt Let_def
        simp del: of_nat_unat)
  moreover have "\<exists>th. thread_info_new i pr base sz = Ok th \<and> thread_info_inv th" if "64 \<le> sz" "pr < 32"
    using that by (auto simp: thread_info_new_def thread_info_inv_def stack_info_inv_def MAX_PRIORITY_def
        word_le_nat_alt word_less_nat_alt)
  ultimately show ?thesis
    using v tracker_calls_return [OF v(1)] by (auto simp: active_count_def peak_count_def simp del: of_nat_unat)
qed

theorem thread_tracker_exact_witness:
  "active_count \<lparr>tt_count = 0, tt_peak = 1\<rparr> = 0 \<and> high_water live_threads [T_create True, T_exit True] = 1 \<and>
   gtc_action (gale_k_thread_create_decide 512 7 0 0) = 0"
proof -
  have "tracker_step tracker_new (T_create True) \<lparr>tt_count = 1, tt_peak = 1\<rparr>"
    using tracker_step.create [of tracker_new OK_code "\<lparr>tt_count = 1, tt_peak = 1\<rparr>"]
    by (simp add: tracker_create_def tracker_new_def MAX_THREADS_live_def add_chk_def)
  moreover have "tracker_step \<lparr>tt_count = 1, tt_peak = 1\<rparr> (T_exit True) \<lparr>tt_count = 0, tt_peak = 1\<rparr>"
    using tracker_step.exit [of "\<lparr>tt_count = 1, tt_peak = 1\<rparr>" OK_code "\<lparr>tt_count = 0, tt_peak = 1\<rparr>"]
    by (simp add: tracker_exit_def sub_chk_def)
  ultimately have "trace tracker_step tracker_new [T_create True, T_exit True] \<lparr>tt_count = 0, tt_peak = 1\<rparr>"
    using trace_two [of tracker_step] by blast
  from thread_tracker_exact [OF this, of 512 7 0] show ?thesis
    by (simp add: active_count_def peak_count_def live_threads_def)
qed

end
