(* ===== verification/Poll.thy ===== *)
theory Poll
  imports Kernel_Thread
begin

text \<open>
  Polling (src/poll.rs): poll events, signals and the array of events with its loops, and
  the functions exported to C (the poll section of ffi/src/lib.rs).
\<close>

section \<open>Event types and states\<close>

definition TYPE_IGNORE :: u32 where "TYPE_IGNORE = 0"
definition TYPE_SEM_AVAILABLE :: u32 where "TYPE_SEM_AVAILABLE = 1"
definition TYPE_DATA_AVAILABLE :: u32 where "TYPE_DATA_AVAILABLE = 2"
definition TYPE_SIGNAL :: u32 where "TYPE_SIGNAL = 4"
definition TYPE_MSGQ_DATA_AVAILABLE :: u32 where "TYPE_MSGQ_DATA_AVAILABLE = 8"
definition TYPE_PIPE_DATA_AVAILABLE :: u32 where "TYPE_PIPE_DATA_AVAILABLE = 16"
definition STATE_NOT_READY :: u32 where "STATE_NOT_READY = 0"
definition STATE_SEM_AVAILABLE :: u32 where "STATE_SEM_AVAILABLE = 1"
definition STATE_DATA_AVAILABLE :: u32 where "STATE_DATA_AVAILABLE = 2"
definition STATE_SIGNALED :: u32 where "STATE_SIGNALED = 4"
definition STATE_MSGQ_DATA_AVAILABLE :: u32 where "STATE_MSGQ_DATA_AVAILABLE = 8"
definition STATE_PIPE_DATA_AVAILABLE :: u32 where "STATE_PIPE_DATA_AVAILABLE = 16"
definition STATE_CANCELLED :: u32 where "STATE_CANCELLED = 32"

lemmas poll_consts = TYPE_IGNORE_def TYPE_SEM_AVAILABLE_def TYPE_DATA_AVAILABLE_def TYPE_SIGNAL_def TYPE_MSGQ_DATA_AVAILABLE_def TYPE_PIPE_DATA_AVAILABLE_def STATE_NOT_READY_def STATE_SEM_AVAILABLE_def STATE_DATA_AVAILABLE_def STATE_SIGNALED_def STATE_MSGQ_DATA_AVAILABLE_def STATE_PIPE_DATA_AVAILABLE_def STATE_CANCELLED_def

section \<open>Poll events\<close>

record poll_event =
  pe_type :: u32
  pe_state :: u32
  pe_tag :: u32

definition poll_event_init :: "u32 \<Rightarrow> u32 \<Rightarrow> poll_event" where
  "poll_event_init event_type tag = \<lparr>pe_type = event_type, pe_state = STATE_NOT_READY, pe_tag = tag\<rparr>"

definition reset_state :: "poll_event \<Rightarrow> poll_event" where
  "reset_state e = e\<lparr>pe_state := STATE_NOT_READY\<rparr>"

definition set_ready :: "u32 \<Rightarrow> poll_event \<Rightarrow> poll_event" where
  "set_ready new_state e = e\<lparr>pe_state := pe_state e OR new_state\<rparr>"

definition check_sem :: "u32 \<Rightarrow> poll_event \<Rightarrow> bool" where
  "check_sem sem_count e \<longleftrightarrow> pe_type e = TYPE_SEM_AVAILABLE \<and> sem_count > 0"

definition check_signal :: "u32 \<Rightarrow> poll_event \<Rightarrow> bool" where
  "check_signal signaled e \<longleftrightarrow> pe_type e = TYPE_SIGNAL \<and> signaled \<noteq> 0"

definition check_msgq :: "u32 \<Rightarrow> poll_event \<Rightarrow> bool" where
  "check_msgq used_msgs e \<longleftrightarrow> pe_type e = TYPE_MSGQ_DATA_AVAILABLE \<and> used_msgs > 0"

definition check_data :: "bool \<Rightarrow> poll_event \<Rightarrow> bool" where
  "check_data queue_not_empty e \<longleftrightarrow> pe_type e = TYPE_DATA_AVAILABLE \<and> queue_not_empty"

definition check_pipe :: "bool \<Rightarrow> poll_event \<Rightarrow> bool" where
  "check_pipe pipe_not_empty e \<longleftrightarrow> pe_type e = TYPE_PIPE_DATA_AVAILABLE \<and> pipe_not_empty"

definition poll_state_get :: "poll_event \<Rightarrow> u32" where
  "poll_state_get e = pe_state e"

definition poll_type_get :: "poll_event \<Rightarrow> u32" where
  "poll_type_get e = pe_type e"

definition poll_tag_get :: "poll_event \<Rightarrow> u32" where
  "poll_tag_get e = pe_tag e"

definition poll_is_ready :: "poll_event \<Rightarrow> bool" where
  "poll_is_ready e \<longleftrightarrow> pe_state e \<noteq> STATE_NOT_READY"

definition poll_is_not_ready :: "poll_event \<Rightarrow> bool" where
  "poll_is_not_ready e \<longleftrightarrow> pe_state e = STATE_NOT_READY"

definition poll_cancel :: "poll_event \<Rightarrow> poll_event" where
  "poll_cancel e = e\<lparr>pe_state := pe_state e OR STATE_CANCELLED\<rparr>"

section \<open>Signals\<close>

record poll_signal =
  sg_signaled :: u32
  sg_result :: i32

definition signal_init :: poll_signal where
  "signal_init = \<lparr>sg_signaled = 0, sg_result = 0\<rparr>"

definition signal_raise :: "i32 \<Rightarrow> poll_signal \<Rightarrow> poll_signal" where
  "signal_raise result_val s = s\<lparr>sg_result := result_val, sg_signaled := 1\<rparr>"

definition signal_reset :: "poll_signal \<Rightarrow> poll_signal" where
  "signal_reset s = s\<lparr>sg_signaled := 0\<rparr>"

definition signal_check :: "poll_signal \<Rightarrow> u32 \<times> i32" where
  "signal_check s = (sg_signaled s, sg_result s)"

definition is_signaled :: "poll_signal \<Rightarrow> bool" where
  "is_signaled s \<longleftrightarrow> sg_signaled s \<noteq> 0"

section \<open>The array of events\<close>

definition MAX_POLL_EVENTS :: u32 where
  "MAX_POLL_EVENTS = 16"

record poll_events =
  pv_events :: "poll_event list"
  pv_num_events :: u32

definition poll_events_inv :: "poll_events \<Rightarrow> bool" where
  "poll_events_inv p \<longleftrightarrow> length (pv_events p) = 16 \<and> pv_num_events p \<le> MAX_POLL_EVENTS"

definition poll_events_set :: "poll_event list \<Rightarrow> nat \<Rightarrow> poll_event \<Rightarrow> poll_event list run" where
  "poll_events_set es idx e = arr_set es idx e"

definition poll_events_set_state :: "poll_event list \<Rightarrow> nat \<Rightarrow> u32 \<Rightarrow> poll_event list run" where
  "poll_events_set_state es idx st = do { e \<leftarrow> arr_get es idx; arr_set es idx (e\<lparr>pe_state := st\<rparr>) }"

definition poll_events_new :: poll_events where
  "poll_events_new =
     (let default_event = \<lparr>pe_type = TYPE_IGNORE, pe_state = STATE_NOT_READY, pe_tag = 0\<rparr>
      in \<lparr>pv_events = replicate 16 default_event, pv_num_events = 0\<rparr>)"

definition poll_events_add :: "poll_event \<Rightarrow> poll_events \<Rightarrow> (bool \<times> poll_events) run" where
  "poll_events_add e p =
     (if pv_num_events p \<ge> MAX_POLL_EVENTS then Ret (False, p)
      else do {
        es \<leftarrow> poll_events_set (pv_events p) (unat (pv_num_events p)) e;
        n \<leftarrow> add_chk (pv_num_events p) 1;
        Ret (True, p\<lparr>pv_events := es, pv_num_events := n\<rparr>) })"

function reset_from :: "nat \<Rightarrow> nat \<Rightarrow> poll_event list \<Rightarrow> poll_event list run" where
  "reset_from i n es =
     (if i < n then do { es \<leftarrow> poll_events_set_state es i STATE_NOT_READY; reset_from (i + 1) n es }
      else Ret es)"
  by pat_completeness auto
termination by (relation "measure (\<lambda>(i, n, _). n - i)") auto

definition reset_all_states :: "poll_events \<Rightarrow> poll_events run" where
  "reset_all_states p = do {
     es \<leftarrow> reset_from 0 (unat (pv_num_events p)) (pv_events p);
     Ret (p\<lparr>pv_events := es\<rparr>) }"

function any_from :: "nat \<Rightarrow> nat \<Rightarrow> poll_event list \<Rightarrow> bool \<Rightarrow> bool run" where
  "any_from i n es found =
     (if i < n then do { e \<leftarrow> arr_get es i; any_from (i + 1) n es (if pe_state e \<noteq> STATE_NOT_READY then True else found) }
      else Ret found)"
  by pat_completeness auto
termination by (relation "measure (\<lambda>(i, n, _). n - i)") auto

definition any_ready :: "poll_events \<Rightarrow> bool run" where
  "any_ready p = any_from 0 (unat (pv_num_events p)) (pv_events p) False"

function count_from :: "nat \<Rightarrow> nat \<Rightarrow> poll_event list \<Rightarrow> u32 \<Rightarrow> u32 run" where
  "count_from i n es c =
     (if i < n then do {
        e \<leftarrow> arr_get es i;
        c \<leftarrow> (if pe_state e \<noteq> STATE_NOT_READY then add_chk c 1 else Ret c);
        count_from (i + 1) n es c }
      else Ret c)"
  by pat_completeness auto
termination by (relation "measure (\<lambda>(i, n, _). n - i)") auto

definition count_ready :: "poll_events \<Rightarrow> u32 run" where
  "count_ready p = count_from 0 (unat (pv_num_events p)) (pv_events p) 0"

definition poll_events_len :: "poll_events \<Rightarrow> u32" where
  "poll_events_len p = pv_num_events p"

declare reset_from.simps [simp del] any_from.simps [simp del] count_from.simps [simp del]

section \<open>Decisions\<close>

definition check_sem_decide :: "u32 \<Rightarrow> u32 \<Rightarrow> bool" where
  "check_sem_decide event_type sem_count \<longleftrightarrow> event_type = TYPE_SEM_AVAILABLE \<and> sem_count > 0"

definition signal_raise_decide :: "i32 \<Rightarrow> bool \<Rightarrow> u32 \<times> i32 \<times> bool" where
  "signal_raise_decide result_val has_poll_event = (1, result_val, has_poll_event)"

definition event_init_decide :: "u32 \<Rightarrow> u32" where
  "event_init_decide event_type = STATE_NOT_READY"

definition signal_reset_decide :: u32 where
  "signal_reset_decide = 0"

section \<open>The exported functions (ffi)\<close>

text \<open>An output pointer is an option; None is the null pointer.\<close>

definition gale_poll_event_init :: "u32 \<Rightarrow> u32 option \<Rightarrow> i32 \<times> u32 option" where
  "gale_poll_event_init event_type st =
     (if st = None then (EINVAL, st) else (OK_code, Some (event_init_decide event_type)))"

definition gale_poll_check_sem :: "u32 \<Rightarrow> u32 \<Rightarrow> i32" where
  "gale_poll_check_sem event_type sem_count = (if check_sem_decide event_type sem_count then 1 else 0)"

definition gale_poll_signal_raise :: "u32 option \<Rightarrow> i32 option \<Rightarrow> i32 \<Rightarrow> i32 \<times> u32 option \<times> i32 option" where
  "gale_poll_signal_raise signaled res result_val =
     (if signaled = None \<or> res = None then (EINVAL, signaled, res)
      else (let (new_signaled, new_result, _) = signal_raise_decide result_val False
            in (OK_code, Some new_signaled, Some new_result)))"

definition gale_poll_signal_reset :: "u32 option \<Rightarrow> i32 \<times> u32 option" where
  "gale_poll_signal_reset signaled =
     (if signaled = None then (EINVAL, signaled) else (OK_code, Some signal_reset_decide))"

record gale_poll_signal_raise_decision =
  gpr_new_signaled :: u32
  gpr_new_result :: i32
  gpr_action :: u8

definition gale_k_poll_signal_raise_decide :: "u32 \<Rightarrow> i32 \<Rightarrow> u32 \<Rightarrow> gale_poll_signal_raise_decision" where
  "gale_k_poll_signal_raise_decide signaled result_val has_poll_event =
     (let (new_signaled, new_result, has_event) = signal_raise_decide result_val (has_poll_event \<noteq> 0)
      in \<lparr>gpr_new_signaled = new_signaled, gpr_new_result = new_result, gpr_action = (if has_event then 1 else 0)\<rparr>)"

section \<open>The events as a list\<close>

definition poll_list :: "poll_events \<Rightarrow> poll_event list" where
  "poll_list p = take (unat (pv_num_events p)) (pv_events p)"

lemma bex_nth: "(\<exists>e\<in>set xs. P e) \<longleftrightarrow> (\<exists>j<length xs. P (xs ! j))"
  by (metis in_set_conv_nth)

lemma any_from_eq:
  assumes "n \<le> length es"
  shows "any_from i n es found = Ret (found \<or> (\<exists>j. i \<le> j \<and> j < n \<and> poll_is_ready (es ! j)))"
proof (induction i arbitrary: found rule: upto_induct [where n = n])
  case (stop i)
  then show ?case by (subst any_from.simps) auto
next
  case (step i)
  have e: "(\<exists>j. i \<le> j \<and> j < n \<and> P j) \<longleftrightarrow> P i \<or> (\<exists>j. Suc i \<le> j \<and> j < n \<and> P j)" for P
    using step(1) by (metis Suc_le_eq le_eq_less_or_eq)
  show ?case
    using step assms by (subst any_from.simps) (auto simp: arr_get_def poll_is_ready_def e)
qed

lemma count_from_eq:
  assumes "n \<le> length es" and "unat c + (n - i) < 2 ^ 32"
  shows "\<exists>r. count_from i n es c = Ret r \<and> unat r = unat c + length (filter poll_is_ready (drop i (take n es)))"
  using assms(2)
proof (induction i arbitrary: c rule: upto_induct [where n = n])
  case (stop i)
  then show ?case by (subst count_from.simps) simp
next
  case (step i)
  have d: "drop i (take n es) = es ! i # drop (Suc i) (take n es)"
    using step(1) assms(1) by (simp add: Cons_nth_drop_Suc [symmetric])
  show ?case
  proof (cases "poll_is_ready (es ! i)")
    case True
    have "unat c + unat (1 :: u32) < 2 ^ LENGTH(32)"
      using step(1,3) by simp
    then obtain c' where c': "add_chk c 1 = Some c'" "unat c' = unat c + 1"
      using add_chk_ex by fastforce
    moreover have "unat c' + (n - (i + 1)) < 2 ^ 32"
      using c'(2) step(1,3) by simp
    ultimately show ?thesis
      using step(1) step(2) [of c'] assms(1) True
      by (subst count_from.simps) (simp add: arr_get_def d poll_is_ready_def [of "es ! i"])
  next
    case False
    then show ?thesis
      using step(1) step(2) [of c] step(3) assms(1)
      by (subst count_from.simps) (simp add: arr_get_def d poll_is_ready_def [of "es ! i"])
  qed
qed

lemma reset_from_eq:
  assumes "n \<le> length es"
  shows "reset_from i n es = Ret (take i es @ map reset_state (drop i (take n es)) @ drop (max i n) es)"
  using assms
proof (induction i arbitrary: es rule: upto_induct [where n = n])
  case (stop i)
  then show ?case by (subst reset_from.simps) (simp add: max_def)
next
  case (step i)
  let ?es = "es[i := reset_state (es ! i)]"
  have "take (Suc i) ?es @ map reset_state (drop (Suc i) (take n ?es)) @ drop (max (Suc i) n) ?es =
      take i es @ map reset_state (drop i (take n es)) @ drop (max i n) es"
    using step(1,3)
    by (simp add: take_Suc_conv_app_nth Cons_nth_drop_Suc [symmetric, of i "take n es"] max_def take_update_swap drop_update_cancel list_update_append)
  moreover have "poll_events_set_state es i STATE_NOT_READY = Ret ?es"
    using step(1,3) by (simp add: poll_events_set_state_def arr_get_def arr_set_def reset_state_def)
  ultimately show ?case
    using step(1) step(2) [of ?es] step(3) by (subst reset_from.simps) simp
qed

text \<open>
  The array of poll events is the list of the events added to it. Adding appends while
  fewer than 16 are held and is refused otherwise; the readiness loops return and report
  whether, and how many, events of the list are ready; the reset clears the state of every
  event of the list and nothing else. No call panics and the invariant is kept.
\<close>

theorem poll_set_exact:
  assumes "poll_events_inv p"
  shows "any_ready p = Ret (\<exists>e\<in>set (poll_list p). poll_is_ready e) \<and>
         (\<exists>r. count_ready p = Ret r \<and> unat r = length (filter poll_is_ready (poll_list p))) \<and>
         (\<exists>q. reset_all_states p = Ret q \<and> poll_events_inv q \<and> poll_list q = map reset_state (poll_list p)) \<and>
         (\<exists>ok q. poll_events_add e p = Ret (ok, q) \<and> poll_events_inv q \<and> ok = (length (poll_list p) < 16) \<and>
            poll_list q = poll_list p @ (if ok then [e] else []))"
proof -
  let ?n = "unat (pv_num_events p)" and ?es = "pv_events p"
  have n: "length ?es = 16" "?n \<le> 16"
    using assms by (auto simp: poll_events_inv_def MAX_POLL_EVENTS_def word_le_nat_alt)
  have "any_ready p = Ret (\<exists>e\<in>set (poll_list p). poll_is_ready e)"
    using n bex_nth [of "poll_list p" poll_is_ready] by (simp add: any_ready_def any_from_eq poll_list_def cong: conj_cong)
  moreover have "\<exists>r. count_ready p = Ret r \<and> unat r = length (filter poll_is_ready (poll_list p))"
    using n count_from_eq [of ?n ?es 0 0] by (simp add: count_ready_def poll_list_def)
  moreover have "\<exists>q. reset_all_states p = Ret q \<and> poll_events_inv q \<and> poll_list q = map reset_state (poll_list p)"
    using n assms by (simp add: reset_all_states_def reset_from_eq poll_events_inv_def poll_list_def)
  moreover have "\<exists>ok q. poll_events_add e p = Ret (ok, q) \<and> poll_events_inv q \<and> ok = (length (poll_list p) < 16) \<and>
      poll_list q = poll_list p @ (if ok then [e] else [])"
  proof (cases "?n < 16")
    case True
    obtain m where "add_chk (pv_num_events p) 1 = Some m" "unat m = ?n + 1"
      using add_chk_ex [of "pv_num_events p" 1] True by auto
    then show ?thesis
      using True n by (auto simp: poll_events_add_def poll_events_set_def arr_set_def MAX_POLL_EVENTS_def word_le_nat_alt
          poll_events_inv_def poll_list_def take_Suc_conv_app_nth)
  next
    case False
    then show ?thesis
      using n assms by (auto simp: poll_events_add_def MAX_POLL_EVENTS_def word_le_nat_alt poll_list_def)
  qed
  ultimately show ?thesis by blast
qed

theorem poll_set_exact_witness:
  "poll_events_inv poll_events_new \<and> any_ready poll_events_new = Ret False"
proof -
  have "poll_events_inv poll_events_new"
    by (simp add: poll_events_inv_def poll_events_new_def Let_def)
  from poll_set_exact [OF this] this show ?thesis
    by (simp add: poll_list_def poll_events_new_def Let_def)
qed

end
