(* ===== verification/Poll_Shim.thy ===== *)
theory Poll_Shim
  imports Poll
begin

text \<open>
  The C side of polling (zephyr/gale_poll.c): registration of the events of a k_poll call on
  their objects, readiness notification and signals, and the interleaving of calls by
  several threads. The sections under the subsystem lock are the atomic steps.

  Events, pollers and objects are addressed by numbers; the z_poller of a thread has the
  number of the thread. Event types and state flags are symbolic, since their values come
  from the Zephyr headers; the state of an event is the set of its flags.
\<close>

section \<open>State\<close>

datatype poll_mode = MODE_NONE | MODE_POLL | MODE_TRIGGERED

record z_poller =
  zp_is_polling :: bool
  zp_mode :: poll_mode

datatype kp_type = Ev_Ignore | Ev_Sem | Ev_Data | Ev_Signal | Ev_Msgq | Ev_Pipe | Ev_Invalid

datatype kp_flag = St_Sem | St_Data | St_Signaled | St_Msgq | St_Pipe | St_Cancelled

record k_poll_event =
  ke_poller :: "nat option"
  ke_type :: kp_type
  ke_state :: "kp_flag set"
  ke_obj :: nat

text \<open>
  The objects: ko_level is what the readiness test reads (the count of a semaphore, the
  number of queued items, messages or bytes, the signaled word), ko_list the list
  of events registered on the object. Of a thread the shim reads and writes whether
  it is pending, whether something else keeps it from running, and its return value; z_ready_thread appends to
  the ready list. Of a triggered work item it uses the queue it is bound to, the result and its events.
\<close>

record kp_twork =
  tw_workq :: "nat option"
  tw_poll_result :: i32
  tw_events :: "nat list"

record poll_state =
  kp_events :: "nat \<Rightarrow> k_poll_event"
  ko_level :: "nat \<Rightarrow> u32"
  ko_result :: "nat \<Rightarrow> i32"
  ko_list :: "nat \<Rightarrow> nat list"
  kp_pollers :: "nat \<Rightarrow> z_poller"
  kt_pending :: "nat \<Rightarrow> bool"
  kt_blocked :: "nat \<Rightarrow> bool"
  kt_retval :: "nat \<Rightarrow> i32"
  kt_ready :: "nat list"
  kw_twork :: "nat \<Rightarrow> kp_twork"
  kw_timeout :: "nat \<Rightarrow> bool"
  kw_submitted :: "(nat \<times> nat) list"

definition EINTR :: i32 where
  "EINTR = -4"

definition upd_event :: "nat \<Rightarrow> (k_poll_event \<Rightarrow> k_poll_event) \<Rightarrow> poll_state \<Rightarrow> poll_state" where
  "upd_event e f s = s\<lparr>kp_events := (kp_events s)(e := f (kp_events s e))\<rparr>"

definition upd_poller :: "nat \<Rightarrow> (z_poller \<Rightarrow> z_poller) \<Rightarrow> poll_state \<Rightarrow> poll_state" where
  "upd_poller p f s = s\<lparr>kp_pollers := (kp_pollers s)(p := f (kp_pollers s p))\<rparr>"

definition upd_list :: "nat \<Rightarrow> (nat list \<Rightarrow> nat list) \<Rightarrow> poll_state \<Rightarrow> poll_state" where
  "upd_list obj f s = s\<lparr>ko_list := (ko_list s)(obj := f (ko_list s obj))\<rparr>"

lemmas upd_defs = upd_event_def upd_poller_def upd_list_def

section \<open>Registration\<close>

definition k_poll_event_init :: "nat \<Rightarrow> kp_type \<Rightarrow> nat \<Rightarrow> poll_state \<Rightarrow> poll_state run" where
  "k_poll_event_init e ty obj s =
     (if ty = Ev_Invalid then Panic
      else Ret (upd_event e (\<lambda>_. \<lparr>ke_poller = None, ke_type = ty, ke_state = {}, ke_obj = obj\<rparr>) s))"

definition is_condition_met :: "nat \<Rightarrow> poll_state \<Rightarrow> kp_flag option run" where
  "is_condition_met e s =
     (let ev = kp_events s e; hit = (\<lambda>fl. Ret (if ko_level s (ke_obj ev) > 0 then Some fl else None))
      in case ke_type ev of
           Ev_Sem \<Rightarrow> hit St_Sem
         | Ev_Data \<Rightarrow> hit St_Data
         | Ev_Signal \<Rightarrow> hit St_Signaled
         | Ev_Msgq \<Rightarrow> hit St_Msgq
         | Ev_Pipe \<Rightarrow> hit St_Pipe
         | Ev_Ignore \<Rightarrow> Ret None
         | Ev_Invalid \<Rightarrow> Panic)"

text \<open>
  The position of an event among those registered on an object; cmp is z_sched_prio_cmp of
  the threads of two pollers, positive when the first has the higher priority.
\<close>

fun add_scan :: "(nat \<Rightarrow> nat \<Rightarrow> int) \<Rightarrow> (nat \<Rightarrow> nat option) \<Rightarrow> nat list \<Rightarrow> nat \<Rightarrow> nat \<Rightarrow> nat list run" where
  "add_scan cmp pol [] e p = Ret [e]"
| "add_scan cmp pol (x # xs) e p = do {
     q \<leftarrow> unwrap (pol x);
     if cmp p q > 0 then Ret (e # x # xs)
     else do { ys \<leftarrow> add_scan cmp pol xs e p; Ret (x # ys) } }"

definition add_event :: "(nat \<Rightarrow> nat \<Rightarrow> int) \<Rightarrow> (nat \<Rightarrow> nat option) \<Rightarrow> nat list \<Rightarrow> nat \<Rightarrow> nat \<Rightarrow> nat list run" where
  "add_event cmp pol xs e p =
     (if xs = [] then Ret (xs @ [e])
      else do {
        q \<leftarrow> unwrap (pol (last xs));
        if cmp q p > 0 then Ret (xs @ [e]) else add_scan cmp pol xs e p })"

definition register_event :: "(nat \<Rightarrow> nat \<Rightarrow> int) \<Rightarrow> nat \<Rightarrow> nat \<Rightarrow> poll_state \<Rightarrow> poll_state run" where
  "register_event cmp e p s = do {
     let ev = kp_events s e;
     s \<leftarrow> (case ke_type ev of
             Ev_Ignore \<Rightarrow> Ret s
           | Ev_Invalid \<Rightarrow> Panic
           | _ \<Rightarrow> do {
               xs \<leftarrow> add_event cmp (\<lambda>x. ke_poller (kp_events s x)) (ko_list s (ke_obj ev)) e p;
               Ret (upd_list (ke_obj ev) (\<lambda>_. xs) s) });
     Ret (upd_event e (\<lambda>ev. ev\<lparr>ke_poller := Some p\<rparr>) s) }"

definition clear_event_registration :: "nat \<Rightarrow> poll_state \<Rightarrow> poll_state run" where
  "clear_event_registration e s = do {
     let s = upd_event e (\<lambda>ev. ev\<lparr>ke_poller := None\<rparr>) s;
     let obj = ke_obj (kp_events s e);
     remove_event \<leftarrow> (case ke_type (kp_events s e) of Ev_Ignore \<Rightarrow> Ret False | Ev_Invalid \<Rightarrow> Panic | _ \<Rightarrow> Ret True);
     Ret (if remove_event \<and> e \<in> set (ko_list s obj) then upd_list obj (remove1 e) s else s) }"

fun clear_event_registrations :: "nat list \<Rightarrow> nat \<Rightarrow> poll_state \<Rightarrow> poll_state run" where
  "clear_event_registrations events 0 s = Ret s"
| "clear_event_registrations events (Suc n) s = do {
     e \<leftarrow> arr_get events n;
     s \<leftarrow> clear_event_registration e s;
     clear_event_registrations events n s }"

definition set_event_ready :: "nat \<Rightarrow> kp_flag \<Rightarrow> poll_state \<Rightarrow> poll_state" where
  "set_event_ready e fl s = upd_event e (\<lambda>ev. ev\<lparr>ke_poller := None, ke_state := insert fl (ke_state ev)\<rparr>) s"

text \<open>One round of the registration loop; the result tells whether the event was registered.\<close>

definition register_one :: "(nat \<Rightarrow> nat \<Rightarrow> int) \<Rightarrow> nat \<Rightarrow> nat \<Rightarrow> bool \<Rightarrow> poll_state \<Rightarrow> (bool \<times> poll_state) run" where
  "register_one cmp e p just_check s = do {
     met \<leftarrow> is_condition_met e s;
     case met of
       Some fl \<Rightarrow> Ret (False, upd_poller p (\<lambda>z. z\<lparr>zp_is_polling := False\<rparr>) (set_event_ready e fl s))
     | None \<Rightarrow>
         if \<not> just_check \<and> zp_is_polling (kp_pollers s p)
         then do { s \<leftarrow> register_event cmp e p s; Ret (True, s) }
         else Ret (False, s) }"

fun register_events :: "(nat \<Rightarrow> nat \<Rightarrow> int) \<Rightarrow> nat list \<Rightarrow> nat \<Rightarrow> bool \<Rightarrow> nat \<Rightarrow> poll_state \<Rightarrow> (nat \<times> poll_state) run" where
  "register_events cmp [] p just_check k s = Ret (k, s)"
| "register_events cmp (e # es) p just_check k s = do {
     r \<leftarrow> register_one cmp e p just_check s;
     register_events cmp es p just_check (if fst r then k + 1 else k) (snd r) }"

section \<open>Notification\<close>

definition signal_poller :: "nat \<Rightarrow> kp_flag \<Rightarrow> poll_state \<Rightarrow> (i32 \<times> poll_state) run" where
  "signal_poller e fl s = do {
     thread \<leftarrow> unwrap (ke_poller (kp_events s e));
     if \<not> kt_pending s thread then Ret (0, s)
     else do {
       let s = s\<lparr>kt_pending := (kt_pending s)(thread := False),
                 kt_retval := (kt_retval s)(thread := if fl = St_Cancelled then EINTR else 0)\<rparr>;
       if kt_blocked s thread then Ret (0, s)
       else Ret (0, s\<lparr>kt_ready := kt_ready s @ [thread]\<rparr>) } }"

definition signal_triggered_work :: "nat \<Rightarrow> kp_flag \<Rightarrow> poll_state \<Rightarrow> (i32 \<times> poll_state) run" where
  "signal_triggered_work e fl s = do {
     w \<leftarrow> unwrap (ke_poller (kp_events s e));
     case (zp_is_polling (kp_pollers s w), tw_workq (kw_twork s w)) of
       (True, Some work_q) \<Rightarrow>
         Ret (0, s\<lparr>kw_timeout := (kw_timeout s)(w := False),
                   kw_twork := (kw_twork s)(w := (kw_twork s w)\<lparr>tw_poll_result := 0\<rparr>),
                   kw_submitted := kw_submitted s @ [(work_q, w)]\<rparr>)
     | _ \<Rightarrow> Ret (0, s) }"

definition signal_poll_event :: "nat \<Rightarrow> kp_flag \<Rightarrow> poll_state \<Rightarrow> (i32 \<times> poll_state) run" where
  "signal_poll_event e fl s =
     (case ke_poller (kp_events s e) of
        None \<Rightarrow> Ret (0, set_event_ready e fl s)
      | Some p \<Rightarrow> do {
          r \<leftarrow> (case zp_mode (kp_pollers s p) of
                  MODE_POLL \<Rightarrow> signal_poller e fl s
                | MODE_TRIGGERED \<Rightarrow> signal_triggered_work e fl s
                | MODE_NONE \<Rightarrow> Ret (0, s));
          let s = upd_poller p (\<lambda>z. z\<lparr>zp_is_polling := False\<rparr>) (snd r);
          if fst r < 0 then Ret (fst r, s) else Ret (fst r, set_event_ready e fl s) })"

definition z_handle_obj_poll_events :: "nat \<Rightarrow> kp_flag \<Rightarrow> poll_state \<Rightarrow> (bool \<times> poll_state) run" where
  "z_handle_obj_poll_events obj fl s =
     (case ko_list s obj of
        [] \<Rightarrow> Ret (False, s)
      | e # es \<Rightarrow> do { r \<leftarrow> signal_poll_event e fl (upd_list obj (\<lambda>_. es) s); Ret (True, snd r) })"

section \<open>k\_poll and the signals\<close>

datatype poll_out = Poll_returns i32 | Poll_pends nat

definition k_poll_enter :: "nat \<Rightarrow> poll_state \<Rightarrow> poll_state" where
  "k_poll_enter t s = upd_poller t (\<lambda>_. \<lparr>zp_is_polling = True, zp_mode = MODE_POLL\<rparr>) s"

definition k_poll_stop :: "nat \<Rightarrow> poll_state \<Rightarrow> poll_state" where
  "k_poll_stop t s = upd_poller t (\<lambda>z. z\<lparr>zp_is_polling := False\<rparr>) s"

text \<open>k_poll of the current thread up to the point where it returns or pends.\<close>

definition z_impl_k_poll :: "(nat \<Rightarrow> nat \<Rightarrow> int) \<Rightarrow> nat \<Rightarrow> nat list \<Rightarrow> bool \<Rightarrow> poll_state \<Rightarrow> (poll_out \<times> poll_state) run" where
  "z_impl_k_poll cmp t events no_wait s = do {
     r \<leftarrow> register_events cmp events t no_wait 0 (k_poll_enter t s);
     let k = fst r; let s = snd r;
     if \<not> zp_is_polling (kp_pollers s t) then do { s \<leftarrow> clear_event_registrations events k s; Ret (Poll_returns 0, s) }
     else if no_wait then Ret (Poll_returns EAGAIN, k_poll_stop t s)
     else Ret (Poll_pends k, (k_poll_stop t s)\<lparr>kt_pending := (kt_pending s)(t := True)\<rparr>) }"

text \<open>The rest of the call, once the thread has been swapped in again.\<close>

definition k_poll_resume :: "nat \<Rightarrow> nat list \<Rightarrow> nat \<Rightarrow> poll_state \<Rightarrow> (i32 \<times> poll_state) run" where
  "k_poll_resume t events k s = do { s \<leftarrow> clear_event_registrations events k s; Ret (kt_retval s t, s) }"

definition z_impl_k_poll_signal_init :: "nat \<Rightarrow> poll_state \<Rightarrow> poll_state" where
  "z_impl_k_poll_signal_init sig s = (upd_list sig (\<lambda>_. []) s)\<lparr>ko_level := (ko_level s)(sig := 0)\<rparr>"

definition z_impl_k_poll_signal_reset :: "nat \<Rightarrow> poll_state \<Rightarrow> poll_state" where
  "z_impl_k_poll_signal_reset sig s = s\<lparr>ko_level := (ko_level s)(sig := 0)\<rparr>"

definition z_impl_k_poll_signal_check :: "nat \<Rightarrow> poll_state \<Rightarrow> u32 \<times> i32" where
  "z_impl_k_poll_signal_check sig s = (ko_level s sig, ko_result s sig)"

definition z_impl_k_poll_signal_raise :: "nat \<Rightarrow> i32 \<Rightarrow> poll_state \<Rightarrow> (i32 \<times> poll_state) run" where
  "z_impl_k_poll_signal_raise sig res s = do {
     let es = ko_list s sig;
     let s = upd_list sig tl s;
     let d = gale_k_poll_signal_raise_decide (ko_level s sig) res (if es \<noteq> [] then 1 else 0);
     let s = s\<lparr>ko_result := (ko_result s)(sig := gpr_new_result d), ko_level := (ko_level s)(sig := gpr_new_signaled d)\<rparr>;
     if gpr_action d = 0 then Ret (0, s) else signal_poll_event (hd es) St_Signaled s }"

section \<open>Triggered work\<close>

definition triggered_work_cancel :: "nat \<Rightarrow> poll_state \<Rightarrow> (i32 \<times> poll_state) run" where
  "triggered_work_cancel w s =
     (if zp_is_polling (kp_pollers s w) \<and> zp_mode (kp_pollers s w) \<noteq> MODE_NONE
      then do {
        let s = s\<lparr>kw_timeout := (kw_timeout s)(w := False)\<rparr>;
        let s = upd_poller w (\<lambda>z. z\<lparr>zp_mode := MODE_NONE\<rparr>) s;
        let evs = tw_events (kw_twork s w);
        s \<leftarrow> clear_event_registrations evs (length evs) s;
        Ret (0, s\<lparr>kw_twork := (kw_twork s)(w := (kw_twork s w)\<lparr>tw_workq := None\<rparr>)\<rparr>) }
      else Ret (EINVAL, s))"

definition triggered_work_expiration_handler :: "nat \<Rightarrow> poll_state \<Rightarrow> poll_state run" where
  "triggered_work_expiration_handler w s = do {
     let s = upd_poller w (\<lambda>z. z\<lparr>zp_is_polling := False\<rparr>) s;
     let s = s\<lparr>kw_twork := (kw_twork s)(w := (kw_twork s w)\<lparr>tw_poll_result := EAGAIN\<rparr>)\<rparr>;
     q \<leftarrow> unwrap (tw_workq (kw_twork s w));
     Ret (s\<lparr>kw_submitted := kw_submitted s @ [(q, w)]\<rparr>) }"

definition triggered_work_handler :: "nat \<Rightarrow> poll_state \<Rightarrow> poll_state run" where
  "triggered_work_handler w s = do {
     let evs = tw_events (kw_twork s w);
     s \<leftarrow> (if zp_mode (kp_pollers s w) \<noteq> MODE_NONE then clear_event_registrations evs (length evs) s else Ret s);
     Ret (s\<lparr>kw_twork := (kw_twork s)(w := (kw_twork s w)\<lparr>tw_workq := None\<rparr>)\<rparr>) }"

definition k_work_poll_cancel :: "nat \<Rightarrow> poll_state \<Rightarrow> (i32 \<times> poll_state) run" where
  "k_work_poll_cancel w s =
     (if tw_workq (kw_twork s w) = None then Ret (EINVAL, s) else triggered_work_cancel w s)"

definition EINPROGRESS :: i32 where
  "EINPROGRESS = -115"

definition k_work_poll_submit_to_queue ::
  "(nat \<Rightarrow> nat \<Rightarrow> int) \<Rightarrow> nat \<Rightarrow> nat \<Rightarrow> nat list \<Rightarrow> bool \<Rightarrow> bool \<Rightarrow> poll_state \<Rightarrow> (i32 \<times> poll_state) run" where
  "k_work_poll_submit_to_queue cmp work_q w events no_wait forever s = do {
     r \<leftarrow> (case tw_workq (kw_twork s w) of
             None \<Rightarrow> Ret (0, s)
           | Some q \<Rightarrow> if q = work_q then triggered_work_cancel w s else Ret (EADDRINUSE, s));
     if fst r < 0 then Ret r
     else do {
       let s = upd_poller w (\<lambda>_. \<lparr>zp_is_polling = True, zp_mode = MODE_NONE\<rparr>) (snd r);
       let s = s\<lparr>kw_twork := (kw_twork s)(w := \<lparr>tw_workq = Some work_q, tw_poll_result = EINPROGRESS, tw_events = events\<rparr>)\<rparr>;
       r \<leftarrow> register_events cmp events w False 0 s;
       let k = fst r; let s = snd r;
       if zp_is_polling (kp_pollers s w) \<and> \<not> no_wait
       then (if k \<noteq> length events then Panic
             else do {
               let s = (if forever then s else s\<lparr>kw_timeout := (kw_timeout s)(w := True)\<rparr>);
               Ret (0, upd_poller w (\<lambda>z. z\<lparr>zp_mode := MODE_TRIGGERED\<rparr>) s) })
       else do {
         let res = (if zp_is_polling (kp_pollers s w) then EAGAIN else 0);
         let s = upd_poller w (\<lambda>z. z\<lparr>zp_is_polling := False\<rparr>) s;
         let s = s\<lparr>kw_twork := (kw_twork s)(w := (kw_twork s w)\<lparr>tw_poll_result := res\<rparr>)\<rparr>;
         s \<leftarrow> clear_event_registrations events k s;
         Ret (0, s\<lparr>kw_submitted := kw_submitted s @ [(work_q, w)]\<rparr>) } } }"

section \<open>Interleaved calls\<close>

text \<open>
  Where a thread is in its k_poll call: outside, in the registration loop (events, index,
  number registered, no-wait), pending, or clearing the first k registrations before it returns rc.
\<close>

datatype poll_pc = PC_out | PC_reg "nat list" nat nat bool | PC_pend "nat list" nat | PC_clear "nat list" nat i32

fun pc_events :: "poll_pc \<Rightarrow> nat list" where
  "pc_events PC_out = []"
| "pc_events (PC_reg evs i k nw) = evs"
| "pc_events (PC_pend evs k) = evs"
| "pc_events (PC_clear evs k rc) = evs"

fun pc_registered :: "poll_pc \<Rightarrow> nat list" where
  "pc_registered PC_out = []"
| "pc_registered (PC_reg evs i k nw) = take k evs"
| "pc_registered (PC_pend evs k) = take k evs"
| "pc_registered (PC_clear evs k rc) = take k evs"

type_synonym poll_world = "(nat \<Rightarrow> poll_pc) \<times> poll_state"

text \<open>
  Each step is a section under the subsystem lock. A call polls distinct, initialised events
  that no other call in progress uses; objects change level at any time, since that
  happens under other locks, and threads that do not poll are made ready by other objects.
\<close>

inductive poll_step :: "(nat \<Rightarrow> nat \<Rightarrow> int) \<Rightarrow> poll_world \<Rightarrow> poll_world \<Rightarrow> bool" for cmp where
  enter: "pc t = PC_out \<Longrightarrow> distinct evs \<Longrightarrow> \<forall>e\<in>set evs. ke_type (kp_events s e) \<noteq> Ev_Invalid \<and> (\<forall>u. e \<notin> set (pc_events (pc u))) \<Longrightarrow>
    poll_step cmp (pc, s) (pc(t := PC_reg evs 0 0 nw), k_poll_enter t s)"
| register: "pc t = PC_reg evs i k nw \<Longrightarrow> i < length evs \<Longrightarrow> register_one cmp (evs ! i) t nw s = Ret (b, s') \<Longrightarrow>
    poll_step cmp (pc, s) (pc(t := PC_reg evs (i + 1) (if b then k + 1 else k) nw), s')"
| found: "pc t = PC_reg evs (length evs) k nw \<Longrightarrow> \<not> zp_is_polling (kp_pollers s t) \<Longrightarrow>
    poll_step cmp (pc, s) (pc(t := PC_clear evs k 0), s)"
| again: "pc t = PC_reg evs (length evs) k True \<Longrightarrow> zp_is_polling (kp_pollers s t) \<Longrightarrow>
    poll_step cmp (pc, s) (pc(t := PC_out), k_poll_stop t s)"
| pend: "pc t = PC_reg evs (length evs) k False \<Longrightarrow> zp_is_polling (kp_pollers s t) \<Longrightarrow>
    poll_step cmp (pc, s) (pc(t := PC_pend evs k), (k_poll_stop t s)\<lparr>kt_pending := (kt_pending s)(t := True)\<rparr>)"
| timeout: "pc t = PC_pend evs k \<Longrightarrow> kt_pending s t \<Longrightarrow>
    poll_step cmp (pc, s) (pc, s\<lparr>kt_pending := (kt_pending s)(t := False), kt_retval := (kt_retval s)(t := EAGAIN)\<rparr>)"
| resume: "pc t = PC_pend evs k \<Longrightarrow> \<not> kt_pending s t \<Longrightarrow>
    poll_step cmp (pc, s) (pc(t := PC_clear evs k (kt_retval s t)), s)"
| clear: "pc t = PC_clear evs (Suc k) rc \<Longrightarrow> clear_event_registration (evs ! k) s = Ret s' \<Longrightarrow>
    poll_step cmp (pc, s) (pc(t := PC_clear evs k rc), s')"
| exit: "pc t = PC_clear evs 0 rc \<Longrightarrow> poll_step cmp (pc, s) (pc(t := PC_out), s)"
| handle: "z_handle_obj_poll_events obj fl s = Ret (b, s') \<Longrightarrow> poll_step cmp (pc, s) (pc, s')"
| raised: "z_impl_k_poll_signal_raise sig res s = Ret (r, s') \<Longrightarrow> poll_step cmp (pc, s) (pc, s')"
| level: "poll_step cmp (pc, s) (pc, s\<lparr>ko_level := (ko_level s)(obj := v)\<rparr>)"
| blocked: "poll_step cmp (pc, s) (pc, s\<lparr>kt_blocked := (kt_blocked s)(t := b)\<rparr>)"
| elsewhere: "pc t = PC_out \<Longrightarrow>
    poll_step cmp (pc, s) (pc, s\<lparr>kt_retval := (kt_retval s)(t := r), kt_ready := kt_ready s @ [t]\<rparr>)"

section \<open>Invariant\<close>

definition some_ready :: "nat list \<Rightarrow> poll_state \<Rightarrow> bool" where
  "some_ready evs s \<longleftrightarrow> (\<exists>e\<in>set evs. ke_state (kp_events s e) \<noteq> {})"

definition enlisted :: "nat \<Rightarrow> poll_state \<Rightarrow> nat \<Rightarrow> bool" where
  "enlisted t s e \<longleftrightarrow> ke_poller (kp_events s e) = Some t \<and>
     (ke_type (kp_events s e) \<noteq> Ev_Ignore \<longrightarrow> e \<in> set (ko_list s (ke_obj (kp_events s e))))"

fun thread_ok :: "poll_state \<Rightarrow> nat \<Rightarrow> poll_pc \<Rightarrow> bool" where
  "thread_ok s t PC_out \<longleftrightarrow> \<not> kt_pending s t"
| "thread_ok s t (PC_reg evs i k nw) \<longleftrightarrow>
     i \<le> length evs \<and> k \<le> i \<and> zp_mode (kp_pollers s t) = MODE_POLL \<and> \<not> kt_pending s t \<and>
     (if zp_is_polling (kp_pollers s t)
      then (if nw then k = 0 else k = i \<and> (\<forall>e\<in>set (take i evs). enlisted t s e))
      else some_ready evs s)"
| "thread_ok s t (PC_pend evs k) \<longleftrightarrow>
     k = length evs \<and> zp_mode (kp_pollers s t) = MODE_POLL \<and>
     (if kt_pending s t then \<forall>e\<in>set evs. enlisted t s e else kt_retval s t = 0 \<longrightarrow> some_ready evs s)"
| "thread_ok s t (PC_clear evs k rc) \<longleftrightarrow>
     k \<le> length evs \<and> zp_mode (kp_pollers s t) = MODE_POLL \<and> \<not> kt_pending s t \<and> (rc = 0 \<longrightarrow> some_ready evs s)"

definition lists_ok :: "(nat \<Rightarrow> poll_pc) \<Rightarrow> poll_state \<Rightarrow> bool" where
  "lists_ok pc s \<longleftrightarrow> (\<forall>obj. distinct (ko_list s obj) \<and>
     (\<forall>e\<in>set (ko_list s obj). ke_obj (kp_events s e) = obj \<and> ke_type (kp_events s e) \<noteq> Ev_Ignore \<and>
        (\<exists>t. ke_poller (kp_events s e) = Some t \<and> e \<in> set (pc_registered (pc t)))))"

definition calls_ok :: "(nat \<Rightarrow> poll_pc) \<Rightarrow> poll_state \<Rightarrow> bool" where
  "calls_ok pc s \<longleftrightarrow>
     (\<forall>t. distinct (pc_events (pc t)) \<and> (\<forall>e\<in>set (pc_events (pc t)). ke_type (kp_events s e) \<noteq> Ev_Invalid)) \<and>
     (\<forall>t u e. e \<in> set (pc_events (pc t)) \<longrightarrow> e \<in> set (pc_events (pc u)) \<longrightarrow> t = u)"

definition poll_inv :: "poll_world \<Rightarrow> bool" where
  "poll_inv w \<longleftrightarrow> calls_ok (fst w) (snd w) \<and> lists_ok (fst w) (snd w) \<and> (\<forall>t. thread_ok (snd w) t (fst w t))"

lemma registered_own: "e \<in> set (pc_registered p) \<Longrightarrow> e \<in> set (pc_events p)"
  by (cases p) (auto dest: in_set_takeD)

text \<open>A thread is not affected by changes outside its own events and its own fields.\<close>

lemma thread_ok_frame:
  assumes "\<And>e. e \<in> set (pc_events p) \<Longrightarrow> kp_events s' e = kp_events s e"
    and "\<And>e. e \<in> set (pc_events p) \<Longrightarrow>
      e \<in> set (ko_list s' (ke_obj (kp_events s e))) \<longleftrightarrow> e \<in> set (ko_list s (ke_obj (kp_events s e)))"
    and "kp_pollers s' t = kp_pollers s t" "kt_pending s' t = kt_pending s t" "kt_retval s' t = kt_retval s t"
  shows "thread_ok s' t p \<longleftrightarrow> thread_ok s t p"
proof -
  have r: "some_ready (pc_events p) s' \<longleftrightarrow> some_ready (pc_events p) s"
    unfolding some_ready_def using assms(1) by (intro bex_cong) simp_all
  have e: "enlisted t s' e \<longleftrightarrow> enlisted t s e" if "e \<in> set (pc_events p)" for e
    unfolding enlisted_def using assms(1,2) [OF that] by simp
  have t: "(\<forall>e\<in>set (take i (pc_events p)). enlisted t s' e) \<longleftrightarrow> (\<forall>e\<in>set (take i (pc_events p)). enlisted t s e)" for i
    using e by (meson in_set_takeD)
  have a: "(\<forall>e\<in>set (pc_events p). enlisted t s' e) \<longleftrightarrow> (\<forall>e\<in>set (pc_events p). enlisted t s e)"
    using e by blast
  show ?thesis
    using r t a assms(3-5) by (cases p) simp_all
qed

lemma poll_inv_frame:
  assumes inv: "poll_inv (pc, s)"
    and ev: "\<And>e. e \<notin> set (pc_events (pc t)) \<Longrightarrow> kp_events s' e = kp_events s e"
    and ty: "\<And>e. ke_type (kp_events s' e) = ke_type (kp_events s e)"
    and li: "\<And>e obj. e \<notin> set (pc_events (pc t)) \<Longrightarrow> e \<in> set (ko_list s' obj) \<longleftrightarrow> e \<in> set (ko_list s obj)"
    and th: "\<And>u. u \<noteq> t \<Longrightarrow> kp_pollers s' u = kp_pollers s u \<and> kt_pending s' u = kt_pending s u \<and> kt_retval s' u = kt_retval s u"
    and own: "set (pc_events p') \<subseteq> set (pc_events (pc t))" "distinct (pc_events p')"
    and ok: "lists_ok (pc(t := p')) s'" "thread_ok s' t p'"
  shows "poll_inv (pc(t := p'), s')"
proof -
  have c: "calls_ok pc s" and t: "\<And>u. thread_ok s u (pc u)"
    using inv by (auto simp: poll_inv_def)
  have "calls_ok (pc(t := p')) s'"
    using c own ty unfolding calls_ok_def by (simp add: subset_iff) blast
  moreover have "thread_ok s' u (pc u)" if "u \<noteq> t" for u
  proof -
    have d: "e \<notin> set (pc_events (pc t))" if "e \<in> set (pc_events (pc u))" for e
      using c that \<open>u \<noteq> t\<close> unfolding calls_ok_def by blast
    show ?thesis
      using t [of u] thread_ok_frame [of "pc u" s' s u] ev [OF d] li [OF d] th [OF that] by simp
  qed
  ultimately show ?thesis
    using ok by (simp add: poll_inv_def)
qed

lemma not_enlisted_yet:
  assumes "poll_inv (pc, s)" and "e \<in> set (pc_events (pc t))" and "e \<notin> set (pc_registered (pc t))"
  shows "e \<notin> set (ko_list s obj)"
proof
  assume "e \<in> set (ko_list s obj)"
  then obtain u where u: "e \<in> set (pc_registered (pc u))"
    using assms(1) unfolding poll_inv_def lists_ok_def by auto blast
  then have "u \<noteq> t" using assms(3) by auto
  then show False
    using assms(1,2) registered_own [OF u] unfolding poll_inv_def calls_ok_def by auto
qed

section \<open>Effect of the operations\<close>

lemma add_scan_mset: "add_scan cmp pol xs e p = Ret ys \<Longrightarrow> mset ys = add_mset e (mset xs)"
  by (induction xs arbitrary: ys) (auto simp: unwrap_def split: if_splits option.splits Option.bind_splits)

lemma add_event_mset: "add_event cmp pol xs e p = Ret ys \<Longrightarrow> mset ys = add_mset e (mset xs)"
  by (auto simp: add_event_def unwrap_def add_scan_mset split: if_splits option.splits)

lemma add_event_returns:
  assumes "\<And>x. x \<in> set xs \<Longrightarrow> pol x \<noteq> None"
  shows "\<exists>ys. add_event cmp pol xs e p = Ret ys"
proof -
  have "\<exists>ys. add_scan cmp pol xs e p = Ret ys" if "\<And>x. x \<in> set xs \<Longrightarrow> pol x \<noteq> None" for xs
    using that
  proof (induction xs)
    case (Cons x xs)
    then have "pol x \<noteq> None" "\<exists>ys. add_scan cmp pol xs e p = Ret ys" by auto
    then show ?case by (auto simp: unwrap_def)
  qed simp
  moreover have "pol (last xs) \<noteq> None" if "xs \<noteq> []"
    using assms that by simp
  moreover have "\<exists>ys. add_scan cmp pol xs e p = Ret ys"
    using calculation(1) assms by blast
  ultimately show ?thesis
    by (cases "xs = []") (auto simp: add_event_def unwrap_def split: option.split)
qed

lemma add_event_set: "add_event cmp pol xs e p = Ret ys \<Longrightarrow> set ys = insert e (set xs)"
  using add_event_mset [of cmp pol xs e p ys] by (metis set_mset_add_mset_insert set_mset_mset)

lemma add_event_distinct:
  assumes "add_event cmp pol xs e p = Ret ys" "distinct xs" "e \<notin> set xs"
  shows "distinct ys"
  using assms mset_eq_imp_distinct_iff [of ys "e # xs"] add_event_mset [OF assms(1)] by simp

lemma register_event_eq:
  assumes "register_event cmp e t s = Ret s'"
  shows "kp_events s' = (kp_events s)(e := (kp_events s e)\<lparr>ke_poller := Some t\<rparr>) \<and>
         kp_pollers s' = kp_pollers s \<and> kt_pending s' = kt_pending s \<and> kt_retval s' = kt_retval s \<and>
         (if ke_type (kp_events s e) = Ev_Ignore then ko_list s' = ko_list s
          else \<exists>ys. ko_list s' = (ko_list s)(ke_obj (kp_events s e) := ys) \<and>
            add_event cmp (\<lambda>x. ke_poller (kp_events s x)) (ko_list s (ke_obj (kp_events s e))) e t = Ret ys)"
  using assms by (auto simp: register_event_def Let_def upd_defs split: kp_type.splits Option.bind_splits)

lemma register_one_cases:
  assumes "register_one cmp e t nw s = Ret (b, s')"
  obtains (met) fl where "\<not> b" "s' = upd_poller t (\<lambda>z. z\<lparr>zp_is_polling := False\<rparr>) (set_event_ready e fl s)"
  | (registered) "b" "\<not> nw" "zp_is_polling (kp_pollers s t)" "register_event cmp e t s = Ret s'"
  | (skipped) "\<not> b" "s' = s" "nw \<or> \<not> zp_is_polling (kp_pollers s t)"
  using assms by (auto simp: register_one_def split: option.splits Option.bind_splits if_splits)

lemma is_condition_met_returns:
  "ke_type (kp_events s e) \<noteq> Ev_Invalid \<Longrightarrow> \<exists>r. is_condition_met e s = Ret r"
  by (cases "ke_type (kp_events s e)") (simp_all add: is_condition_met_def Let_def)

lemma clear_one_eq:
  assumes "clear_event_registration e s = Ret s'" and "\<And>x. distinct (ko_list s x)"
    and "ke_type (kp_events s e) = Ev_Ignore \<Longrightarrow> e \<notin> set (ko_list s (ke_obj (kp_events s e)))"
  shows "kp_events s' = (kp_events s)(e := (kp_events s e)\<lparr>ke_poller := None\<rparr>) \<and>
         kp_pollers s' = kp_pollers s \<and> kt_pending s' = kt_pending s \<and> kt_retval s' = kt_retval s \<and>
         ko_list s' = (ko_list s)(ke_obj (kp_events s e) := remove1 e (ko_list s (ke_obj (kp_events s e))))"
  using assms
  by (auto simp: clear_event_registration_def Let_def upd_defs remove1_idem fun_upd_idem split: kp_type.splits if_splits)

text \<open>Notifying the event e of thread t at the head of the list of an object.\<close>

definition notified :: "nat \<Rightarrow> nat \<Rightarrow> nat \<Rightarrow> kp_flag \<Rightarrow> poll_state \<Rightarrow> poll_state \<Rightarrow> bool" where
  "notified obj e t fl s s' \<longleftrightarrow>
     kp_events s' = (kp_events s)(e := (kp_events s e)\<lparr>ke_poller := None, ke_state := insert fl (ke_state (kp_events s e))\<rparr>) \<and>
     ko_list s' = (ko_list s)(obj := tl (ko_list s obj)) \<and>
     kp_pollers s' = (kp_pollers s)(t := (kp_pollers s t)\<lparr>zp_is_polling := False\<rparr>) \<and>
     kt_pending s' = (kt_pending s)(t := False) \<and>
     kt_retval s' = (kt_retval s)(t := if kt_pending s t then (if fl = St_Cancelled then EINTR else 0) else kt_retval s t) \<and>
     kt_ready s' = kt_ready s @ (if kt_pending s t \<and> \<not> kt_blocked s t then [t] else [])"

lemma signal_poll_event_eq:
  assumes "ke_poller (kp_events s e) = Some t" and "zp_mode (kp_pollers s t) = MODE_POLL"
  shows "\<exists>s'. signal_poll_event e fl s = Ret (0, s') \<and>
     kp_events s' = (kp_events s)(e := (kp_events s e)\<lparr>ke_poller := None, ke_state := insert fl (ke_state (kp_events s e))\<rparr>) \<and>
     ko_list s' = ko_list s \<and>
     kp_pollers s' = (kp_pollers s)(t := (kp_pollers s t)\<lparr>zp_is_polling := False\<rparr>) \<and>
     kt_pending s' = (kt_pending s)(t := False) \<and>
     kt_retval s' = (kt_retval s)(t := if kt_pending s t then (if fl = St_Cancelled then EINTR else 0) else kt_retval s t) \<and>
     kt_ready s' = kt_ready s @ (if kt_pending s t \<and> \<not> kt_blocked s t then [t] else [])"
  using assms by (auto simp: signal_poll_event_def signal_poller_def unwrap_def set_event_ready_def upd_defs Let_def fun_upd_idem)

lemma handle_eq:
  assumes "ko_list s obj = e # es" "ke_poller (kp_events s e) = Some t" "zp_mode (kp_pollers s t) = MODE_POLL"
  shows "\<exists>s'. z_handle_obj_poll_events obj fl s = Ret (True, s') \<and> notified obj e t fl s s'"
  using assms signal_poll_event_eq [of "upd_list obj (\<lambda>_. es) s" e t fl]
  by (auto simp: z_handle_obj_poll_events_def notified_def upd_defs)

lemma raise_eq:
  assumes "ko_list s sig = e # es" "ke_poller (kp_events s e) = Some t" "zp_mode (kp_pollers s t) = MODE_POLL"
  shows "\<exists>s'. z_impl_k_poll_signal_raise sig res s = Ret (0, s') \<and> notified sig e t St_Signaled s s'"
  using assms signal_poll_event_eq [of "(upd_list sig tl s)\<lparr>ko_result := (ko_result s)(sig := res), ko_level := (ko_level s)(sig := 1)\<rparr>" e t St_Signaled]
  by (auto simp: z_impl_k_poll_signal_raise_def gale_k_poll_signal_raise_decide_def signal_raise_decide_def Let_def notified_def upd_defs)

section \<open>Every step keeps the invariant\<close>

lemma poll_invD:
  assumes "poll_inv (pc, s)"
  shows "thread_ok s t (pc t)" "distinct (ko_list s obj)" "distinct (pc_events (pc t))"
    "e \<in> set (pc_events (pc t)) \<Longrightarrow> ke_type (kp_events s e) \<noteq> Ev_Invalid"
    "e \<in> set (pc_events (pc t)) \<Longrightarrow> e \<in> set (pc_events (pc u)) \<Longrightarrow> t = u"
    "e \<in> set (ko_list s obj) \<Longrightarrow> ke_obj (kp_events s e) = obj \<and> ke_type (kp_events s e) \<noteq> Ev_Ignore \<and>
       (\<exists>t. ke_poller (kp_events s e) = Some t \<and> e \<in> set (pc_registered (pc t)))"
  using assms unfolding poll_inv_def calls_ok_def lists_ok_def by auto

lemma lists_ok_same:
  assumes "poll_inv (pc, s)" and "ko_list s' = ko_list s" and "kp_events s' = kp_events s"
    and "set (pc_registered (pc t)) \<subseteq> set (pc_registered p')"
  shows "lists_ok (pc(t := p')) s'"
  unfolding lists_ok_def
proof (intro allI conjI ballI)
  fix obj e
  assume "e \<in> set (ko_list s' obj)"
  then have e: "e \<in> set (ko_list s obj)" by (simp add: assms(2))
  from poll_invD(6) [OF assms(1) e]
  show "ke_obj (kp_events s' e) = obj" "ke_type (kp_events s' e) \<noteq> Ev_Ignore"
    "\<exists>u. ke_poller (kp_events s' e) = Some u \<and> e \<in> set (pc_registered ((pc(t := p')) u))"
    using assms(3,4) by auto
qed (simp add: assms(2) poll_invD(2) [OF assms(1)])

text \<open>Steps that change only where a thread is and its own fields.\<close>

lemma poll_inv_move:
  assumes "poll_inv (pc, s)" and "ko_list s' = ko_list s" and "kp_events s' = kp_events s"
    and "set (pc_registered (pc t)) \<subseteq> set (pc_registered p')"
    and "\<And>u. u \<noteq> t \<Longrightarrow> kp_pollers s' u = kp_pollers s u \<and> kt_pending s' u = kt_pending s u \<and> kt_retval s' u = kt_retval s u"
    and "pc_events p' = pc_events (pc t) \<or> p' = PC_out"
    and "thread_ok s' t p'"
  shows "poll_inv (pc(t := p'), s')"
  by (rule poll_inv_frame [OF assms(1) _ _ _ assms(5) _ _ lists_ok_same [OF assms(1-4)] assms(7)])
    (use assms poll_invD(3) [OF assms(1)] in auto)

lemma notified_keeps:
  assumes inv: "poll_inv (pc, s)" and l: "ko_list s obj = e # es" and p: "ke_poller (kp_events s e) = Some t"
    and n: "notified obj e t fl s s'"
  shows "poll_inv (pc, s')"
proof -
  have reg: "e \<in> set (pc_registered (pc t))"
    using poll_invD(6) [OF inv, of e obj] l p by auto
  then have own: "e \<in> set (pc_events (pc t))" by (rule registered_own)
  have d: "distinct (e # es)" using poll_invD(2) [OF inv, of obj] l by simp
  have lok: "lists_ok pc s'"
    unfolding lists_ok_def
  proof (intro allI conjI ballI)
    fix x
    show "distinct (ko_list s' x)"
      using n d l poll_invD(2) [OF inv, of x] by (auto simp: notified_def)
  next
    fix x y
    assume y: "y \<in> set (ko_list s' x)"
    then have yx: "y \<in> set (ko_list s x)" using n l by (auto simp: notified_def split: if_splits)
    have "y \<noteq> e" using y yx n l d poll_invD(6) [OF inv yx] poll_invD(6) [OF inv, of e obj]
      by (auto simp: notified_def split: if_splits)
    then show "ke_obj (kp_events s' y) = x" "ke_type (kp_events s' y) \<noteq> Ev_Ignore"
      "\<exists>t. ke_poller (kp_events s' y) = Some t \<and> y \<in> set (pc_registered (pc t))"
      using n poll_invD(6) [OF inv yx] by (auto simp: notified_def)
  qed
  have ready: "some_ready (pc_events (pc t)) s'"
    using own n by (auto simp: some_ready_def notified_def intro: bexI [of _ e])
  have "thread_ok s' t (pc t)"
    using poll_invD(1) [OF inv, of t] ready n own by (cases "pc t") (auto simp: notified_def)
  then have "poll_inv (pc(t := pc t), s')"
    using lok n own poll_invD(3) [OF inv, of t] l
    by (intro poll_inv_frame [OF inv]) (auto simp: notified_def split: if_splits)
  then show ?thesis by simp
qed

lemma notify_keeps:
  assumes inv: "poll_inv (pc, s)"
  shows "z_handle_obj_poll_events obj fl s = Ret (b, s') \<Longrightarrow> poll_inv (pc, s')"
    and "z_impl_k_poll_signal_raise obj res s = Ret (r, s') \<Longrightarrow> poll_inv (pc, s')"
proof -
  have t: "\<exists>t. ke_poller (kp_events s e) = Some t \<and> zp_mode (kp_pollers s t) = MODE_POLL" if l: "ko_list s obj = e # es" for e es
  proof -
    obtain t where t: "ke_poller (kp_events s e) = Some t" "e \<in> set (pc_registered (pc t))"
      using poll_invD(6) [OF inv, of e obj] l by auto
    then have "zp_mode (kp_pollers s t) = MODE_POLL"
      using poll_invD(1) [OF inv, of t] by (cases "pc t") auto
    then show ?thesis using t by blast
  qed
  show "poll_inv (pc, s')" if "z_handle_obj_poll_events obj fl s = Ret (b, s')"
  proof (cases "ko_list s obj")
    case Nil
    then show ?thesis using that inv by (simp add: z_handle_obj_poll_events_def)
  next
    case (Cons e es)
    obtain u where u: "ke_poller (kp_events s e) = Some u" "zp_mode (kp_pollers s u) = MODE_POLL"
      using t [OF Cons] by blast
    show ?thesis using handle_eq [OF Cons u, of fl] notified_keeps [OF inv Cons u(1)] that by auto
  qed
  show "poll_inv (pc, s')" if r: "z_impl_k_poll_signal_raise obj res s = Ret (r, s')"
  proof (cases "ko_list s obj")
    case Nil
    then have "s' = s\<lparr>ko_result := (ko_result s)(obj := res), ko_level := (ko_level s)(obj := 1)\<rparr>"
      using r by (simp add: z_impl_k_poll_signal_raise_def gale_k_poll_signal_raise_decide_def signal_raise_decide_def Let_def
          upd_defs fun_upd_idem)
    then show ?thesis
      using poll_inv_move [OF inv, of s' undefined "pc undefined"] poll_invD(1) [OF inv, of undefined]
        thread_ok_frame [of "pc undefined" s' s undefined] by simp
  next
    case (Cons e es)
    obtain u where u: "ke_poller (kp_events s e) = Some u" "zp_mode (kp_pollers s u) = MODE_POLL"
      using t [OF Cons] by blast
    show ?thesis using raise_eq [OF Cons u, of res] notified_keeps [OF inv Cons u(1)] r by auto
  qed
qed

lemma set_take_Suc: "i < length xs \<Longrightarrow> set (take (Suc i) xs) = insert (xs ! i) (set (take i xs))"
  by (simp add: take_Suc_conv_app_nth)

lemma nth_notin_take: "distinct xs \<Longrightarrow> i < length xs \<Longrightarrow> k \<le> i \<Longrightarrow> xs ! i \<notin> set (take k xs)"
  by (auto simp: in_set_conv_nth nth_eq_iff_index_eq)

lemma registered_move:
  assumes "\<exists>u. q = Some u \<and> x \<in> set (pc_registered (pc u))"
    and "x \<in> set (pc_registered (pc t)) \<Longrightarrow> x \<in> set (pc_registered p')"
  shows "\<exists>u. q = Some u \<and> x \<in> set (pc_registered ((pc(t := p')) u))"
  using assms by (metis fun_upd_other fun_upd_same)

lemma register_keeps:
  assumes inv: "poll_inv (pc, s)" and t: "pc t = PC_reg evs i k nw" and i: "i < length evs"
    and r: "register_one cmp (evs ! i) t nw s = Ret (b, s')"
  shows "poll_inv (pc(t := PC_reg evs (i + 1) (if b then k + 1 else k) nw), s')"
proof -
  let ?e = "evs ! i"
  have ok: "k \<le> i" "zp_mode (kp_pollers s t) = MODE_POLL" "\<not> kt_pending s t"
    using poll_invD(1) [OF inv, of t] t by auto
  have d: "distinct evs" using poll_invD(3) [OF inv, of t] t by simp
  have free: "?e \<notin> set (ko_list s obj)" for obj
    using not_enlisted_yet [OF inv, of ?e t obj] nth_notin_take [OF d i ok(1)] t i by simp
  from r show ?thesis
  proof (cases rule: register_one_cases)
    case (met fl)
    have "some_ready evs s'"
      using i met(2) by (auto simp: some_ready_def set_event_ready_def upd_defs intro!: bexI [of _ ?e])
    then have "thread_ok s' t (PC_reg evs (i + 1) k nw)"
      using ok met(2) i by (simp add: upd_defs set_event_ready_def)
    moreover have "lists_ok (pc(t := PC_reg evs (i + 1) k nw)) s'"
      using poll_invD(2,6) [OF inv] free met(2) t
      unfolding lists_ok_def by (auto simp: upd_defs set_event_ready_def) (metis pc_registered.simps(2))
    ultimately show ?thesis
      using met t i d by (intro poll_inv_frame [OF inv]) (auto simp: upd_defs set_event_ready_def)
  next
    case registered
    have k: "k = i" "\<forall>e\<in>set (take i evs). enlisted t s e"
      using poll_invD(1) [OF inv, of t] t registered(2,3) by auto
    note eq = register_event_eq [OF registered(4)]
    have lset: "x \<in> set (ko_list s' obj) \<longleftrightarrow> x \<in> set (ko_list s obj) \<or>
        x = ?e \<and> obj = ke_obj (kp_events s ?e) \<and> ke_type (kp_events s ?e) \<noteq> Ev_Ignore" for x obj
      using eq by (auto simp: add_event_set split: if_splits)
    have dist: "distinct (ko_list s' obj)" for obj
      using eq poll_invD(2) [OF inv] free by (auto simp: add_event_distinct split: if_splits)
    have ev: "kp_events s' x = (if x = ?e then (kp_events s ?e)\<lparr>ke_poller := Some t\<rparr> else kp_events s x)" for x
      using eq by simp
    have "enlisted t s' x" if "x \<in> set (take (Suc i) evs)" for x
      using that k(2) by (auto simp: set_take_Suc [OF i] enlisted_def ev lset)
    then have "thread_ok s' t (PC_reg evs (i + 1) (i + 1) nw)"
      using ok eq i registered by simp
    moreover have "lists_ok (pc(t := PC_reg evs (i + 1) (i + 1) nw)) s'"
      unfolding lists_ok_def
    proof (intro allI conjI ballI)
      fix obj x
      assume x: "x \<in> set (ko_list s' obj)"
      then show "ke_obj (kp_events s' x) = obj" "ke_type (kp_events s' x) \<noteq> Ev_Ignore"
        using poll_invD(6) [OF inv, of x obj] by (auto simp: lset ev)
      show "\<exists>u. ke_poller (kp_events s' x) = Some u \<and> x \<in> set (pc_registered ((pc(t := PC_reg evs (i + 1) (i + 1) nw)) u))"
      proof (cases "x = ?e")
        case True
        then show ?thesis by (simp add: ev set_take_Suc [OF i])
      next
        case False
        then have "\<exists>u. ke_poller (kp_events s' x) = Some u \<and> x \<in> set (pc_registered (pc u))"
          using x poll_invD(6) [OF inv, of x obj] by (auto simp: lset ev)
        then show ?thesis
          by (rule registered_move) (simp add: t k(1) set_take_Suc [OF i])
      qed
    qed (rule dist)
    ultimately show ?thesis
      using registered(1) k(1) t i d eq by (intro poll_inv_frame [OF inv]) (auto simp: lset ev)
  next
    case skipped
    have "thread_ok s t (PC_reg evs (i + 1) k nw)"
      using poll_invD(1) [OF inv, of t] t i skipped(3) by (auto split: if_splits)
    then show ?thesis
      using skipped t by (intro poll_inv_move [OF inv]) auto
  qed
qed

lemma clear_keeps:
  assumes inv: "poll_inv (pc, s)" and t: "pc t = PC_clear evs (Suc k) rc"
    and r: "clear_event_registration (evs ! k) s = Ret s'"
  shows "poll_inv (pc(t := PC_clear evs k rc), s')"
proof -
  let ?e = "evs ! k"
  have ok: "Suc k \<le> length evs" "zp_mode (kp_pollers s t) = MODE_POLL" "\<not> kt_pending s t" "rc = 0 \<longrightarrow> some_ready evs s"
    using poll_invD(1) [OF inv, of t] t by auto
  have eq: "kp_events s' = (kp_events s)(?e := (kp_events s ?e)\<lparr>ke_poller := None\<rparr>)"
    "kp_pollers s' = kp_pollers s" "kt_pending s' = kt_pending s" "kt_retval s' = kt_retval s"
    "ko_list s' = (ko_list s)(ke_obj (kp_events s ?e) := remove1 ?e (ko_list s (ke_obj (kp_events s ?e))))"
    using clear_one_eq [OF r poll_invD(2) [OF inv]] poll_invD(6) [OF inv] by blast+
  have lset: "x \<in> set (ko_list s' obj) \<longleftrightarrow> x \<in> set (ko_list s obj) \<and> x \<noteq> ?e" for x obj
    using poll_invD(2,6) [OF inv] by (auto simp: eq(5) set_remove1_eq)
  have st: "ke_state (kp_events s' x) = ke_state (kp_events s x)" for x
    by (simp add: eq(1))
  have "thread_ok s' t (PC_clear evs k rc)"
    using ok by (simp add: eq(2-4) some_ready_def st)
  moreover have "lists_ok (pc(t := PC_clear evs k rc)) s'"
    unfolding lists_ok_def
  proof (intro allI conjI ballI)
    fix obj
    show "distinct (ko_list s' obj)" using poll_invD(2) [OF inv] by (auto simp: eq(5))
  next
    fix obj x
    assume x: "x \<in> set (ko_list s' obj)"
    then show "ke_obj (kp_events s' x) = obj" "ke_type (kp_events s' x) \<noteq> Ev_Ignore"
      using poll_invD(6) [OF inv, of x obj] by (auto simp: lset eq(1))
    have "\<exists>u. ke_poller (kp_events s' x) = Some u \<and> x \<in> set (pc_registered (pc u))"
      using x poll_invD(6) [OF inv, of x obj] by (auto simp: lset eq(1))
    then show "\<exists>u. ke_poller (kp_events s' x) = Some u \<and> x \<in> set (pc_registered ((pc(t := PC_clear evs k rc)) u))"
      by (rule registered_move) (use x t set_take_Suc [of k evs] ok(1) in \<open>auto simp: lset\<close>)
  qed
  ultimately show ?thesis
    using t ok(1) poll_invD(3) [OF inv, of t] by (intro poll_inv_frame [OF inv]) (auto simp: lset eq(1-4))
qed

lemma enter_keeps:
  assumes inv: "poll_inv (pc, s)" and t: "pc t = PC_out" and d: "distinct evs"
    and e: "\<forall>e\<in>set evs. ke_type (kp_events s e) \<noteq> Ev_Invalid \<and> (\<forall>u. e \<notin> set (pc_events (pc u)))"
  shows "poll_inv (pc(t := PC_reg evs 0 0 nw), k_poll_enter t s)"
proof -
  let ?s = "k_poll_enter t s"
  have same: "kp_events ?s = kp_events s" "ko_list ?s = ko_list s" "kt_pending ?s = kt_pending s" "kt_retval ?s = kt_retval s"
    "kp_pollers ?s = (kp_pollers s)(t := \<lparr>zp_is_polling = True, zp_mode = MODE_POLL\<rparr>)"
    by (simp_all add: k_poll_enter_def upd_defs)
  have "calls_ok (pc(t := PC_reg evs 0 0 nw)) ?s"
    using poll_invD(3-5) [OF inv] d e by (auto simp: calls_ok_def same)
  moreover have "lists_ok (pc(t := PC_reg evs 0 0 nw)) ?s"
    using t by (intro lists_ok_same [OF inv]) (simp_all add: same)
  moreover have "thread_ok ?s u ((pc(t := PC_reg evs 0 0 nw)) u)" for u
  proof (cases "u = t")
    case True
    then show ?thesis using poll_invD(1) [OF inv, of t] t by (simp add: same)
  next
    case False
    then show ?thesis using poll_invD(1) [OF inv, of u] thread_ok_frame [of "pc u" ?s s u] by (simp add: same)
  qed
  ultimately show ?thesis by (simp add: poll_inv_def)
qed

lemma poll_step_keeps:
  assumes "poll_step cmp w w'" and "poll_inv w"
  shows "poll_inv w'"
  using assms
proof cases
  case enter
  then show ?thesis using enter_keeps assms(2) by simp
next
  case register
  then show ?thesis using register_keeps assms(2) by simp
next
  case (found pc t evs k nw s)
  then show ?thesis
    using poll_invD(1) [of pc s t] assms(2) by (auto intro!: poll_inv_move [of pc s])
next
  case (again pc t evs k s)
  then show ?thesis
    using poll_invD(1) [of pc s t] assms(2) by (auto intro!: poll_inv_move [of pc s] simp: k_poll_stop_def upd_defs)
next
  case (pend pc t evs k s)
  then have inv: "poll_inv (pc, s)" using assms(2) by simp
  have "k = length evs" "\<forall>e\<in>set evs. enlisted t s e" "zp_mode (kp_pollers s t) = MODE_POLL"
    using poll_invD(1) [OF inv, of t] pend by auto
  then show ?thesis
    unfolding pend(2) using inv pend(3)
    by (intro poll_inv_move [OF inv]) (auto simp: k_poll_stop_def upd_defs enlisted_def)
next
  case (timeout pc t evs k s)
  then have inv: "poll_inv (pc, s)" using assms(2) by simp
  let ?s = "s\<lparr>kt_pending := (kt_pending s)(t := False), kt_retval := (kt_retval s)(t := EAGAIN)\<rparr>"
  have "poll_inv (pc(t := pc t), ?s)"
    using poll_invD(1) [OF inv, of t] timeout by (intro poll_inv_move [OF inv]) (auto simp: error_codes)
  then show ?thesis using timeout(2) by (simp only: fun_upd_triv)
next
  case (resume pc t evs k s)
  then show ?thesis
    using poll_invD(1) [of pc s t] assms(2) by (auto intro!: poll_inv_move [of pc s])
next
  case clear
  then show ?thesis using clear_keeps assms(2) by simp
next
  case (exit pc t evs rc s)
  then show ?thesis
    using poll_invD(1) [of pc s t] assms(2) by (auto intro!: poll_inv_move [of pc s])
next
  case handle
  then show ?thesis using notify_keeps(1) assms(2) by simp
next
  case raised
  then show ?thesis using notify_keeps(2) assms(2) by simp
next
  case (level pc s obj v)
  let ?s = "s\<lparr>ko_level := (ko_level s)(obj := v)\<rparr>"
  show ?thesis
    using assms(2) level thread_ok_frame [of "pc u" ?s s u for u] by (auto simp: poll_inv_def calls_ok_def lists_ok_def)
next
  case (blocked pc s t b)
  let ?s = "s\<lparr>kt_blocked := (kt_blocked s)(t := b)\<rparr>"
  show ?thesis
    using assms(2) blocked thread_ok_frame [of "pc u" ?s s u for u] by (auto simp: poll_inv_def calls_ok_def lists_ok_def)
next
  case (elsewhere pc t s r)
  let ?s = "s\<lparr>kt_retval := (kt_retval s)(t := r), kt_ready := kt_ready s @ [t]\<rparr>"
  have inv: "poll_inv (pc, s)" using assms(2) elsewhere by simp
  have "poll_inv (pc(t := pc t), ?s)"
    using poll_invD(1) [OF inv, of t] elsewhere by (intro poll_inv_move [OF inv]) auto
  then show ?thesis using elsewhere(2) by (simp only: fun_upd_triv)
qed

section \<open>An uninterrupted call is a run of the steps\<close>

lemma register_events_run:
  assumes "register_events cmp es t nw k s = Ret (k', s')" and "es = drop i evs" and "pc t = PC_reg evs i k nw" and "i \<le> length evs"
  shows "(poll_step cmp)\<^sup>*\<^sup>* (pc, s) (pc(t := PC_reg evs (length evs) k' nw), s')"
  using assms
proof (induction es arbitrary: i k s pc)
  case Nil
  then have "i = length evs" by simp
  then show ?case using Nil by (simp add: fun_upd_idem)
next
  case (Cons e es)
  then have i: "i < length evs" by (metis drop_all list.distinct(1) not_le)
  then have e: "e = evs ! i" "es = drop (Suc i) evs"
    using Cons.prems(2) by (simp_all add: Cons_nth_drop_Suc [symmetric])
  obtain b s1 where r: "register_one cmp e t nw s = Ret (b, s1)"
    and rest: "register_events cmp es t nw (if b then k + 1 else k) s1 = Ret (k', s')"
    using Cons.prems(1) by (auto split: Option.bind_splits)
  let ?pc = "pc(t := PC_reg evs (i + 1) (if b then k + 1 else k) nw)"
  have "poll_step cmp (pc, s) (?pc, s1)"
    using poll_step.register [of pc t evs i k nw cmp s b s1] Cons.prems(3) i r e(1) by simp
  moreover have "(poll_step cmp)\<^sup>*\<^sup>* (?pc, s1) (?pc(t := PC_reg evs (length evs) k' nw), s')"
    by (rule Cons.IH [OF rest e(2)]) (use i in simp_all)
  ultimately show ?case unfolding fun_upd_upd by (rule converse_rtranclp_into_rtranclp)
qed

lemma clear_run:
  assumes "clear_event_registrations evs k s = Ret s'" and "pc t = PC_clear evs k rc"
  shows "(poll_step cmp)\<^sup>*\<^sup>* (pc, s) (pc(t := PC_out), s')"
  using assms
proof (induction k arbitrary: s pc)
  case 0
  then have "poll_step cmp (pc, s) (pc(t := PC_out), s')"
    using poll_step.exit [of pc t evs rc cmp s] by simp
  then show ?case by (rule r_into_rtranclp)
next
  case (Suc k)
  obtain s1 where s1: "clear_event_registration (evs ! k) s = Ret s1" "clear_event_registrations evs k s1 = Ret s'"
    using Suc.prems(1) by (auto simp: arr_get_def split: if_splits Option.bind_splits)
  have "(poll_step cmp)\<^sup>*\<^sup>* (pc(t := PC_clear evs k rc), s1) (pc(t := PC_clear evs k rc, t := PC_out), s')"
    by (rule Suc.IH [OF s1(2)]) simp
  moreover have "poll_step cmp (pc, s) (pc(t := PC_clear evs k rc), s1)"
    using Suc.prems(2) s1(1) by (intro poll_step.clear)
  ultimately show ?case unfolding fun_upd_upd by (rule converse_rtranclp_into_rtranclp [rotated])
qed

lemma k_poll_run:
  assumes "z_impl_k_poll cmp t evs nw s = Ret (out, s')" and "pc t = PC_out" and "distinct evs"
    and "\<forall>e\<in>set evs. ke_type (kp_events s e) \<noteq> Ev_Invalid \<and> (\<forall>u. e \<notin> set (pc_events (pc u)))"
  shows "(poll_step cmp)\<^sup>*\<^sup>* (pc, s) (pc(t := case out of Poll_returns _ \<Rightarrow> PC_out | Poll_pends k \<Rightarrow> PC_pend evs k), s')"
proof -
  obtain k s1 where r: "register_events cmp evs t nw 0 (k_poll_enter t s) = Ret (k, s1)"
    using assms(1) by (auto simp: z_impl_k_poll_def split: Option.bind_splits)
  let ?pc = "pc(t := PC_reg evs (length evs) k nw)"
  have "poll_step cmp (pc, s) (pc(t := PC_reg evs 0 0 nw), k_poll_enter t s)"
    using assms by (intro poll_step.enter) simp_all
  moreover have "(poll_step cmp)\<^sup>*\<^sup>* (pc(t := PC_reg evs 0 0 nw), k_poll_enter t s)
      ((pc(t := PC_reg evs 0 0 nw))(t := PC_reg evs (length evs) k nw), s1)"
    by (rule register_events_run [OF r, where i = 0]) simp_all
  ultimately have reg: "(poll_step cmp)\<^sup>*\<^sup>* (pc, s) (?pc, s1)"
    unfolding fun_upd_upd by (rule converse_rtranclp_into_rtranclp)
  have "(poll_step cmp)\<^sup>*\<^sup>* (?pc, s1) (pc(t := case out of Poll_returns _ \<Rightarrow> PC_out | Poll_pends k \<Rightarrow> PC_pend evs k), s')"
  proof (cases "zp_is_polling (kp_pollers s1 t)")
    case True
    then have "poll_step cmp (?pc, s1) (?pc(t := case out of Poll_returns _ \<Rightarrow> PC_out | Poll_pends k \<Rightarrow> PC_pend evs k), s')"
      using assms(1) r poll_step.again [of ?pc t evs k s1 cmp] poll_step.pend [of ?pc t evs k s1 cmp]
      by (cases nw) (auto simp: z_impl_k_poll_def)
    then show ?thesis unfolding fun_upd_upd by (rule r_into_rtranclp)
  next
    case False
    then have c: "clear_event_registrations evs k s1 = Ret s'" "out = Poll_returns 0"
      using assms(1) r by (auto simp: z_impl_k_poll_def split: Option.bind_splits)
    have "poll_step cmp (?pc, s1) (?pc(t := PC_clear evs k 0), s1)"
      using False by (intro poll_step.found) simp_all
    moreover have "(poll_step cmp)\<^sup>*\<^sup>* (?pc(t := PC_clear evs k 0), s1) (?pc(t := PC_clear evs k 0, t := PC_out), s')"
      by (rule clear_run [OF c(1)]) simp
    ultimately show ?thesis
      unfolding fun_upd_upd c(2) poll_out.case by (rule converse_rtranclp_into_rtranclp)
  qed
  then show ?thesis using reg by (rule rtranclp_trans [rotated])
qed

section \<open>Properties\<close>

lemma poll_run_keeps: "(poll_step cmp)\<^sup>*\<^sup>* w w' \<Longrightarrow> poll_inv w \<Longrightarrow> poll_inv w'"
  by (induction rule: rtranclp_induct) (auto intro: poll_step_keeps)

lemma poll_inv_start:
  assumes "\<forall>t. pc t = PC_out \<and> \<not> kt_pending s t" and "\<forall>obj. ko_list s obj = []"
  shows "poll_inv (pc, s)"
  using assms by (simp add: poll_inv_def calls_ok_def lists_ok_def)

lemma register_one_returns:
  assumes inv: "poll_inv (pc, s)" and e: "e \<in> set (pc_events (pc t))"
  shows "\<exists>b s'. register_one cmp e t nw s = Ret (b, s')"
proof -
  have "\<exists>r. is_condition_met e s = Ret r"
    using poll_invD(4) [OF inv e] by (rule is_condition_met_returns)
  moreover have "\<exists>ys. add_event cmp (\<lambda>x. ke_poller (kp_events s x)) (ko_list s obj) e t = Ret ys" for obj
    using poll_invD(6) [OF inv] by (intro add_event_returns) blast
  then obtain ys where "add_event cmp (\<lambda>x. ke_poller (kp_events s x)) (ko_list s (ke_obj (kp_events s e))) e t = Ret ys"
    by blast
  then have "\<exists>s'. register_event cmp e t s = Ret s'"
    using poll_invD(4) [OF inv e] by (cases "ke_type (kp_events s e)") (simp_all add: register_event_def Let_def)
  ultimately show ?thesis
    by (auto simp: register_one_def split: option.splits)
qed


definition poll_example :: poll_state where
  "poll_example = \<lparr>kp_events = (\<lambda>_. \<lparr>ke_poller = None, ke_type = Ev_Signal, ke_state = {}, ke_obj = 9\<rparr>),
     ko_level = (\<lambda>_. 0), ko_result = (\<lambda>_. 0), ko_list = (\<lambda>_. []), kp_pollers = (\<lambda>_. \<lparr>zp_is_polling = False, zp_mode = MODE_NONE\<rparr>),
     kt_pending = (\<lambda>_. False), kt_blocked = (\<lambda>_. False), kt_retval = (\<lambda>_. 0), kt_ready = [],
     kw_twork = (\<lambda>_. \<lparr>tw_workq = None, tw_poll_result = 0, tw_events = []\<rparr>), kw_timeout = (\<lambda>_. False), kw_submitted = []\<rparr>"


end
