(* ===== verification/Mutex_Shim.thy ===== *)
theory Mutex_Shim
  imports Mutex
begin

text \<open>
  The mutex as Zephyr calls it: the functions exported to C (the mutex section of
  ffi/src/lib.rs) and the C shim that applies their decisions to a k_mutex, with priority
  inheritance and timeouts (zephyr/gale_mutex.c).

  Threads are numbers. The functions of Zephyr the shim calls are parameters: higher is
  z_is_prio_higher, ceil is z_get_new_prio_with_ceiling, and enq is the insertion of a pending thread into a
  wait queue by its priority; z_unpend_first_thread takes the head of the queue.
\<close>

section \<open>The exported functions (ffi)\<close>

text \<open>An output pointer is an option; None is the null pointer.\<close>

definition gale_mutex_lock_validate :: "u32 \<Rightarrow> u32 \<Rightarrow> u32 \<Rightarrow> u32 option \<Rightarrow> (i32 \<times> u32 option) run" where
  "gale_mutex_lock_validate lock_count owner_is_null owner_is_current new_lock_count =
     (if new_lock_count = None then Ret (EINVAL, new_lock_count)
      else case lock_decide lock_count (owner_is_null \<noteq> 0) (owner_is_current \<noteq> 0) True of
             LD_Acquire \<Rightarrow> Ret (OK_code, Some 1)
           | LD_Reentrant \<Rightarrow> do { c \<leftarrow> add_chk lock_count 1; Ret (OK_code, Some c) }
           | LD_Overflow \<Rightarrow> Ret (EINVAL, new_lock_count)
           | LD_Busy \<Rightarrow> Ret (EBUSY, new_lock_count)
           | LD_Pend \<Rightarrow> Ret (EBUSY, new_lock_count))"

definition gale_mutex_unlock_validate :: "u32 \<Rightarrow> u32 \<Rightarrow> u32 \<Rightarrow> u32 option \<Rightarrow> (i32 \<times> u32 option) run" where
  "gale_mutex_unlock_validate lock_count owner_is_null owner_is_current new_lock_count =
     (if new_lock_count = None then Ret (EINVAL, new_lock_count)
      else case unlock_decide lock_count (owner_is_null \<noteq> 0) (owner_is_current \<noteq> 0) of
             UD_NotLocked \<Rightarrow> Ret (EINVAL, new_lock_count)
           | UD_NotOwner \<Rightarrow> Ret (EPERM, new_lock_count)
           | UD_Released \<Rightarrow> do { c \<leftarrow> sub_chk lock_count 1; Ret (1, Some c) }
           | UD_FullyUnlocked \<Rightarrow> Ret (0, Some 0))"

record gale_mutex_decision =
  gm_ret :: i32
  gm_action :: u8
  gm_new_lock_count :: u32

definition gale_k_mutex_lock_decide :: "u32 \<Rightarrow> u32 \<Rightarrow> u32 \<Rightarrow> u32 \<Rightarrow> gale_mutex_decision run" where
  "gale_k_mutex_lock_decide lock_count owner_is_null owner_is_current is_no_wait =
     (case lock_decide lock_count (owner_is_null \<noteq> 0) (owner_is_current \<noteq> 0) (is_no_wait \<noteq> 0) of
        LD_Acquire \<Rightarrow> Ret \<lparr>gm_ret = OK_code, gm_action = 0, gm_new_lock_count = 1\<rparr>
      | LD_Reentrant \<Rightarrow> do {
          n \<leftarrow> add_chk lock_count 1;
          Ret \<lparr>gm_ret = OK_code, gm_action = 0, gm_new_lock_count = n\<rparr> }
      | LD_Overflow \<Rightarrow> Ret \<lparr>gm_ret = EINVAL, gm_action = 2, gm_new_lock_count = lock_count\<rparr>
      | LD_Busy \<Rightarrow> Ret \<lparr>gm_ret = EBUSY, gm_action = 2, gm_new_lock_count = lock_count\<rparr>
      | LD_Pend \<Rightarrow> Ret \<lparr>gm_ret = 0, gm_action = 1, gm_new_lock_count = lock_count\<rparr>)"

definition gale_k_mutex_unlock_decide :: "u32 \<Rightarrow> u32 \<Rightarrow> u32 \<Rightarrow> gale_mutex_decision run" where
  "gale_k_mutex_unlock_decide lock_count owner_is_null owner_is_current =
     (case unlock_decide lock_count (owner_is_null \<noteq> 0) (owner_is_current \<noteq> 0) of
        UD_NotLocked \<Rightarrow> Ret \<lparr>gm_ret = EINVAL, gm_action = 2, gm_new_lock_count = 0\<rparr>
      | UD_NotOwner \<Rightarrow> Ret \<lparr>gm_ret = EPERM, gm_action = 2, gm_new_lock_count = lock_count\<rparr>
      | UD_Released \<Rightarrow> do {
          new_count \<leftarrow> sub_chk lock_count 1;
          Ret \<lparr>gm_ret = OK_code, gm_action = 0, gm_new_lock_count = new_count\<rparr> }
      | UD_FullyUnlocked \<Rightarrow> Ret \<lparr>gm_ret = OK_code, gm_action = 1, gm_new_lock_count = 0\<rparr>)"

section \<open>The C shim (gale_mutex.c)\<close>

text \<open>
  The k_mutex with what the calls touch of the threads: their priorities (smaller is more
  urgent), their return values, and the threads whose wait has timed out and that have not
  yet run the rest of k_mutex_lock.
\<close>

record k_mutex =
  km_owner :: "nat option"
  km_lock_count :: u32
  km_owner_orig_prio :: int
  km_wait_q :: "nat list"
  km_prio :: "nat \<Rightarrow> int"
  km_retval :: "nat \<Rightarrow> i32"
  km_late :: "nat set"

datatype lock_out = Lock_returns i32 | Lock_pends

definition ENOTSUP :: i32 where
  "ENOTSUP = -134"

definition z_impl_k_mutex_init :: "k_mutex \<Rightarrow> k_mutex" where
  "z_impl_k_mutex_init m = m\<lparr>km_owner := None, km_lock_count := 0, km_wait_q := []\<rparr>"

definition new_prio_for_inheritance :: "(int \<Rightarrow> int \<Rightarrow> bool) \<Rightarrow> (int \<Rightarrow> int) \<Rightarrow> int \<Rightarrow> int \<Rightarrow> int" where
  "new_prio_for_inheritance higher ceil target limit =
     (let new_prio = (if higher target limit then target else limit) in ceil new_prio)"

definition adjust_owner_prio :: "int \<Rightarrow> k_mutex \<Rightarrow> k_mutex run" where
  "adjust_owner_prio new_prio m = do {
     owner \<leftarrow> unwrap (km_owner m);
     Ret (if km_prio m owner \<noteq> new_prio then m\<lparr>km_prio := (km_prio m)(owner := new_prio)\<rparr> else m) }"

definition z_impl_k_mutex_lock ::
  "(int \<Rightarrow> int \<Rightarrow> bool) \<Rightarrow> (int \<Rightarrow> int) \<Rightarrow> ((nat \<Rightarrow> int) \<Rightarrow> nat \<Rightarrow> nat list \<Rightarrow> nat list) \<Rightarrow>
   bool \<Rightarrow> nat \<Rightarrow> bool \<Rightarrow> k_mutex \<Rightarrow> (lock_out \<times> k_mutex) run" where
  "z_impl_k_mutex_lock higher ceil enq in_isr current no_wait m =
     (if in_isr then Ret (Lock_returns ENOTSUP, m)
      else do {
        d \<leftarrow> gale_k_mutex_lock_decide (km_lock_count m) (if km_owner m = None then 1 else 0)
               (if km_owner m = Some current then 1 else 0) (if no_wait then 1 else 0);
        if gm_action d = 0
        then Ret (Lock_returns 0,
                  m\<lparr>km_owner_orig_prio := (if km_lock_count m = 0 then km_prio m current else km_owner_orig_prio m),
                    km_lock_count := gm_new_lock_count d, km_owner := Some current\<rparr>)
        else if gm_action d = 2 then Ret (Lock_returns (gm_ret d), m)
        else do {
          owner \<leftarrow> unwrap (km_owner m);
          let new_prio = new_prio_for_inheritance higher ceil (km_prio m current) (km_prio m owner);
          m \<leftarrow> (if higher new_prio (km_prio m owner) then adjust_owner_prio new_prio m else Ret m);
          Ret (Lock_pends, m\<lparr>km_wait_q := enq (km_prio m) current (km_wait_q m)\<rparr>) } })"

text \<open>The rest of k_mutex_lock in a thread whose wait timed out.\<close>

definition k_mutex_lock_expired :: "(int \<Rightarrow> int \<Rightarrow> bool) \<Rightarrow> (int \<Rightarrow> int) \<Rightarrow> nat \<Rightarrow> k_mutex \<Rightarrow> (i32 \<times> k_mutex) run" where
  "k_mutex_lock_expired higher ceil current m = do {
     m \<leftarrow> (if km_owner m \<noteq> None
           then (let new_prio = (case km_wait_q m of
                                   waiter # _ \<Rightarrow> new_prio_for_inheritance higher ceil (km_prio m waiter) (km_owner_orig_prio m)
                                 | [] \<Rightarrow> km_owner_orig_prio m)
                 in adjust_owner_prio new_prio m)
           else Ret m);
     Ret (EAGAIN, m\<lparr>km_late := km_late m - {current}\<rparr>) }"

definition z_impl_k_mutex_unlock :: "bool \<Rightarrow> nat \<Rightarrow> k_mutex \<Rightarrow> (i32 \<times> k_mutex) run" where
  "z_impl_k_mutex_unlock in_isr current m =
     (if in_isr then Ret (ENOTSUP, m)
      else do {
        d \<leftarrow> gale_k_mutex_unlock_decide (km_lock_count m) (if km_owner m = None then 1 else 0)
               (if km_owner m = Some current then 1 else 0);
        if gm_action d = 2 then Ret (gm_ret d, m)
        else if gm_action d = 0 then Ret (0, m\<lparr>km_lock_count := gm_new_lock_count d\<rparr>)
        else do {
          m \<leftarrow> adjust_owner_prio (km_owner_orig_prio m) m;
          case km_wait_q m of
            new_owner # ws \<Rightarrow>
              Ret (0, m\<lparr>km_wait_q := ws, km_owner := Some new_owner, km_owner_orig_prio := km_prio m new_owner,
                        km_lock_count := 1, km_retval := (km_retval m)(new_owner := 0)\<rparr>)
          | [] \<Rightarrow> Ret (0, m\<lparr>km_owner := None, km_lock_count := 0\<rparr>) } })"

text \<open>
  The calls of all threads and the timeouts, in any order. A thread that waits or has not
  finished a timed-out call makes no other call.
\<close>

datatype mutex_act = M_lock nat bool | M_unlock nat | M_timeout nat | M_expired nat

inductive k_mutex_step ::
  "(int \<Rightarrow> int \<Rightarrow> bool) \<Rightarrow> (int \<Rightarrow> int) \<Rightarrow> ((nat \<Rightarrow> int) \<Rightarrow> nat \<Rightarrow> nat list \<Rightarrow> nat list) \<Rightarrow> k_mutex \<Rightarrow> mutex_act \<Rightarrow> k_mutex \<Rightarrow> bool"
  for higher ceil enq where
  lock: "t \<notin> set (km_wait_q m) \<Longrightarrow> t \<notin> km_late m \<Longrightarrow> z_impl_k_mutex_lock higher ceil enq False t nw m = Ret (out, m') \<Longrightarrow>
    k_mutex_step higher ceil enq m (M_lock t nw) m'"
| unlock: "t \<notin> set (km_wait_q m) \<Longrightarrow> t \<notin> km_late m \<Longrightarrow> z_impl_k_mutex_unlock False t m = Ret (r, m') \<Longrightarrow>
    k_mutex_step higher ceil enq m (M_unlock t) m'"
| timeout: "t \<in> set (km_wait_q m) \<Longrightarrow>
    k_mutex_step higher ceil enq m (M_timeout t)
      (m\<lparr>km_wait_q := remove1 t (km_wait_q m), km_retval := (km_retval m)(t := EAGAIN), km_late := insert t (km_late m)\<rparr>)"
| expired: "t \<in> km_late m \<Longrightarrow> k_mutex_lock_expired higher ceil t m = Ret (r, m') \<Longrightarrow>
    k_mutex_step higher ceil enq m (M_expired t) m'"

section \<open>What the calls do\<close>

lemma u32_max_less: "n < u32_max \<Longrightarrow> add_chk n 1 = Ret (n + 1) \<and> n + 1 \<noteq> 0"
  using u32_plus [of n 1] unat_less_pow [of n]
  by (auto simp: u32_max_def word_less_nat_alt add_chk_def word_unat_eq_iff)

lemma lock_eq:
  "z_impl_k_mutex_lock higher ceil enq False t nw m =
     (case km_owner m of
        None \<Rightarrow> Ret (Lock_returns 0, m\<lparr>km_owner_orig_prio := (if km_lock_count m = 0 then km_prio m t else km_owner_orig_prio m),
                                        km_lock_count := 1, km_owner := Some t\<rparr>)
      | Some p \<Rightarrow>
          if p = t
          then (if km_lock_count m < u32_max
                then Ret (Lock_returns 0, m\<lparr>km_owner_orig_prio := (if km_lock_count m = 0 then km_prio m t else km_owner_orig_prio m),
                                            km_lock_count := km_lock_count m + 1, km_owner := Some t\<rparr>)
                else Ret (Lock_returns EINVAL, m))
          else if nw then Ret (Lock_returns EBUSY, m)
          else (let new = new_prio_for_inheritance higher ceil (km_prio m t) (km_prio m p);
                    pr = (if higher new (km_prio m p) then (km_prio m)(p := new) else km_prio m)
                in Ret (Lock_pends, m\<lparr>km_prio := pr, km_wait_q := enq pr t (km_wait_q m)\<rparr>)))"
  by (cases "km_owner m")
    (auto simp: z_impl_k_mutex_lock_def gale_k_mutex_lock_decide_def lock_decide_def u32_max_less adjust_owner_prio_def unwrap_def
      Let_def fun_upd_idem)

lemma unlock_eq:
  "z_impl_k_mutex_unlock False t m =
     (case km_owner m of
        None \<Rightarrow> Ret (EINVAL, m)
      | Some p \<Rightarrow>
          if p \<noteq> t then Ret (EPERM, m)
          else if 1 < km_lock_count m then Ret (0, m\<lparr>km_lock_count := km_lock_count m - 1\<rparr>)
          else (let m = m\<lparr>km_prio := (km_prio m)(t := km_owner_orig_prio m)\<rparr>
                in case km_wait_q m of
                     w # ws \<Rightarrow> Ret (0, m\<lparr>km_wait_q := ws, km_owner := Some w, km_owner_orig_prio := km_prio m w,
                                          km_lock_count := 1, km_retval := (km_retval m)(w := 0)\<rparr>)
                   | [] \<Rightarrow> Ret (0, m\<lparr>km_owner := None, km_lock_count := 0\<rparr>)))"
proof -
  have "sub_chk n 1 = Ret (n - 1)" if "1 < n" for n :: u32
    using that by (simp add: sub_chk_def less_imp_le)
  then show ?thesis
    by (cases "km_owner m")
      (auto simp: z_impl_k_mutex_unlock_def gale_k_mutex_unlock_decide_def unlock_decide_def adjust_owner_prio_def unwrap_def
        Let_def fun_upd_idem split: list.split)
qed

lemma expired_eq:
  "k_mutex_lock_expired higher ceil t m =
     (case km_owner m of
        None \<Rightarrow> Ret (EAGAIN, m\<lparr>km_late := km_late m - {t}\<rparr>)
      | Some p \<Rightarrow>
          (let new = (case km_wait_q m of w # _ \<Rightarrow> new_prio_for_inheritance higher ceil (km_prio m w) (km_owner_orig_prio m)
                                        | [] \<Rightarrow> km_owner_orig_prio m)
           in Ret (EAGAIN, m\<lparr>km_prio := (km_prio m)(p := new), km_late := km_late m - {t}\<rparr>)))"
  by (cases "km_owner m")
    (auto simp: k_mutex_lock_expired_def adjust_owner_prio_def unwrap_def Let_def fun_upd_idem split: list.split)

text \<open>
  The invariant, over the priorities the threads have of their own: only the owner's may
  differ; it is raised to that of every waiter as far as the ceiling allows.
\<close>

definition pi_inv :: "(nat \<Rightarrow> int) \<Rightarrow> int \<Rightarrow> k_mutex \<Rightarrow> bool" where
  "pi_inv base c m \<longleftrightarrow>
     (km_owner m = None \<longleftrightarrow> km_lock_count m = 0) \<and> (km_owner m = None \<longrightarrow> km_wait_q m = []) \<and>
     distinct (km_wait_q m) \<and> sorted (map base (km_wait_q m)) \<and> km_late m \<inter> set (km_wait_q m) = {} \<and>
     (\<forall>t. km_owner m \<noteq> Some t \<longrightarrow> km_prio m t = base t) \<and>
     (\<forall>p. km_owner m = Some p \<longrightarrow>
        p \<notin> set (km_wait_q m) \<and> p \<notin> km_late m \<and> km_owner_orig_prio m = base p \<and>
        km_prio m p \<le> max (base p) c \<and> (\<forall>w\<in>set (km_wait_q m). km_prio m p \<le> max (base w) c) \<and>
        (km_wait_q m = [] \<and> km_late m = {} \<longrightarrow> km_prio m p = base p))"

locale zephyr_prio =
  fixes higher :: "int \<Rightarrow> int \<Rightarrow> bool"
    and ceil :: "int \<Rightarrow> int"
    and enq :: "(nat \<Rightarrow> int) \<Rightarrow> nat \<Rightarrow> nat list \<Rightarrow> nat list"
    and c :: int
  assumes higher_iff: "higher p r \<longleftrightarrow> p < r"
    and ceil_eq: "ceil p = max p c"
    and enq_mset: "mset (enq pr t q) = add_mset t (mset q)"
    and enq_sorted: "sorted (map pr q) \<Longrightarrow> sorted (map pr (enq pr t q))"
begin

lemma enq_set: "set (enq pr t q) = insert t (set q)"
  using enq_mset [of pr t q] by (metis set_mset_add_mset_insert set_mset_mset)

lemma enq_distinct: "distinct (enq pr t q) \<longleftrightarrow> distinct (t # q)"
  using enq_mset [of pr t q] by (intro mset_eq_imp_distinct_iff) simp

lemma inheritance_eq: "new_prio_for_inheritance higher ceil p q = max (min p q) c"
  by (auto simp: new_prio_for_inheritance_def higher_iff ceil_eq min_def)

lemma lock_keeps:
  assumes inv: "pi_inv base c m" and t: "t \<notin> set (km_wait_q m)" "t \<notin> km_late m"
    and run: "z_impl_k_mutex_lock higher ceil enq False t nw m = Ret (out, m')"
  shows "pi_inv base c m'"
proof (cases "km_owner m")
  case None
  then show ?thesis
    using assms by (auto simp: lock_eq pi_inv_def)
next
  case (Some p)
  show ?thesis
  proof (cases "p = t")
    case True
    then show ?thesis
      using assms Some u32_max_less [of "km_lock_count m"] by (auto simp: lock_eq pi_inv_def split: if_splits)
  next
    case False
    have bt: "km_prio m t = base t" using inv Some False by (auto simp: pi_inv_def)
    have i: "p \<notin> set (km_wait_q m)" "distinct (km_wait_q m)" "sorted (map base (km_wait_q m))"
      using inv Some by (auto simp: pi_inv_def)
    consider "m' = m" | pr where "m' = m\<lparr>km_prio := pr, km_wait_q := enq pr t (km_wait_q m)\<rparr>"
      "\<And>x. x \<noteq> p \<Longrightarrow> pr x = km_prio m x" "pr p \<le> km_prio m p" "pr p \<le> max (base t) c"
    proof (cases nw)
      case True
      then show ?thesis using that(1) run Some False by (auto simp: lock_eq)
    next
      case nw: False
      let ?new = "max (min (base t) (km_prio m p)) c"
      let ?pr = "if ?new < km_prio m p then (km_prio m)(p := ?new) else km_prio m"
      show ?thesis
        by (rule that(2) [of ?pr])
          (use run Some False nw bt in \<open>auto simp: lock_eq inheritance_eq higher_iff Let_def max_def min_def split: if_splits\<close>)
    qed
    then show ?thesis
    proof cases
      case (2 pr)
      have pb: "pr x = base x" if "x \<noteq> p" for x
        using inv Some that 2(2) by (auto simp: pi_inv_def)
      have "map pr (km_wait_q m) = map base (km_wait_q m)"
        using pb i(1) by (metis map_eq_conv)
      then have "sorted (map pr (enq pr t (km_wait_q m)))"
        using i(3) by (metis enq_sorted)
      moreover have "map pr (enq pr t (km_wait_q m)) = map base (enq pr t (km_wait_q m))"
        using i(1) False by (intro map_cong refl pb) (auto simp: enq_set)
      ultimately have srt: "sorted (map base (enq pr t (km_wait_q m)))" by simp
      have "enq pr t (km_wait_q m) \<noteq> []"
        using enq_set [of pr t "km_wait_q m"] by auto
      moreover have "pr p \<le> max (base p) c" "\<forall>w\<in>set (km_wait_q m). pr p \<le> max (base w) c"
        using inv Some 2(3) by (auto simp: pi_inv_def intro: order_trans)
      ultimately show ?thesis
        unfolding 2(1) using inv Some False t i srt pb 2(4) by (simp add: pi_inv_def enq_set enq_distinct)
    qed (simp add: inv)
  qed
qed

lemma unlock_keeps:
  assumes "pi_inv base c m" and "z_impl_k_mutex_unlock False t m = Ret (r, m')"
  shows "pi_inv base c m'"
proof (cases "km_owner m = Some t \<and> \<not> 1 < km_lock_count m")
  case True
  then show ?thesis
    using assms by (cases "km_wait_q m") (auto simp: unlock_eq pi_inv_def Let_def le_max_iff_disj)
next
  case False
  have "n - 1 \<noteq> 0" if "1 < n" for n :: u32
    using that by auto
  then show ?thesis
    using assms False by (auto simp: unlock_eq pi_inv_def split: option.splits if_splits)
qed

lemma expired_keeps:
  assumes "pi_inv base c m" and "k_mutex_lock_expired higher ceil t m = Ret (r, m')"
  shows "pi_inv base c m'"
proof (cases "km_owner m")
  case None
  then show ?thesis using assms by (auto simp: expired_eq pi_inv_def)
next
  case (Some p)
  have i: "km_owner_orig_prio m = base p" "sorted (map base (km_wait_q m))" "p \<notin> set (km_wait_q m)"
    and b: "\<And>x. x \<noteq> p \<Longrightarrow> km_prio m x = base x"
    using assms(1) Some by (auto simp: pi_inv_def)
  obtain new where m': "m' = m\<lparr>km_prio := (km_prio m)(p := new), km_late := km_late m - {t}\<rparr>"
    and new: "new = (case km_wait_q m of w # _ \<Rightarrow> max (min (km_prio m w) (base p)) c | [] \<Rightarrow> base p)"
    using assms(2) Some i(1) by (simp add: expired_eq inheritance_eq Let_def split: list.splits)
  have "new \<le> max (base p) c" "\<forall>w\<in>set (km_wait_q m). new \<le> max (base w) c" "km_wait_q m = [] \<Longrightarrow> new = base p"
  proof -
    show "km_wait_q m = [] \<Longrightarrow> new = base p" by (simp add: new)
    show "new \<le> max (base p) c" by (auto simp: new split: list.split)
    show "\<forall>w\<in>set (km_wait_q m). new \<le> max (base w) c"
    proof (cases "km_wait_q m")
      case (Cons w ws)
      then have "km_prio m w = base w" "\<forall>x\<in>set ws. base w \<le> base x"
        using i b by auto
      then show ?thesis using Cons by (auto simp: new)
    qed simp
  qed
  then show ?thesis
    using assms(1) Some b unfolding m' by (auto simp: pi_inv_def)
qed

lemma timeout_keeps:
  assumes "pi_inv base c m" and "t \<in> set (km_wait_q m)"
  shows "pi_inv base c (m\<lparr>km_wait_q := remove1 t (km_wait_q m), km_retval := (km_retval m)(t := EAGAIN), km_late := insert t (km_late m)\<rparr>)"
  using assms by (auto simp: pi_inv_def sorted_map_remove1)

lemma trace_keeps:
  assumes "trace (k_mutex_step higher ceil enq) m0 es m" and "pi_inv base c m0"
  shows "pi_inv base c m"
  using assms(1,2)
proof (rule trace_invariant)
  fix m e m'
  assume "pi_inv base c m" "k_mutex_step higher ceil enq m e m'"
  then show "pi_inv base c m'"
    by (auto elim!: k_mutex_step.cases intro: lock_keeps unlock_keeps expired_keeps timeout_keeps)
qed

lemma calls_return:
  "\<exists>out m'. z_impl_k_mutex_lock higher ceil enq False t nw m = Ret (out, m')"
  "\<exists>r m'. z_impl_k_mutex_unlock False t m = Ret (r, m')"
  "\<exists>r m'. k_mutex_lock_expired higher ceil t m = Ret (r, m')"
  by (auto simp: lock_eq unlock_eq expired_eq Let_def split: option.split list.split)

end

interpretation wq_prio: zephyr_prio "(<)" "\<lambda>p. max p c" ins_stable c for c
  by unfold_locales (simp_all add: sorted_ins_stable)

section \<open>Properties\<close>

text \<open>
  C4: Priority inheritance, for every order of lock, unlock and timeout of any threads. The
  owner runs at least at the priority of every waiter, as far as the ceiling c
  allows; every other thread has its own priority; an owner nobody waits for (and no
  timed-out call is still to finish) has its own priority back. The last unlock restores
  the owner's priority and hands the mutex to a waiter of the highest priority. No call panics.
  The laws of the Zephyr functions are the hypotheses: the comparison of
  priorities, the clamp at the ceiling, and insertion that keeps a wait queue sorted.
\<close>

theorem mutex_priority_inheritance:
  assumes "\<And>p r. higher p r \<longleftrightarrow> p < r" and "\<And>p. ceil p = max p c"
    and "\<And>pr t q. mset (enq pr t q) = add_mset t (mset q)"
    and "\<And>pr t q. sorted (map pr q) \<Longrightarrow> sorted (map pr (enq pr t q))"
    and "trace (k_mutex_step higher ceil enq) (z_impl_k_mutex_init m0) es m" and "km_late m0 = {}"
  shows "(\<forall>p. km_owner m = Some p \<longrightarrow> (\<forall>w\<in>set (km_wait_q m). km_prio m p \<le> max (km_prio m w) c)) \<and>
         (\<forall>t. km_owner m \<noteq> Some t \<longrightarrow> km_prio m t = km_prio m0 t) \<and>
         (\<forall>p. km_owner m = Some p \<and> km_wait_q m = [] \<and> km_late m = {} \<longrightarrow> km_prio m p = km_prio m0 p) \<and>
         (\<forall>p w ws. km_owner m = Some p \<and> km_lock_count m = 1 \<and> km_wait_q m = w # ws \<longrightarrow>
            (\<exists>m'. z_impl_k_mutex_unlock False p m = Ret (0, m') \<and> km_owner m' = Some w \<and> km_prio m' p = km_prio m0 p \<and>
               km_wait_q m' = ws \<and> (\<forall>x\<in>set ws. km_prio m w \<le> km_prio m x))) \<and>
         (\<exists>out m'. z_impl_k_mutex_lock higher ceil enq False t nw m = Ret (out, m')) \<and>
         (\<exists>r m'. z_impl_k_mutex_unlock False t m = Ret (r, m'))"
proof -
  have z: "zephyr_prio higher ceil enq c"
    by unfold_locales (simp_all add: assms(1-4))
  have "pi_inv (km_prio m0) c (z_impl_k_mutex_init m0)"
    by (simp add: pi_inv_def z_impl_k_mutex_init_def assms(6))
  then have inv: "pi_inv (km_prio m0) c m"
    by (rule zephyr_prio.trace_keeps [OF z assms(5)])
  have own: "km_prio m p \<le> max (km_prio m w) c" "km_prio m w = km_prio m0 w" if "km_owner m = Some p" "w \<in> set (km_wait_q m)" for p w
    using inv that by (auto simp: pi_inv_def)
  have hand: "\<exists>m'. z_impl_k_mutex_unlock False p m = Ret (0, m') \<and> km_owner m' = Some w \<and> km_prio m' p = km_prio m0 p \<and>
      km_wait_q m' = ws \<and> (\<forall>x\<in>set ws. km_prio m w \<le> km_prio m x)"
    if "km_owner m = Some p" "km_lock_count m = 1" "km_wait_q m = w # ws" for p w ws
    using inv that own [OF that(1)] by (auto simp: unlock_eq pi_inv_def Let_def)
  show ?thesis
    using inv own(1) hand zephyr_prio.calls_return [OF z] by (auto simp: pi_inv_def)
qed

definition k_mutex_example :: k_mutex where
  "k_mutex_example = \<lparr>km_owner = None, km_lock_count = 0, km_owner_orig_prio = 0, km_wait_q = [],
     km_prio = (\<lambda>t. if t = 1 then 10 else 3), km_retval = (\<lambda>_. 0), km_late = {}\<rparr>"

text \<open>Thread 2 (priority 3) waits for thread 1 (priority 10), which then runs at priority 3.\<close>

theorem mutex_priority_inheritance_witness:
  "\<exists>m m'. z_impl_k_mutex_lock (<) (\<lambda>p. max p 0) ins_stable False 1 False (z_impl_k_mutex_init k_mutex_example) = Ret (Lock_returns 0, m) \<and>
     z_impl_k_mutex_lock (<) (\<lambda>p. max p 0) ins_stable False 2 False m = Ret (Lock_pends, m') \<and>
     km_owner m' = Some 1 \<and> km_wait_q m' = [2] \<and> km_prio m' 1 \<le> 3 \<and> km_prio m' 2 = 3"
proof -
  let ?step = "k_mutex_step (<) (\<lambda>p. max p 0) ins_stable"
  obtain m where l1: "z_impl_k_mutex_lock (<) (\<lambda>p. max p 0) ins_stable False 1 False (z_impl_k_mutex_init k_mutex_example) = Ret (Lock_returns 0, m)"
    and m: "km_owner m = Some 1" "km_lock_count m = 1" "km_wait_q m = []" "km_prio m = (\<lambda>t. if t = 1 then 10 else 3)" "km_late m = {}"
    by (simp add: lock_eq z_impl_k_mutex_init_def k_mutex_example_def)
  obtain m' where l2: "z_impl_k_mutex_lock (<) (\<lambda>p. max p 0) ins_stable False 2 False m = Ret (Lock_pends, m')"
    and m': "km_owner m' = Some 1" "km_wait_q m' = [2]"
    using m by (simp add: lock_eq Let_def ins_stable_def)
  have "?step (z_impl_k_mutex_init k_mutex_example) (M_lock 1 False) m"
    using l1 by (intro k_mutex_step.lock) (simp_all add: z_impl_k_mutex_init_def k_mutex_example_def)
  moreover have "?step m (M_lock 2 False) m'"
    using l2 m by (intro k_mutex_step.lock) simp_all
  ultimately have "trace ?step (z_impl_k_mutex_init k_mutex_example) [M_lock 1 False, M_lock 2 False] m'"
    using trace_two [of ?step] by blast
  then have "km_prio m' 1 \<le> max (km_prio m' 2) 0 \<and> km_prio m' 2 = km_prio k_mutex_example 2"
    using mutex_priority_inheritance [of "(<)" "\<lambda>p. max p 0" 0 ins_stable k_mutex_example "[M_lock 1 False, M_lock 2 False]" m' 0 False] m'
    by (auto simp: sorted_ins_stable k_mutex_example_def)
  then show ?thesis using l1 l2 m' by (auto simp: k_mutex_example_def)
qed

end
