(* ===== verification/Sem_Shim.thy ===== *)
theory Sem_Shim
  imports Semaphore Poll_Shim
begin

text \<open>
  The semaphore as Zephyr calls it: the functions exported to C (the semaphore section of
  ffi/src/lib.rs) and the C shim that applies their decisions (zephyr/gale_sem.c), on top of
  the polling of Poll_Shim. The count of a semaphore is the level its poll events test.

  The insertion of a pending thread into a wait queue is the parameter enq;
  z_unpend_first_thread takes the head of the queue.
\<close>

section \<open>The exported functions (ffi)\<close>

definition gale_sem_count_init :: "u32 \<Rightarrow> u32 \<Rightarrow> i32" where
  "gale_sem_count_init initial_count limit = (if limit = 0 \<or> initial_count > limit then EINVAL else OK_code)"

definition gale_sem_count_give :: "u32 \<Rightarrow> u32 \<Rightarrow> u32 run" where
  "gale_sem_count_give cnt limit =
     (case give_decide cnt limit False of
        GD_Increment \<Rightarrow> add_chk cnt 1
      | GD_Saturated \<Rightarrow> Ret cnt
      | GD_WakeThread \<Rightarrow> Ret cnt)"

text \<open>The count is read and written through a pointer; None is the null pointer.\<close>

definition gale_sem_count_take :: "u32 option \<Rightarrow> (i32 \<times> u32 option) run" where
  "gale_sem_count_take cnt =
     (case cnt of
        None \<Rightarrow> Ret (EINVAL, None)
      | Some n \<Rightarrow>
          case take_decide n True of
            TD_Acquired \<Rightarrow> do { n' \<leftarrow> sub_chk n 1; Ret (OK_code, Some n') }
          | TD_WouldBlock \<Rightarrow> Ret (EBUSY, Some n)
          | TD_Pend \<Rightarrow> Ret (EBUSY, Some n))"

text \<open>
  A decision is returned as the 64-bit image of its C struct: the action in the
  first byte, three bytes of padding with any content, and the count in the upper half.
\<close>

record gale_sem_decision =
  gs_action :: u8
  gs_new_count :: u32

definition pack_decision :: "u64 \<Rightarrow> gale_sem_decision \<Rightarrow> u64" where
  "pack_decision padding d =
     ucast (gs_action d) OR (padding AND push_bit 8 (mask 24)) OR push_bit 32 (ucast (gs_new_count d))"

definition unpack_decision :: "u64 \<Rightarrow> gale_sem_decision" where
  "unpack_decision w = \<lparr>gs_action = ucast w, gs_new_count = ucast (drop_bit 32 w)\<rparr>"

definition gale_k_sem_give_decide :: "u64 \<Rightarrow> u32 \<Rightarrow> u32 \<Rightarrow> u32 \<Rightarrow> u64 run" where
  "gale_k_sem_give_decide padding cnt limit has_waiter = do {
     typed \<leftarrow> (case give_decide cnt limit (has_waiter \<noteq> 0) of
                 GD_WakeThread \<Rightarrow> Ret \<lparr>gs_action = 1, gs_new_count = cnt\<rparr>
               | GD_Increment \<Rightarrow> do { new_count \<leftarrow> add_chk cnt 1; Ret \<lparr>gs_action = 0, gs_new_count = new_count\<rparr> }
               | GD_Saturated \<Rightarrow> Ret \<lparr>gs_action = 0, gs_new_count = cnt\<rparr>);
     Ret (pack_decision padding typed) }"

definition gale_k_sem_take_decide :: "u64 \<Rightarrow> u32 \<Rightarrow> u32 \<Rightarrow> u64 run" where
  "gale_k_sem_take_decide padding cnt is_no_wait = do {
     typed \<leftarrow> (case take_decide cnt (is_no_wait \<noteq> 0) of
                 TD_Acquired \<Rightarrow> do { new_count \<leftarrow> sub_chk cnt 1; Ret \<lparr>gs_action = 0, gs_new_count = new_count\<rparr> }
               | TD_WouldBlock \<Rightarrow> Ret \<lparr>gs_action = 1, gs_new_count = 0\<rparr>
               | TD_Pend \<Rightarrow> Ret \<lparr>gs_action = 2, gs_new_count = 0\<rparr>);
     Ret (pack_decision padding typed) }"

lemma unpack_pack [simp]: "unpack_decision (pack_decision padding d) = d"
proof -
  have "ucast (pack_decision padding d) = gs_action d"
    by (intro bit_word_eqI) (simp add: pack_decision_def bit_simps)
  moreover have "ucast (drop_bit 32 (pack_decision padding d)) = gs_new_count d"
    by (intro bit_word_eqI) (auto simp: pack_decision_def bit_simps dest: bit_imp_le_length)
  ultimately show ?thesis
    by (simp add: unpack_decision_def)
qed

section \<open>The C shim (gale_sem.c)\<close>

record sem_sys =
  sy_poll :: poll_state
  sy_limit :: "nat \<Rightarrow> u32"
  sy_wait_q :: "nat \<Rightarrow> nat list"

abbreviation sem_level :: "sem_sys \<Rightarrow> nat \<Rightarrow> u32" where
  "sem_level s \<equiv> ko_level (sy_poll s)"

definition set_level :: "nat \<Rightarrow> u32 \<Rightarrow> sem_sys \<Rightarrow> sem_sys" where
  "set_level sem n s = s\<lparr>sy_poll := (sy_poll s)\<lparr>ko_level := (ko_level (sy_poll s))(sem := n)\<rparr>\<rparr>"

definition set_wait_q :: "nat \<Rightarrow> nat list \<Rightarrow> sem_sys \<Rightarrow> sem_sys" where
  "set_wait_q sem q s = s\<lparr>sy_wait_q := (sy_wait_q s)(sem := q)\<rparr>"

text \<open>arch_thread_return_value_set and z_ready_thread.\<close>

definition wake_thread :: "nat \<Rightarrow> i32 \<Rightarrow> sem_sys \<Rightarrow> sem_sys" where
  "wake_thread t r s = s\<lparr>sy_poll := (sy_poll s)\<lparr>kt_retval := (kt_retval (sy_poll s))(t := r), kt_ready := kt_ready (sy_poll s) @ [t]\<rparr>\<rparr>"

definition handle_poll_events :: "nat \<Rightarrow> sem_sys \<Rightarrow> (bool \<times> sem_sys) run" where
  "handle_poll_events sem s = do {
     r \<leftarrow> z_handle_obj_poll_events sem St_Sem (sy_poll s);
     Ret (fst r, s\<lparr>sy_poll := snd r\<rparr>) }"

definition z_impl_k_sem_init :: "nat \<Rightarrow> u32 \<Rightarrow> u32 \<Rightarrow> sem_sys \<Rightarrow> i32 \<times> sem_sys" where
  "z_impl_k_sem_init sem initial_count limit s =
     (if gale_sem_count_init initial_count limit \<noteq> 0 then (EINVAL, s)
      else (0, (set_wait_q sem [] (set_level sem initial_count s))
                 \<lparr>sy_limit := (sy_limit s)(sem := limit),
                  sy_poll := upd_list sem (\<lambda>_. []) (sy_poll (set_level sem initial_count s))\<rparr>))"

text \<open>The result of a give is whether the shim asks for a reschedule.\<close>

definition z_impl_k_sem_give :: "u64 \<Rightarrow> nat \<Rightarrow> sem_sys \<Rightarrow> (bool \<times> sem_sys) run" where
  "z_impl_k_sem_give padding sem s = do {
     let thread = (case sy_wait_q s sem of [] \<Rightarrow> None | t # _ \<Rightarrow> Some t);
     let s = set_wait_q sem (tl (sy_wait_q s sem)) s;
     raw \<leftarrow> gale_k_sem_give_decide padding (sem_level s sem) (sy_limit s sem) (if thread \<noteq> None then 1 else 0);
     let d = unpack_decision raw;
     if gs_action d = 1
     then do { t \<leftarrow> unwrap thread; Ret (True, wake_thread t 0 s) }
     else handle_poll_events sem (set_level sem (gs_new_count d) s) }"

datatype take_out = Take_returns i32 | Take_pends

definition ENOTSUP_sem :: i32 where
  "ENOTSUP_sem = -134"

definition z_impl_k_sem_take :: "u64 \<Rightarrow> (nat \<Rightarrow> nat list \<Rightarrow> nat list) \<Rightarrow> bool \<Rightarrow> nat \<Rightarrow> nat \<Rightarrow> bool \<Rightarrow> sem_sys \<Rightarrow> (take_out \<times> sem_sys) run" where
  "z_impl_k_sem_take padding enq in_isr current sem no_wait s =
     (if in_isr \<and> \<not> no_wait then Ret (Take_returns ENOTSUP_sem, s)
      else do {
        raw \<leftarrow> gale_k_sem_take_decide padding (sem_level s sem) (if no_wait then 1 else 0);
        let d = unpack_decision raw;
        if gs_action d = 0 then Ret (Take_returns 0, set_level sem (gs_new_count d) s)
        else if gs_action d = 1 then Ret (Take_returns EBUSY, s)
        else Ret (Take_pends, set_wait_q sem (enq current (sy_wait_q s sem)) s) })"

fun wake_all :: "nat list \<Rightarrow> sem_sys \<Rightarrow> sem_sys" where
  "wake_all [] s = s"
| "wake_all (t # ts) s = wake_all ts (wake_thread t EAGAIN s)"

definition z_impl_k_sem_reset :: "nat \<Rightarrow> sem_sys \<Rightarrow> (bool \<times> sem_sys) run" where
  "z_impl_k_sem_reset sem s = do {
     let waiters = sy_wait_q s sem;
     let s = set_level sem 0 (wake_all waiters (set_wait_q sem [] s));
     r \<leftarrow> handle_poll_events sem s;
     Ret (fst r \<or> waiters \<noteq> [], snd r) }"

section \<open>Takers, givers and pollers together\<close>

text \<open>
  The semaphores are a set of objects whose level only these calls change. A thread that
  waits for a semaphore is outside k_poll.
\<close>

type_synonym sem_world = "(nat \<Rightarrow> poll_pc) \<times> sem_sys"

inductive sem_sys_step :: "(nat \<Rightarrow> nat \<Rightarrow> int) \<Rightarrow> (nat \<Rightarrow> nat list \<Rightarrow> nat list) \<Rightarrow> nat set \<Rightarrow> sem_world \<Rightarrow> sem_world \<Rightarrow> bool"
  for cmp enq sems where
  give: "sem \<in> sems \<Longrightarrow> z_impl_k_sem_give padding sem s = Ret (b, s') \<Longrightarrow> sem_sys_step cmp enq sems (pc, s) (pc, s')"
| take: "sem \<in> sems \<Longrightarrow> pc t = PC_out \<Longrightarrow> \<forall>x. t \<notin> set (sy_wait_q s x) \<Longrightarrow>
    z_impl_k_sem_take padding enq False t sem no_wait s = Ret (out, s') \<Longrightarrow> sem_sys_step cmp enq sems (pc, s) (pc, s')"
| take_isr: "sem \<in> sems \<Longrightarrow> z_impl_k_sem_take padding enq True t sem True s = Ret (out, s') \<Longrightarrow> sem_sys_step cmp enq sems (pc, s) (pc, s')"
| reset: "sem \<in> sems \<Longrightarrow> z_impl_k_sem_reset sem s = Ret (b, s') \<Longrightarrow> sem_sys_step cmp enq sems (pc, s) (pc, s')"
| take_timeout: "t \<in> set (sy_wait_q s sem) \<Longrightarrow>
    sem_sys_step cmp enq sems (pc, s) (pc, wake_thread t EAGAIN (set_wait_q sem (remove1 t (sy_wait_q s sem)) s))"
| polling: "poll_step cmp (pc, sy_poll s) (pc', p) \<Longrightarrow> \<forall>x\<in>sems. ko_level p x = sem_level s x \<Longrightarrow>
    \<forall>x. \<forall>t\<in>set (sy_wait_q s x). pc' t = PC_out \<Longrightarrow> sem_sys_step cmp enq sems (pc, s) (pc', s\<lparr>sy_poll := p\<rparr>)"

definition sem_sys_inv :: "nat set \<Rightarrow> sem_world \<Rightarrow> bool" where
  "sem_sys_inv sems w \<longleftrightarrow> poll_inv (fst w, sy_poll (snd w)) \<and>
     (\<forall>x. \<forall>t\<in>set (sy_wait_q (snd w) x). fst w t = PC_out) \<and>
     (\<forall>x\<in>sems. 0 < sy_limit (snd w) x \<and> sem_level (snd w) x \<le> sy_limit (snd w) x \<and>
        (sy_wait_q (snd w) x \<noteq> [] \<longrightarrow> sem_level (snd w) x = 0))"

section \<open>What the calls do\<close>

lemmas sem_upds = set_level_def set_wait_q_def wake_thread_def

lemma handle_level: "z_handle_obj_poll_events obj fl s = Ret (b, s') \<Longrightarrow> ko_level s' = ko_level s"
  by (auto simp: z_handle_obj_poll_events_def signal_poll_event_def signal_poller_def signal_triggered_work_def unwrap_def
      set_event_ready_def upd_defs Let_def split: list.splits option.splits if_splits poll_mode.splits bool.splits Option.bind_splits)

lemma handle_returns:
  assumes "poll_inv (pc, s)"
  shows "\<exists>b s'. z_handle_obj_poll_events obj fl s = Ret (b, s')"
proof (cases "ko_list s obj")
  case Nil
  then show ?thesis by (auto simp: z_handle_obj_poll_events_def)
next
  case (Cons e es)
  obtain t where t: "ke_poller (kp_events s e) = Some t" "e \<in> set (pc_registered (pc t))"
    using poll_invD(6) [OF assms, of e obj] Cons by auto
  then have "zp_mode (kp_pollers s t) = MODE_POLL"
    using poll_invD(1) [OF assms, of t] by (cases "pc t") auto
  then show ?thesis using handle_eq [OF Cons t(1)] by blast
qed

lemma give_eq:
  "z_impl_k_sem_give padding sem s =
     (case sy_wait_q s sem of
        t # ws \<Rightarrow> Ret (True, wake_thread t 0 (set_wait_q sem ws s))
      | [] \<Rightarrow> handle_poll_events sem (set_level sem (if sem_level s sem < sy_limit s sem then sem_level s sem + 1 else sem_level s sem)
                (set_wait_q sem [] s)))"
proof -
  have "add_chk n 1 = Ret (n + 1)" if "n < l" for n l :: u32
    using that unat_less_pow [of l] by (auto simp: add_chk_def word_less_nat_alt)
  then show ?thesis
    by (cases "sy_wait_q s sem")
      (auto simp: z_impl_k_sem_give_def gale_k_sem_give_decide_def give_decide_def unwrap_def Let_def set_wait_q_def)
qed

lemma take_eq:
  "z_impl_k_sem_take padding enq False t sem no_wait s =
     (if 0 < sem_level s sem then Ret (Take_returns 0, set_level sem (sem_level s sem - 1) s)
      else if no_wait then Ret (Take_returns EBUSY, s)
      else Ret (Take_pends, set_wait_q sem (enq t (sy_wait_q s sem)) s))"
  "z_impl_k_sem_take padding enq True t sem True s =
     (if 0 < sem_level s sem then Ret (Take_returns 0, set_level sem (sem_level s sem - 1) s) else Ret (Take_returns EBUSY, s))"
proof -
  have "sub_chk n 1 = Ret (n - 1)" if "0 < n" for n :: u32
    using that by (simp add: sub_chk_def word_le_nat_alt word_less_nat_alt)
  then show "z_impl_k_sem_take padding enq False t sem no_wait s =
     (if 0 < sem_level s sem then Ret (Take_returns 0, set_level sem (sem_level s sem - 1) s)
      else if no_wait then Ret (Take_returns EBUSY, s)
      else Ret (Take_pends, set_wait_q sem (enq t (sy_wait_q s sem)) s))"
    "z_impl_k_sem_take padding enq True t sem True s =
     (if 0 < sem_level s sem then Ret (Take_returns 0, set_level sem (sem_level s sem - 1) s) else Ret (Take_returns EBUSY, s))"
    by (auto simp: z_impl_k_sem_take_def gale_k_sem_take_decide_def take_decide_def Let_def)
qed

lemma poll_keeps:
  assumes "poll_inv (pc, sy_poll s)"
  shows "poll_inv (pc, sy_poll (set_level sem n s))" "poll_inv (pc, sy_poll (set_wait_q sem q s))"
    "pc t = PC_out \<Longrightarrow> poll_inv (pc, sy_poll (wake_thread t r s))"
    "handle_poll_events sem s = Ret (b, s') \<Longrightarrow> poll_inv (pc, sy_poll s')"
proof -
  show "poll_inv (pc, sy_poll (set_level sem n s))"
    using poll_step_keeps [OF poll_step.level assms] by (simp add: set_level_def)
  show "poll_inv (pc, sy_poll (set_wait_q sem q s))"
    using assms by (simp add: set_wait_q_def)
  show "pc t = PC_out \<Longrightarrow> poll_inv (pc, sy_poll (wake_thread t r s))"
    using poll_step_keeps [OF poll_step.elsewhere assms, of t] by (simp add: wake_thread_def)
  show "handle_poll_events sem s = Ret (b, s') \<Longrightarrow> poll_inv (pc, sy_poll s')"
    using notify_keeps(1) [OF assms] by (auto simp: handle_poll_events_def split: Option.bind_splits)
qed

lemma handle_poll_fields:
  assumes "handle_poll_events sem s = Ret (b, s')"
  shows "sy_wait_q s' = sy_wait_q s" "sy_limit s' = sy_limit s" "ko_level (sy_poll s') = ko_level (sy_poll s)"
  using assms handle_level by (fastforce simp: handle_poll_events_def split: Option.bind_splits)+

lemma wake_all_fields:
  "sy_wait_q (wake_all ts s) = sy_wait_q s" "sy_limit (wake_all ts s) = sy_limit s" "ko_level (sy_poll (wake_all ts s)) = ko_level (sy_poll s)"
  by (induction ts arbitrary: s) (simp_all add: wake_thread_def)

lemma wake_all_keeps: "poll_inv (pc, sy_poll s) \<Longrightarrow> \<forall>t\<in>set ts. pc t = PC_out \<Longrightarrow> poll_inv (pc, sy_poll (wake_all ts s))"
  by (induction ts arbitrary: s) (simp_all add: poll_keeps(3))

lemma dec_le: "0 < n \<Longrightarrow> n \<le> l \<Longrightarrow> n - 1 \<le> l" for n l :: u32
  by unat_arith

lemma sem_sys_invD:
  assumes "sem_sys_inv sems (pc, s)"
  shows "poll_inv (pc, sy_poll s)" "t \<in> set (sy_wait_q s x) \<Longrightarrow> pc t = PC_out"
    "x \<in> sems \<Longrightarrow> 0 < sy_limit s x" "x \<in> sems \<Longrightarrow> sem_level s x \<le> sy_limit s x"
    "x \<in> sems \<Longrightarrow> sy_wait_q s x \<noteq> [] \<Longrightarrow> sem_level s x = 0"
  using assms by (auto simp: sem_sys_inv_def)

text \<open>A call on one semaphore keeps the invariant when it does so there.\<close>

lemma sem_sys_inv_one:
  assumes inv: "sem_sys_inv sems (pc, s)" and "poll_inv (pc, sy_poll s')"
    and "\<And>t. t \<in> set (sy_wait_q s' sem) \<Longrightarrow> pc t = PC_out" and "sy_limit s' = sy_limit s"
    and "\<And>x. x \<noteq> sem \<Longrightarrow> sy_wait_q s' x = sy_wait_q s x \<and> sem_level s' x = sem_level s x"
    and "sem_level s' sem \<le> sy_limit s sem" and "sy_wait_q s' sem \<noteq> [] \<Longrightarrow> sem_level s' sem = 0"
  shows "sem_sys_inv sems (pc, s')"
  unfolding sem_sys_inv_def fst_conv snd_conv
proof (intro conjI ballI allI impI)
  show "pc t = PC_out" if "t \<in> set (sy_wait_q s' x)" for x t
    using that assms(3) [of t] assms(5) [of x] sem_sys_invD(2) [OF inv, of t x] by (cases "x = sem") auto
  show "0 < sy_limit s' x" if "x \<in> sems" for x
    using sem_sys_invD(3) [OF inv that] assms(4) by simp
  show "sem_level s' x \<le> sy_limit s' x" if "x \<in> sems" for x
    using sem_sys_invD(4) [OF inv that] assms(4,6) assms(5) [of x] by (cases "x = sem") auto
  show "sem_level s' x = 0" if "x \<in> sems" "sy_wait_q s' x \<noteq> []" for x
    using sem_sys_invD(5) [OF inv, of x] that assms(7) assms(5) [of x] by (cases "x = sem") auto
qed (rule assms(2))

lemma give_keeps:
  assumes inv: "sem_sys_inv sems (pc, s)" and sem: "sem \<in> sems" and run: "z_impl_k_sem_give padding sem s = Ret (b, s')"
  shows "sem_sys_inv sems (pc, s')"
proof (cases "sy_wait_q s sem")
  case Nil
  let ?n = "if sem_level s sem < sy_limit s sem then sem_level s sem + 1 else sem_level s sem"
  have h: "handle_poll_events sem (set_level sem ?n (set_wait_q sem [] s)) = Ret (b, s')"
    using run Nil by (simp add: give_eq)
  have "?n \<le> sy_limit s sem"
    using sem_sys_invD(4) [OF inv sem] by (simp add: inc_le)
  then show ?thesis
    using Nil handle_poll_fields [OF h] poll_keeps(4) [OF poll_keeps(1) [OF poll_keeps(2) [OF sem_sys_invD(1) [OF inv]]] h]
    by (intro sem_sys_inv_one [OF inv, of _ sem]) (simp_all add: set_level_def set_wait_q_def)
next
  case (Cons t ws)
  have out: "pc u = PC_out" if "u \<in> set (t # ws)" for u
    using sem_sys_invD(2) [OF inv, of u sem] Cons that by simp
  have "s' = wake_thread t 0 (set_wait_q sem ws s)" using run Cons by (simp add: give_eq)
  then show ?thesis
    using out poll_keeps(3) [OF poll_keeps(2) [OF sem_sys_invD(1) [OF inv]], of t 0 sem ws]
      sem_sys_invD(4,5) [OF inv sem] Cons
    by (intro sem_sys_inv_one [OF inv, of _ sem]) (simp_all add: wake_thread_def set_wait_q_def)
qed

lemma take_keeps:
  assumes enq: "\<And>t q. set (enq t q) = insert t (set q)"
    and inv: "sem_sys_inv sems (pc, s)" and sem: "sem \<in> sems" and t: "pc t = PC_out \<or> in_isr \<and> no_wait"
    and run: "z_impl_k_sem_take padding enq in_isr t sem no_wait s = Ret (out, s')"
  shows "sem_sys_inv sems (pc, s')"
proof -
  have tok: "s' = set_level sem (sem_level s sem - 1) s" if "0 < sem_level s sem" "s' \<noteq> s"
    using run that by (cases in_isr; cases no_wait) (auto simp: take_eq z_impl_k_sem_take_def [of _ _ True _ _ False])
  have none: "s' = s \<or> pc t = PC_out \<and> s' = set_wait_q sem (enq t (sy_wait_q s sem)) s" if "\<not> 0 < sem_level s sem"
    using run that t by (cases in_isr; cases no_wait) (auto simp: take_eq z_impl_k_sem_take_def [of _ _ True _ _ False])
  consider "0 < sem_level s sem" "s' = set_level sem (sem_level s sem - 1) s" | "s' = s"
    | "pc t = PC_out" "sem_level s sem = 0" "s' = set_wait_q sem (enq t (sy_wait_q s sem)) s"
    using tok none word_gt_0 [of "sem_level s sem"] by metis
  then show ?thesis
  proof cases
    case 1
    have "sy_wait_q s sem = []"
      using sem_sys_invD(5) [OF inv sem] 1(1) by (cases "sy_wait_q s sem") auto
    moreover have "poll_inv (pc, sy_poll s')" "sem_level s sem - 1 \<le> sy_limit s sem"
      using poll_keeps(1) [OF sem_sys_invD(1) [OF inv]] 1 dec_le [OF 1(1) sem_sys_invD(4) [OF inv sem]] by auto
    ultimately show ?thesis
      using 1(2) by (intro sem_sys_inv_one [OF inv, of _ sem]) (simp_all add: set_level_def)
  next
    case 3
    then show ?thesis
      using poll_keeps(2) [OF sem_sys_invD(1) [OF inv]] sem_sys_invD(2) [OF inv, of _ sem] enq
      by (intro sem_sys_inv_one [OF inv, of _ sem]) (auto simp: set_wait_q_def)
  qed (simp add: inv)
qed

lemma reset_keeps:
  assumes inv: "sem_sys_inv sems (pc, s)" and run: "z_impl_k_sem_reset sem s = Ret (b, s')"
  shows "sem_sys_inv sems (pc, s')"
proof -
  let ?s = "wake_all (sy_wait_q s sem) (set_wait_q sem [] s)"
  obtain a where a: "handle_poll_events sem (set_level sem 0 ?s) = Ret a" "snd a = s'"
    using run unfolding z_impl_k_sem_reset_def Let_def
    by (cases "handle_poll_events sem (set_level sem 0 ?s)") simp_all
  then have h: "handle_poll_events sem (set_level sem 0 ?s) = Ret (fst a, s')"
    by (cases a) simp
  have out: "\<forall>t\<in>set (sy_wait_q s sem). pc t = PC_out"
    using sem_sys_invD(2) [OF inv] by blast
  have "poll_inv (pc, sy_poll (set_wait_q sem [] s))"
    by (rule poll_keeps(2) [OF sem_sys_invD(1) [OF inv]])
  then have "poll_inv (pc, sy_poll ?s)"
    using out by (rule wake_all_keeps)
  then have "poll_inv (pc, sy_poll (set_level sem 0 ?s))"
    by (rule poll_keeps(1))
  then have "poll_inv (pc, sy_poll s')"
    using h by (rule poll_keeps(4))
  then show ?thesis
    using handle_poll_fields [OF h]
    by (intro sem_sys_inv_one [OF inv, of _ sem]) (simp_all add: set_level_def wake_all_fields set_wait_q_def)
qed

lemma take_timeout_keeps:
  assumes inv: "sem_sys_inv sems (pc, s)" and t: "t \<in> set (sy_wait_q s sem)"
  shows "sem_sys_inv sems (pc, wake_thread t EAGAIN (set_wait_q sem (remove1 t (sy_wait_q s sem)) s))"
proof -
  let ?s = "wake_thread t EAGAIN (set_wait_q sem (remove1 t (sy_wait_q s sem)) s)"
  have p: "poll_inv (pc, sy_poll ?s)"
    using poll_keeps(3) [OF poll_keeps(2) [OF sem_sys_invD(1) [OF inv]]] sem_sys_invD(2) [OF inv t] by blast
  have "pc u = PC_out" if "u \<in> set (remove1 t (sy_wait_q s x))" for u x
    using sem_sys_invD(2) [OF inv, of u x] that by (auto dest: notin_set_remove1)
  then show ?thesis
    using p t inv unfolding sem_sys_inv_def
    by (auto simp: wake_thread_def set_wait_q_def)
qed

lemma sem_sys_step_keeps:
  assumes enq: "\<And>t q. set (enq t q) = insert t (set q)"
    and step: "sem_sys_step cmp enq sems w w'" and inv: "sem_sys_inv sems w"
  shows "sem_sys_inv sems w'"
  using step
proof cases
  case polling
  then show ?thesis
    using inv poll_step_keeps [OF polling(3)] by (auto simp: sem_sys_inv_def)
qed (use inv in \<open>auto intro: give_keeps take_keeps [OF enq] reset_keeps take_timeout_keeps\<close>)

lemma sem_sys_run_keeps:
  assumes "\<And>t q. set (enq t q) = insert t (set q)" and "(sem_sys_step cmp enq sems)\<^sup>*\<^sup>* w w'" and "sem_sys_inv sems w"
  shows "sem_sys_inv sems w'"
  using assms(2,3) by (induction rule: rtranclp_induct) (auto intro: sem_sys_step_keeps [OF assms(1)])

section \<open>Properties\<close>

text \<open>
  C3: Semaphores, their takers and the pollers work together under every interleaving
  of gives, takes, resets, timeouts and polling. The count stays within the limit and no
  thread waits for a semaphore that has a token. A give never panics and is never idle: it
  hands the token to the first waiting thread, which becomes ready with return value 0,
  or else raises the count (unless it is at the limit) and makes the first thread that
  polls the semaphore ready, if it is pending, marking its event. A take gets a token exactly when there is
  one. The hypothesis on the wait queue insertion is that it adds the thread.
\<close>

theorem sem_give_never_idle:
  assumes enq: "\<And>t q. set (enq t q) = insert t (set q)"
    and run: "(sem_sys_step cmp enq sems)\<^sup>*\<^sup>* (pc0, s0) (pc, s)"
    and start: "\<forall>t. pc0 t = PC_out \<and> \<not> kt_pending (sy_poll s0) t" "\<forall>obj. ko_list (sy_poll s0) obj = []"
      "\<forall>x. sy_wait_q s0 x = []" "\<forall>x\<in>sems. 0 < sy_limit s0 x \<and> sem_level s0 x \<le> sy_limit s0 x"
    and sem: "sem \<in> sems"
  shows "sem_level s sem \<le> sy_limit s sem \<and> (0 < sem_level s sem \<longrightarrow> sy_wait_q s sem = []) \<and>
         (\<exists>b s'. z_impl_k_sem_give padding sem s = Ret (b, s') \<and>
            (\<forall>t ws. sy_wait_q s sem = t # ws \<longrightarrow>
               b \<and> sy_wait_q s' sem = ws \<and> sem_level s' sem = sem_level s sem \<and>
               kt_retval (sy_poll s') t = 0 \<and> kt_ready (sy_poll s') = kt_ready (sy_poll s) @ [t]) \<and>
            (sy_wait_q s sem = [] \<longrightarrow>
               unat (sem_level s' sem) = min (unat (sem_level s sem) + 1) (unat (sy_limit s sem)) \<and>
               (\<forall>t e es. ko_list (sy_poll s) sem = e # es \<and> ke_poller (kp_events (sy_poll s) e) = Some t \<and> kt_pending (sy_poll s) t \<longrightarrow>
                  b \<and> \<not> kt_pending (sy_poll s') t \<and> St_Sem \<in> ke_state (kp_events (sy_poll s') e) \<and>
                  (\<not> kt_blocked (sy_poll s) t \<longrightarrow> t \<in> set (kt_ready (sy_poll s')))))) \<and>
         (\<exists>out s'. z_impl_k_sem_take padding enq False t sem nw s = Ret (out, s') \<and>
            (out = Take_returns 0 \<longleftrightarrow> 0 < sem_level s sem))"
proof -
  have "sem_sys_inv sems (pc0, s0)"
    using start by (auto simp: sem_sys_inv_def intro: poll_inv_start)
  then have inv: "sem_sys_inv sems (pc, s)"
    by (rule sem_sys_run_keeps [OF enq run])
  then have p: "poll_inv (pc, sy_poll s)" and l: "sem_level s sem \<le> sy_limit s sem" "sy_wait_q s sem \<noteq> [] \<Longrightarrow> sem_level s sem = 0"
    using sem by (auto simp: sem_sys_inv_def)
  have take: "\<exists>out s'. z_impl_k_sem_take padding enq False t sem nw s = Ret (out, s') \<and> (out = Take_returns 0 \<longleftrightarrow> 0 < sem_level s sem)"
    by (auto simp: take_eq error_codes)
  have give: "\<exists>b s'. z_impl_k_sem_give padding sem s = Ret (b, s') \<and>
      (\<forall>t ws. sy_wait_q s sem = t # ws \<longrightarrow>
         b \<and> sy_wait_q s' sem = ws \<and> sem_level s' sem = sem_level s sem \<and>
         kt_retval (sy_poll s') t = 0 \<and> kt_ready (sy_poll s') = kt_ready (sy_poll s) @ [t]) \<and>
      (sy_wait_q s sem = [] \<longrightarrow>
         unat (sem_level s' sem) = min (unat (sem_level s sem) + 1) (unat (sy_limit s sem)) \<and>
         (\<forall>t e es. ko_list (sy_poll s) sem = e # es \<and> ke_poller (kp_events (sy_poll s) e) = Some t \<and> kt_pending (sy_poll s) t \<longrightarrow>
            b \<and> \<not> kt_pending (sy_poll s') t \<and> St_Sem \<in> ke_state (kp_events (sy_poll s') e) \<and>
            (\<not> kt_blocked (sy_poll s) t \<longrightarrow> t \<in> set (kt_ready (sy_poll s')))))"
  proof (cases "sy_wait_q s sem")
    case (Cons t ws)
    then show ?thesis by (auto simp: give_eq sem_upds)
  next
    case Nil
    let ?n = "if sem_level s sem < sy_limit s sem then sem_level s sem + 1 else sem_level s sem"
    let ?s = "set_level sem ?n (set_wait_q sem [] s)"
    have n: "unat ?n = min (unat (sem_level s sem) + 1) (unat (sy_limit s sem))"
      using l(1) unat_less_pow [of "sy_limit s sem"] u32_plus [of "sem_level s sem" 1]
      by (auto simp: word_less_nat_alt word_le_nat_alt min_def)
    obtain b p' where h: "z_handle_obj_poll_events sem St_Sem (sy_poll ?s) = Ret (b, p')"
      using handle_returns [OF poll_keeps(1) [OF poll_keeps(2) [OF p]]] by blast
    then have g: "z_impl_k_sem_give padding sem s = Ret (b, ?s\<lparr>sy_poll := p'\<rparr>)"
      using Nil by (simp add: give_eq handle_poll_events_def)
    have woken: "b \<and> \<not> kt_pending p' t \<and> St_Sem \<in> ke_state (kp_events p' e) \<and> (\<not> kt_blocked (sy_poll s) t \<longrightarrow> t \<in> set (kt_ready p'))"
      if "ko_list (sy_poll s) sem = e # es" "ke_poller (kp_events (sy_poll s) e) = Some t" "kt_pending (sy_poll s) t" for t e es
    proof -
      have "zp_mode (kp_pollers (sy_poll s) t) = MODE_POLL"
        using poll_invD(1) [OF p, of t] that(3) by (cases "pc t") auto
      then show ?thesis
        using handle_eq [of "sy_poll ?s" sem e es t St_Sem] that h by (auto simp: sem_upds notified_def)
    qed
    show ?thesis
      using g n woken Nil handle_level [OF h] by (auto simp: sem_upds)
  qed
  have "sy_wait_q s sem = []" if "0 < sem_level s sem"
    using l(2) that by (cases "sy_wait_q s sem") auto
  then show ?thesis
    using l(1) by (intro conjI impI give take) auto
qed

definition sem_example :: sem_sys where
  "sem_example = \<lparr>sy_poll = poll_example, sy_limit = (\<lambda>_. 2), sy_wait_q = (\<lambda>_. [])\<rparr>"

text \<open>Thread 1 waits for semaphore 9; a give makes it ready.\<close>

theorem sem_give_never_idle_witness:
  "\<exists>s b s'. z_impl_k_sem_take 0 (\<lambda>t q. q @ [t]) False 1 9 False sem_example = Ret (Take_pends, s) \<and>
     z_impl_k_sem_give 0 9 s = Ret (b, s') \<and> sy_wait_q s' 9 = [] \<and> kt_ready (sy_poll s') = [1]"
proof -
  let ?s = "set_wait_q 9 [1] sem_example" and ?enq = "\<lambda>t q. q @ [t] :: nat list"
  have take: "z_impl_k_sem_take 0 ?enq False 1 9 False sem_example = Ret (Take_pends, ?s)"
    by (simp add: take_eq sem_example_def poll_example_def)
  have "sem_sys_step (\<lambda>p q. 0) ?enq {9} (\<lambda>_. PC_out, sem_example) (\<lambda>_. PC_out, ?s)"
    by (rule sem_sys_step.take [OF _ _ _ take]) (simp_all add: sem_example_def)
  then have run: "(sem_sys_step (\<lambda>p q. 0) ?enq {9})\<^sup>*\<^sup>* (\<lambda>_. PC_out, sem_example) (\<lambda>_. PC_out, ?s)"
    by (rule r_into_rtranclp)
  have "\<exists>b s'. z_impl_k_sem_give 0 9 ?s = Ret (b, s') \<and> sy_wait_q s' 9 = [] \<and> kt_ready (sy_poll s') = [1]"
    using sem_give_never_idle [OF _ run, of 9 0 0 False]
    by (auto simp: sem_example_def poll_example_def set_wait_q_def)
  then show ?thesis using take by blast
qed

end
