(* ===== verification/Smp.thy ===== *)
theory Smp
  imports Counted Mpu
begin

text \<open>
  The multiprocessor modules: the nesting spin lock (src/spinlock.rs), the owner tags that
  detect its misuse (src/spinlock_validate.rs), the count of active CPUs
  (src/smp_state.rs), CPU affinity masks (src/cpu_mask.rs) and the choice of the CPUs to
  interrupt (src/ipi.rs), with the functions exported to C (ffi/src/lib.rs) and the C shims
  that call them (zephyr/gale_spinlock.c, gale_spinlock_validate.c, gale_smp_state.c,
  gale_cpu_mask.c and gale_ipi.c).
\<close>

section \<open>The nesting spin lock (src/spinlock.rs)\<close>

definition MAX_NEST_DEPTH :: u32 where
  "MAX_NEST_DEPTH = 255"

record spinlock_state =
  sp_owner :: "u32 option"
  nest_count :: u32
  irq_saved :: bool

definition spin_inv :: "spinlock_state \<Rightarrow> bool" where
  "spin_inv s \<longleftrightarrow> (sp_owner s \<noteq> None \<longleftrightarrow> nest_count s > 0) \<and> nest_count s \<le> MAX_NEST_DEPTH \<and>
    (sp_owner s = None \<longrightarrow> \<not> irq_saved s)"

definition spin_init :: spinlock_state where
  "spin_init = \<lparr>sp_owner = None, nest_count = 0, irq_saved = False\<rparr>"

definition spin_acquire_check :: "spinlock_state \<Rightarrow> u32 \<Rightarrow> bool" where
  "spin_acquire_check s tid \<longleftrightarrow> sp_owner s = None"

definition spin_acquire :: "spinlock_state \<Rightarrow> u32 \<Rightarrow> i32 \<times> spinlock_state" where
  "spin_acquire s tid =
    (if sp_owner s \<noteq> None then (EBUSY, s)
     else (OK_code, s\<lparr>sp_owner := Some tid, nest_count := 1, irq_saved := True\<rparr>))"

definition spin_acquire_nested :: "spinlock_state \<Rightarrow> u32 \<Rightarrow> (i32 \<times> spinlock_state) run" where
  "spin_acquire_nested s tid =
    (case sp_owner s of
      None \<Rightarrow> Ret (OK_code, s\<lparr>sp_owner := Some tid, nest_count := 1, irq_saved := True\<rparr>)
    | Some current_owner \<Rightarrow>
        if current_owner = tid then
          if nest_count s < MAX_NEST_DEPTH then do {
            n \<leftarrow> add_chk (nest_count s) 1;
            Ret (OK_code, s\<lparr>nest_count := n\<rparr>)
          } else Ret (EBUSY, s)
        else Ret (EBUSY, s))"

definition spin_release :: "spinlock_state \<Rightarrow> u32 \<Rightarrow> (i32 \<times> spinlock_state) run" where
  "spin_release s tid =
    (case sp_owner s of
      None \<Rightarrow> Ret (EPERM, s)
    | Some current_owner \<Rightarrow>
        if current_owner \<noteq> tid then Ret (EPERM, s)
        else if nest_count s \<le> 1 then
          Ret (OK_code, s\<lparr>sp_owner := None, nest_count := 0, irq_saved := False\<rparr>)
        else do {
          n \<leftarrow> sub_chk (nest_count s) 1;
          Ret (OK_code, s\<lparr>nest_count := n\<rparr>)
        })"

definition spin_is_held :: "spinlock_state \<Rightarrow> bool" where
  "spin_is_held s \<longleftrightarrow> sp_owner s \<noteq> None"

definition spin_is_free :: "spinlock_state \<Rightarrow> bool" where
  "spin_is_free s \<longleftrightarrow> sp_owner s = None"

definition spin_nest_depth :: "spinlock_state \<Rightarrow> u32" where
  "spin_nest_depth s = nest_count s"

definition spin_owner_get :: "spinlock_state \<Rightarrow> u32 option" where
  "spin_owner_get s = (case sp_owner s of None \<Rightarrow> None | Some tid \<Rightarrow> Some tid)"

definition spin_is_owner :: "spinlock_state \<Rightarrow> u32 \<Rightarrow> bool" where
  "spin_is_owner s tid = (case sp_owner s of None \<Rightarrow> False | Some current_owner \<Rightarrow> current_owner = tid)"

text \<open>
  The exported functions keep the owner as a number, 0 for a free lock. They write their
  results (nest count, owner) through two pointers; None means that nothing is written.
\<close>

definition gale_spinlock_acquire_check :: "u32 \<Rightarrow> i32" where
  "gale_spinlock_acquire_check owner_tid = (if owner_tid = 0 then 1 else 0)"

definition gale_spinlock_acquire :: "u32 \<Rightarrow> u32 \<Rightarrow> u32 \<Rightarrow> i32 \<times> (u32 \<times> u32) option" where
  "gale_spinlock_acquire owner_tid nest new_tid =
    (if owner_tid \<noteq> 0 then (-16, None) else (0, Some (1, new_tid)))"

definition gale_spinlock_acquire_nested :: "u32 \<Rightarrow> u32 \<Rightarrow> u32 \<Rightarrow> (i32 \<times> (u32 \<times> u32) option) run" where
  "gale_spinlock_acquire_nested owner_tid nest new_tid =
    (if owner_tid = 0 then Ret (0, Some (1, new_tid))
     else if owner_tid = new_tid then
       if nest < 255 then do {
         n \<leftarrow> add_chk nest 1;
         Ret (0, Some (n, owner_tid))
       } else Ret (-16, None)
     else Ret (-16, None))"

definition gale_spinlock_release :: "u32 \<Rightarrow> u32 \<Rightarrow> u32 \<Rightarrow> (i32 \<times> (u32 \<times> u32) option) run" where
  "gale_spinlock_release owner_tid nest tid =
    (if owner_tid = 0 \<or> owner_tid \<noteq> tid then Ret (-1, None)
     else if nest \<le> 1 then Ret (0, Some (0, 0))
     else do {
       n \<leftarrow> sub_chk nest 1;
       Ret (0, Some (n, owner_tid))
     })"

definition gale_spinlock_is_held :: "u32 \<Rightarrow> i32" where
  "gale_spinlock_is_held owner_tid = (if owner_tid \<noteq> 0 then 1 else 0)"

definition gale_spinlock_nest_depth :: "u32 \<Rightarrow> u32" where
  "gale_spinlock_nest_depth nest = nest"

text \<open>The C shim passes the same two cells in and out.\<close>

record spin_cells =
  c_owner :: u32
  c_nest :: u32

definition spin_write :: "spin_cells \<Rightarrow> i32 \<times> (u32 \<times> u32) option \<Rightarrow> i32 \<times> spin_cells" where
  "spin_write c r = (case snd r of None \<Rightarrow> (fst r, c) | Some (n, t) \<Rightarrow> (fst r, \<lparr>c_owner = t, c_nest = n\<rparr>))"

definition gale_spinlock_check_and_acquire :: "spin_cells \<Rightarrow> u32 \<Rightarrow> (i32 \<times> spin_cells) run" where
  "gale_spinlock_check_and_acquire c tid =
    Ret (spin_write c (gale_spinlock_acquire (c_owner c) (c_nest c) tid))"

definition gale_spinlock_check_and_acquire_nested :: "spin_cells \<Rightarrow> u32 \<Rightarrow> (i32 \<times> spin_cells) run" where
  "gale_spinlock_check_and_acquire_nested c tid = do {
    r \<leftarrow> gale_spinlock_acquire_nested (c_owner c) (c_nest c) tid;
    Ret (spin_write c r)
  }"

definition gale_spinlock_check_and_release :: "spin_cells \<Rightarrow> u32 \<Rightarrow> (i32 \<times> spin_cells) run" where
  "gale_spinlock_check_and_release c tid = do {
    r \<leftarrow> gale_spinlock_release (c_owner c) (c_nest c) tid;
    Ret (spin_write c r)
  }"

section \<open>Owner tags (src/spinlock_validate.rs, zephyr/gale_spinlock_validate.c)\<close>

text \<open>Addresses are 32 bits wide, as on the targets of the crate.\<close>

definition SPIN_MAX_CPUS :: u32 where
  "SPIN_MAX_CPUS = 4"

definition CPU_MASK :: u32 where
  "CPU_MASK = 3"

definition spin_lock_valid :: "u32 \<Rightarrow> u32 \<Rightarrow> bool" where
  "spin_lock_valid thread_cpu current_cpu_id =
    (if thread_cpu \<noteq> 0 then
       if thread_cpu AND CPU_MASK = current_cpu_id then False else True
     else True)"

definition spin_unlock_valid :: "u32 \<Rightarrow> u32 \<Rightarrow> u32 \<Rightarrow> bool" where
  "spin_unlock_valid thread_cpu current_cpu_id current_thread \<longleftrightarrow>
    thread_cpu = (current_cpu_id OR current_thread)"

definition spin_lock_compute_owner :: "u32 \<Rightarrow> u32 \<Rightarrow> u32" where
  "spin_lock_compute_owner current_cpu_id current_thread = (current_cpu_id OR current_thread)"

definition gale_spin_lock_valid :: "u32 \<Rightarrow> u32 \<Rightarrow> i32" where
  "gale_spin_lock_valid thread_cpu current_cpu_id =
    (if current_cpu_id \<ge> SPIN_MAX_CPUS then 0
     else if spin_lock_valid thread_cpu current_cpu_id then 1 else 0)"

definition gale_spin_unlock_valid :: "u32 \<Rightarrow> u32 \<Rightarrow> u32 \<Rightarrow> i32" where
  "gale_spin_unlock_valid thread_cpu current_cpu_id current_thread =
    (if current_cpu_id \<ge> SPIN_MAX_CPUS then 0
     else if spin_unlock_valid thread_cpu current_cpu_id current_thread then 1 else 0)"

definition gale_spin_lock_compute_owner :: "u32 \<Rightarrow> u32 \<Rightarrow> u32" where
  "gale_spin_lock_compute_owner current_cpu_id current_thread =
    (if current_cpu_id \<ge> SPIN_MAX_CPUS then 0
     else spin_lock_compute_owner current_cpu_id current_thread)"

text \<open>
  Where a C function runs: the number of the CPU, the address of the current thread (0
  before the first thread exists), and whether an interrupt handler runs on a dummy thread.
\<close>

record cpu_ctx =
  cx_cpu :: u32
  cx_current :: u32
  cx_isr_dummy :: bool

definition z_spin_lock_valid :: "cpu_ctx \<Rightarrow> u32 \<Rightarrow> bool" where
  "z_spin_lock_valid x thread_cpu =
    (if cx_current x = 0 then True else gale_spin_lock_valid thread_cpu (cx_cpu x) \<noteq> 0)"

definition z_spin_unlock_valid :: "cpu_ctx \<Rightarrow> u32 \<Rightarrow> bool \<times> u32" where
  "z_spin_unlock_valid x thread_cpu =
    ((if cx_current x = 0 then True
      else if cx_isr_dummy x then True
      else if thread_cpu = 0 then (cx_current x OR cx_cpu x) = 0
      else gale_spin_unlock_valid thread_cpu (cx_cpu x) (cx_current x) \<noteq> 0), 0)"

definition z_spin_lock_set_owner :: "cpu_ctx \<Rightarrow> u32 \<Rightarrow> u32" where
  "z_spin_lock_set_owner x thread_cpu = gale_spin_lock_compute_owner (cx_cpu x) (cx_current x)"

section \<open>Active CPUs (src/smp_state.rs, zephyr/gale_smp_state.c)\<close>

definition SMP_MAX_CPUS :: u32 where
  "SMP_MAX_CPUS = 16"

record smp_state =
  max_cpus :: u32
  active_cpus :: u32
  global_lock_count :: u32

definition smp_init :: "u32 \<Rightarrow> smp_state result" where
  "smp_init n =
    (if n = 0 \<or> n > SMP_MAX_CPUS then Err EINVAL
     else Ok \<lparr>max_cpus = n, active_cpus = 1, global_lock_count = 0\<rparr>)"

definition smp_inv :: "smp_state \<Rightarrow> bool" where
  "smp_inv s \<longleftrightarrow> 0 < max_cpus s \<and> max_cpus s \<le> SMP_MAX_CPUS \<and>
    active_cpus s \<ge> 1 \<and> active_cpus s \<le> max_cpus s"

definition start_cpu :: "smp_state \<Rightarrow> (i32 \<times> smp_state) run" where
  "start_cpu s =
    (if active_cpus s < max_cpus s then do {
       n \<leftarrow> add_chk (active_cpus s) 1;
       Ret (OK_code, s\<lparr>active_cpus := n\<rparr>)
     } else Ret (EBUSY, s))"

definition stop_cpu :: "smp_state \<Rightarrow> (i32 \<times> smp_state) run" where
  "stop_cpu s =
    (if active_cpus s > 1 then do {
       n \<leftarrow> sub_chk (active_cpus s) 1;
       Ret (OK_code, s\<lparr>active_cpus := n\<rparr>)
     } else Ret (EINVAL, s))"

definition resume_cpu :: "smp_state \<Rightarrow> (i32 \<times> smp_state) run" where
  "resume_cpu s = start_cpu s"

definition global_lock :: "smp_state \<Rightarrow> (i32 \<times> smp_state) run" where
  "global_lock s = do {
    n \<leftarrow> add_chk (global_lock_count s) 1;
    Ret (OK_code, s\<lparr>global_lock_count := n\<rparr>)
  }"

definition global_unlock :: "smp_state \<Rightarrow> (i32 \<times> smp_state) run" where
  "global_unlock s =
    (if global_lock_count s > 0 then do {
       n \<leftarrow> sub_chk (global_lock_count s) 1;
       Ret (OK_code, s\<lparr>global_lock_count := n\<rparr>)
     } else Ret (EINVAL, s))"

definition inactive_get :: "smp_state \<Rightarrow> u32 run" where
  "inactive_get s = sub_chk (max_cpus s) (active_cpus s)"

definition all_active :: "smp_state \<Rightarrow> bool" where
  "all_active s \<longleftrightarrow> active_cpus s = max_cpus s"

definition smp_is_locked :: "smp_state \<Rightarrow> bool" where
  "smp_is_locked s \<longleftrightarrow> global_lock_count s > 0"

definition start_cpu_decide :: "u32 \<Rightarrow> u32 \<Rightarrow> u32 result run" where
  "start_cpu_decide active n =
    (if active < n then do { a \<leftarrow> add_chk active 1; Ret (Ok a) } else Ret (Err EBUSY))"

definition stop_cpu_decide :: "u32 \<Rightarrow> u32 result run" where
  "stop_cpu_decide active =
    (if active > 1 then do { a \<leftarrow> sub_chk active 1; Ret (Ok a) } else Ret (Err EINVAL))"

text \<open>A validation writes the new count through a pointer, which may be null (None).\<close>

definition gale_smp_start_cpu_validate :: "u32 \<Rightarrow> u32 \<Rightarrow> u32 option \<Rightarrow> (i32 \<times> u32 option) run" where
  "gale_smp_start_cpu_validate active n new_active =
    (if new_active = None then Ret (EINVAL, None)
     else do {
       r \<leftarrow> start_cpu_decide active n;
       Ret (case r of Ok na \<Rightarrow> (OK_code, Some na) | Err e \<Rightarrow> (e, new_active))
     })"

definition gale_smp_stop_cpu_validate :: "u32 \<Rightarrow> u32 option \<Rightarrow> (i32 \<times> u32 option) run" where
  "gale_smp_stop_cpu_validate active new_active =
    (if new_active = None then Ret (EINVAL, None)
     else do {
       r \<leftarrow> stop_cpu_decide active;
       Ret (case r of Ok na \<Rightarrow> (OK_code, Some na) | Err e \<Rightarrow> (e, new_active))
     })"

text \<open>A decision is an action byte (0 for success) and the new count.\<close>

definition gale_smp_start_cpu_decide :: "u32 \<Rightarrow> u32 \<Rightarrow> (u8 \<times> u32) run" where
  "gale_smp_start_cpu_decide active n = do {
    r \<leftarrow> start_cpu_decide active n;
    Ret (case r of Ok new_active \<Rightarrow> (0, new_active) | Err _ \<Rightarrow> (1, active))
  }"

definition gale_smp_stop_cpu_decide :: "u32 \<Rightarrow> (u8 \<times> u32) run" where
  "gale_smp_stop_cpu_decide active = do {
    r \<leftarrow> stop_cpu_decide active;
    Ret (case r of Ok new_active \<Rightarrow> (0, new_active) | Err _ \<Rightarrow> (1, active))
  }"

text \<open>The shim keeps the count in the static variable gale_active_cpus, initially 1.\<close>

definition gale_active_cpus_0 :: u32 where
  "gale_active_cpus_0 = 1"

definition gale_smp_cpu_start_checked :: "u32 \<Rightarrow> u32 \<Rightarrow> (i32 \<times> u32) run" where
  "gale_smp_cpu_start_checked n gale_active_cpus = do {
    d \<leftarrow> gale_smp_start_cpu_decide gale_active_cpus n;
    Ret (if fst d = 1 then (EBUSY, gale_active_cpus) else (0, snd d))
  }"

definition gale_smp_cpu_stop_checked :: "u32 \<Rightarrow> (i32 \<times> u32) run" where
  "gale_smp_cpu_stop_checked gale_active_cpus = do {
    d \<leftarrow> gale_smp_stop_cpu_decide gale_active_cpus;
    Ret (if fst d = 1 then (EINVAL, gale_active_cpus) else (0, snd d))
  }"

section \<open>CPU affinity (src/cpu_mask.rs, zephyr/gale_cpu_mask.c)\<close>

record cpu_mask_result =
  cm_mask :: u32
  cm_error :: i32

definition validate_pin_mask :: "u32 \<Rightarrow> bool" where
  "validate_pin_mask m \<longleftrightarrow> m \<noteq> 0 \<and> m AND (m - 1) = 0"

definition cpu_mask_mod :: "u32 \<Rightarrow> u32 \<Rightarrow> u32 \<Rightarrow> bool \<Rightarrow> bool \<Rightarrow> cpu_mask_result" where
  "cpu_mask_mod current_mask enable disable is_running pin_only =
    (if is_running then \<lparr>cm_mask = current_mask, cm_error = EINVAL\<rparr>
     else let new_mask = (current_mask OR enable) AND NOT disable in
       if pin_only \<and> (new_mask = 0 \<or> new_mask AND (new_mask - 1) \<noteq> 0)
       then \<lparr>cm_mask = current_mask, cm_error = EINVAL\<rparr>
       else \<lparr>cm_mask = new_mask, cm_error = OK_code\<rparr>)"

definition cpu_pin_compute :: "u32 \<Rightarrow> u32 \<Rightarrow> u32 result run" where
  "cpu_pin_compute cpu_id n =
    (if n > 32 \<or> cpu_id \<ge> n then Ret (Err EINVAL)
     else do { m \<leftarrow> shl_chk 1 (unat cpu_id); Ret (Ok m) })"

definition gale_cpu_mask_mod :: "u32 \<Rightarrow> u32 \<Rightarrow> u32 \<Rightarrow> u32 \<Rightarrow> u32 \<Rightarrow> cpu_mask_result" where
  "gale_cpu_mask_mod current_mask enable disable is_running pin_only =
    cpu_mask_mod current_mask enable disable (is_running \<noteq> 0) (pin_only \<noteq> 0)"

definition gale_validate_pin_mask :: "u32 \<Rightarrow> i32" where
  "gale_validate_pin_mask m = (if validate_pin_mask m then 1 else 0)"

definition gale_cpu_pin_compute :: "u32 \<Rightarrow> u32 \<Rightarrow> cpu_mask_result run" where
  "gale_cpu_pin_compute cpu_id n = do {
    r \<leftarrow> cpu_pin_compute cpu_id n;
    Ret (case r of Ok m \<Rightarrow> \<lparr>cm_mask = m, cm_error = OK_code\<rparr>
                 | Err e \<Rightarrow> \<lparr>cm_mask = 0, cm_error = e\<rparr>)
  }"

text \<open>
  The fields of a k_thread that matter here. The width of cpu_mask is fixed by a Zephyr
  header: fit is the conversion of a 32-bit value to it. Whether the thread is prevented
  from running is the result of z_is_thread_prevented_from_running.
\<close>

record affine_thread =
  base_prio :: i32
  base_cpu_mask :: u32

definition gale_cpu_mask_mod_wrapper ::
  "(u32 \<Rightarrow> u32) \<Rightarrow> bool \<Rightarrow> affine_thread \<Rightarrow> u32 \<Rightarrow> u32 \<Rightarrow> u32 \<Rightarrow> i32 \<times> affine_thread" where
  "gale_cpu_mask_mod_wrapper fit prevented t enable disable pin_only =
    (let is_running = (if \<not> prevented then 1 else 0);
         r = gale_cpu_mask_mod (base_cpu_mask t) enable disable is_running pin_only
     in (cm_error r, if cm_error r = 0 then t\<lparr>base_cpu_mask := fit (cm_mask r)\<rparr> else t))"

text \<open>A shift of the macro BIT by 32 or more is undefined in C; here it is a panic.\<close>

definition k_thread_cpu_mask_clear :: "(u32 \<Rightarrow> u32) \<Rightarrow> bool \<Rightarrow> affine_thread \<Rightarrow> i32 \<times> affine_thread" where
  "k_thread_cpu_mask_clear fit prevented t = gale_cpu_mask_mod_wrapper fit prevented t 0 0xFFFFFFFF 0"

definition k_thread_cpu_mask_enable_all :: "(u32 \<Rightarrow> u32) \<Rightarrow> bool \<Rightarrow> affine_thread \<Rightarrow> i32 \<times> affine_thread" where
  "k_thread_cpu_mask_enable_all fit prevented t = gale_cpu_mask_mod_wrapper fit prevented t 0xFFFFFFFF 0 0"

definition k_thread_cpu_mask_enable ::
  "(u32 \<Rightarrow> u32) \<Rightarrow> bool \<Rightarrow> affine_thread \<Rightarrow> u32 \<Rightarrow> (i32 \<times> affine_thread) run" where
  "k_thread_cpu_mask_enable fit prevented t cpu = do {
    b \<leftarrow> shl_chk 1 (unat cpu);
    Ret (gale_cpu_mask_mod_wrapper fit prevented t b 0 0)
  }"

definition k_thread_cpu_mask_disable ::
  "(u32 \<Rightarrow> u32) \<Rightarrow> bool \<Rightarrow> affine_thread \<Rightarrow> u32 \<Rightarrow> (i32 \<times> affine_thread) run" where
  "k_thread_cpu_mask_disable fit prevented t cpu = do {
    b \<leftarrow> shl_chk 1 (unat cpu);
    Ret (gale_cpu_mask_mod_wrapper fit prevented t 0 b 0)
  }"

text \<open>The first argument is CONFIG_SCHED_CPU_MASK_PIN_ONLY, n is CONFIG_MP_MAX_NUM_CPUS.\<close>

definition k_thread_cpu_pin ::
  "bool \<Rightarrow> u32 \<Rightarrow> (u32 \<Rightarrow> u32) \<Rightarrow> bool \<Rightarrow> affine_thread \<Rightarrow> u32 \<Rightarrow> (i32 \<times> affine_thread) run" where
  "k_thread_cpu_pin pin_cfg n fit prevented t cpu =
    (if pin_cfg then do {
       pin \<leftarrow> gale_cpu_pin_compute cpu n;
       Ret (if cm_error pin \<noteq> 0 then (cm_error pin, t)
            else gale_cpu_mask_mod_wrapper fit prevented t (cm_mask pin) (NOT (cm_mask pin)) 1)
     } else do {
       m \<leftarrow> shl_chk 1 (unat cpu);
       Ret (gale_cpu_mask_mod_wrapper fit prevented t m (NOT m) 0)
     })"

section \<open>Inter-processor interrupts (src/ipi.rs, zephyr/gale_ipi.c)\<close>

function compute_ipi_loop :: "nat \<Rightarrow> i32 \<Rightarrow> u32 \<Rightarrow> i32 list \<Rightarrow> bool list \<Rightarrow> nat \<Rightarrow> nat \<Rightarrow> u32 \<Rightarrow> u32 run" where
  "compute_ipi_loop current_cpu target_prio target_cpu_mask cpu_prios cpu_active num_cpus idx m =
    (if idx < num_cpus then do {
       m' \<leftarrow> (if idx \<noteq> current_cpu then do {
          a \<leftarrow> arr_get cpu_active idx;
          if a then do {
            b \<leftarrow> shl_chk 1 idx;
            if target_cpu_mask AND b \<noteq> 0 then do {
              p \<leftarrow> arr_get cpu_prios idx;
              Ret (if p > target_prio then m OR b else m)
            } else Ret m
          } else Ret m
        } else Ret m);
       compute_ipi_loop current_cpu target_prio target_cpu_mask cpu_prios cpu_active num_cpus (idx + 1) m'
     } else Ret m)"
  by auto
termination
  by (relation "measure (\<lambda>(_, _, _, _, _, n, idx, _). n - idx)") auto

declare compute_ipi_loop.simps [simp del]

definition compute_ipi_mask :: "u32 \<Rightarrow> i32 \<Rightarrow> u32 \<Rightarrow> i32 list \<Rightarrow> bool list \<Rightarrow> u32 \<Rightarrow> u32 \<Rightarrow> u32 run" where
  "compute_ipi_mask current_cpu target_prio target_cpu_mask cpu_prios cpu_active num_cpus n =
    compute_ipi_loop (unat current_cpu) target_prio target_cpu_mask cpu_prios cpu_active (unat num_cpus) 0 0"

definition validate_ipi_mask :: "u32 \<Rightarrow> u32 \<Rightarrow> u32 \<Rightarrow> bool run" where
  "validate_ipi_mask m current_cpu n = do {
    current_bit \<leftarrow> shl_chk 1 (unat current_cpu);
    high \<leftarrow> shr_chk m (unat n);
    Ret (m AND current_bit = 0 \<and> high = 0)
  }"

text \<open>
  The two arrays come as pointers, which may be null; the code reads num_cpus elements of
  each.
\<close>

definition gale_compute_ipi_mask ::
  "u32 \<Rightarrow> i32 \<Rightarrow> u32 \<Rightarrow> i32 list option \<Rightarrow> u8 list option \<Rightarrow> u32 \<Rightarrow> u32 \<Rightarrow> u32 run" where
  "gale_compute_ipi_mask current_cpu target_prio target_cpu_mask cpu_prios cpu_active num_cpus n =
    (case (cpu_prios, cpu_active) of
      (Some prios, Some active_u8) \<Rightarrow>
        if num_cpus = 0 \<or> current_cpu \<ge> num_cpus \<or> num_cpus > n \<or> n > 16 then Ret 0
        else compute_ipi_mask current_cpu target_prio target_cpu_mask (take (unat num_cpus) prios)
               (map (\<lambda>a. a \<noteq> 0) (take (unat num_cpus) active_u8)) num_cpus n
    | _ \<Rightarrow> Ret 0)"

definition gale_validate_ipi_mask :: "u32 \<Rightarrow> u32 \<Rightarrow> u32 \<Rightarrow> i32 run" where
  "gale_validate_ipi_mask m current_cpu n =
    (if current_cpu \<ge> n \<or> n > 16 then Ret 0
     else do { v \<leftarrow> validate_ipi_mask m current_cpu n; Ret (if v then 1 else 0) })"

text \<open>
  One element of _kernel.cpus: the priority of its current thread, if it has one, the
  active flag of the ARM ports and whether its idle thread exists.
\<close>

record kernel_cpu =
  cpu_current_prio :: "i32 option"
  cpu_arm_active :: bool
  cpu_has_idle :: bool

definition ipi_cpu_data :: "bool \<Rightarrow> kernel_cpu \<Rightarrow> i32 \<times> u8" where
  "ipi_cpu_data arm c =
    (case cpu_current_prio c of
      Some p \<Rightarrow> (p, if (if arm then cpu_arm_active c else cpu_has_idle c) then 1 else 0)
    | None \<Rightarrow> (-1, 0))"

text \<open>
  The arguments arm and mask_cfg are the configuration (an ARM port, CONFIG_SCHED_CPU_MASK);
  num_cpus is arch_num_cpus(), n is CONFIG_MP_MAX_NUM_CPUS. The copying loop stops at 16.
\<close>

definition gale_ipi_mask_create ::
  "bool \<Rightarrow> bool \<Rightarrow> u32 \<Rightarrow> u32 \<Rightarrow> kernel_cpu list \<Rightarrow> u32 \<Rightarrow> affine_thread \<Rightarrow> u32 run" where
  "gale_ipi_mask_create arm mask_cfg num_cpus n cpus current_cpu t =
    (let copied = map (ipi_cpu_data arm) (take (min (unat num_cpus) 16) cpus);
         target_cpu_mask =
           (if mask_cfg then base_cpu_mask t
            else if num_cpus < 32 then push_bit (unat num_cpus) 1 - 1 else 0xFFFFFFFF)
     in gale_compute_ipi_mask current_cpu (base_prio t) target_cpu_mask
          (Some (map fst copied)) (Some (map snd copied)) num_cpus n)"

section \<open>The spin lock over sequences of calls\<close>

datatype spin_op = SpAcquire | SpNested | SpRelease

fun spin_call :: "spin_op \<Rightarrow> u32 \<Rightarrow> spinlock_state \<Rightarrow> (i32 \<times> spinlock_state) run" where
  "spin_call SpAcquire tid s = Ret (spin_acquire s tid)"
| "spin_call SpNested tid s = spin_acquire_nested s tid"
| "spin_call SpRelease tid s = spin_release s tid"

fun shim_spin_call :: "spin_op \<Rightarrow> u32 \<Rightarrow> spin_cells \<Rightarrow> (i32 \<times> spin_cells) run" where
  "shim_spin_call SpAcquire tid c = gale_spinlock_check_and_acquire c tid"
| "shim_spin_call SpNested tid c = gale_spinlock_check_and_acquire_nested c tid"
| "shim_spin_call SpRelease tid c = gale_spinlock_check_and_release c tid"

text \<open>The cells of a lock, and the lock that cells stand for.\<close>

definition spin_cells_of :: "spinlock_state \<Rightarrow> spin_cells" where
  "spin_cells_of s = \<lparr>c_owner = (case sp_owner s of None \<Rightarrow> 0 | Some t \<Rightarrow> t), c_nest = nest_count s\<rparr>"

definition spin_ok :: "spinlock_state \<Rightarrow> bool" where
  "spin_ok s \<longleftrightarrow> spin_inv s \<and> sp_owner s \<noteq> Some 0"

lemmas spin_defs = spin_ok_def spin_inv_def spin_cells_of_def spin_write_def MAX_NEST_DEPTH_def error_codes
  spin_acquire_def spin_acquire_nested_def spin_release_def
  gale_spinlock_acquire_def gale_spinlock_acquire_nested_def gale_spinlock_release_def
  gale_spinlock_check_and_acquire_def gale_spinlock_check_and_acquire_nested_def gale_spinlock_check_and_release_def

text \<open>How many nested acquisitions a thread holds after a call that returned a code.\<close>

fun spin_effect :: "spin_op \<Rightarrow> i32 \<Rightarrow> int" where
  "spin_effect op rc = (if rc \<noteq> 0 then 0 else if op = SpRelease then -1 else 1)"

definition spin_depth :: "spinlock_state \<Rightarrow> u32 \<Rightarrow> nat" where
  "spin_depth s t = (if sp_owner s = Some t then unat (nest_count s) else 0)"

definition spin_accepts :: "spin_op \<Rightarrow> u32 \<Rightarrow> (u32 \<Rightarrow> nat) \<Rightarrow> bool" where
  "spin_accepts op tid d = (case op of
     SpAcquire \<Rightarrow> \<forall>u. d u = 0
   | SpNested \<Rightarrow> (\<forall>u. u \<noteq> tid \<longrightarrow> d u = 0) \<and> d tid < 255
   | SpRelease \<Rightarrow> 0 < d tid)"

lemma spin_depth_zero: "spin_inv s \<Longrightarrow> spin_depth s t = 0 \<longleftrightarrow> sp_owner s \<noteq> Some t"
  by (auto simp: spin_depth_def spin_inv_def unat_gt_0 word_gt_0 unat_eq_0)

lemma spin_accepts_iff:
  assumes "spin_inv s"
  shows "spin_accepts op tid (spin_depth s) \<longleftrightarrow> (case op of
     SpAcquire \<Rightarrow> sp_owner s = None
   | SpNested \<Rightarrow> sp_owner s = None \<or> sp_owner s = Some tid \<and> nest_count s < MAX_NEST_DEPTH
   | SpRelease \<Rightarrow> sp_owner s = Some tid)"
proof (cases op)
  case SpAcquire
  then show ?thesis by (cases "sp_owner s") (simp_all add: spin_accepts_def spin_depth_zero [OF assms])
next
  case SpNested
  have "spin_depth s tid < 255 \<longleftrightarrow> sp_owner s \<noteq> Some tid \<or> nest_count s < MAX_NEST_DEPTH"
    by (simp add: spin_depth_def MAX_NEST_DEPTH_def word_less_nat_alt)
  then show ?thesis using SpNested
    by (cases "sp_owner s") (auto simp: spin_accepts_def spin_depth_zero [OF assms])
next
  case SpRelease
  have "0 < spin_depth s tid \<longleftrightarrow> spin_depth s tid \<noteq> 0" by simp
  then show ?thesis using SpRelease by (simp add: spin_accepts_def spin_depth_zero [OF assms])
qed

lemma spin_call_acquire:
  assumes "spin_ok s" and "tid \<noteq> 0"
  shows "\<exists>rc s'. spin_call SpAcquire tid s = Some (rc, s') \<and>
    shim_spin_call SpAcquire tid (spin_cells_of s) = Some (rc, spin_cells_of s') \<and> spin_ok s' \<and>
    (rc = 0 \<longleftrightarrow> sp_owner s = None) \<and>
    (\<forall>u. int (spin_depth s' u) = int (spin_depth s u) + (if u = tid then spin_effect SpAcquire rc else 0))"
  using assms by (cases "sp_owner s") (auto simp: spin_defs spin_depth_def)

lemma spin_call_nested:
  assumes "spin_ok s" and "tid \<noteq> 0"
  shows "\<exists>rc s'. spin_call SpNested tid s = Some (rc, s') \<and>
    shim_spin_call SpNested tid (spin_cells_of s) = Some (rc, spin_cells_of s') \<and> spin_ok s' \<and>
    (rc = 0 \<longleftrightarrow> sp_owner s = None \<or> sp_owner s = Some tid \<and> nest_count s < MAX_NEST_DEPTH) \<and>
    (\<forall>u. int (spin_depth s' u) = int (spin_depth s u) + (if u = tid then spin_effect SpNested rc else 0))"
proof (cases "sp_owner s = Some tid \<and> nest_count s < MAX_NEST_DEPTH")
  case True
  then obtain n where "add_chk (nest_count s) 1 = Some n" "unat n = unat (nest_count s) + 1"
    using add_chk_ex [of "nest_count s" 1] unat_plus_one [of "nest_count s" MAX_NEST_DEPTH] 
    by (auto simp: MAX_NEST_DEPTH_def word_less_nat_alt)
  then show ?thesis using True assms
    by (auto simp: spin_defs spin_depth_def word_less_nat_alt word_le_nat_alt)
next
  case False
  then show ?thesis using assms by (cases "sp_owner s") (auto simp: spin_defs spin_depth_def)
qed

lemma spin_call_release:
  assumes "spin_ok s" and "tid \<noteq> 0"
  shows "\<exists>rc s'. spin_call SpRelease tid s = Some (rc, s') \<and>
    shim_spin_call SpRelease tid (spin_cells_of s) = Some (rc, spin_cells_of s') \<and> spin_ok s' \<and>
    (rc = 0 \<longleftrightarrow> sp_owner s = Some tid) \<and>
    (\<forall>u. int (spin_depth s' u) = int (spin_depth s u) + (if u = tid then spin_effect SpRelease rc else 0))"
proof (cases "sp_owner s = Some tid \<and> \<not> nest_count s \<le> 1")
  case True
  then obtain n where "sub_chk (nest_count s) 1 = Some n" "unat n = unat (nest_count s) - 1"
    using sub_chk_ex [of 1 "nest_count s"] by (auto simp: word_le_nat_alt)
  then show ?thesis using True assms
    by (auto simp: spin_defs spin_depth_def word_less_nat_alt word_le_nat_alt of_nat_diff)
next
  case False
  moreover have "nest_count s \<le> 1 \<Longrightarrow> nest_count s > 0 \<Longrightarrow> unat (nest_count s) = 1"
    by (simp add: word_le_nat_alt word_less_nat_alt)
  ultimately show ?thesis using assms by (cases "sp_owner s") (auto simp: spin_defs spin_depth_def)
qed

lemma spin_call_ok:
  assumes "spin_ok s" and "tid \<noteq> 0"
  shows "\<exists>rc s'. spin_call op tid s = Some (rc, s') \<and>
    shim_spin_call op tid (spin_cells_of s) = Some (rc, spin_cells_of s') \<and> spin_ok s' \<and>
    (rc = 0 \<longleftrightarrow> spin_accepts op tid (spin_depth s)) \<and>
    (\<forall>u. int (spin_depth s' u) = int (spin_depth s u) + (if u = tid then spin_effect op rc else 0))"
proof -
  have inv: "spin_inv s" using assms(1) by (simp add: spin_ok_def)
  show ?thesis
  proof (cases op)
    case SpAcquire
    then show ?thesis using spin_call_acquire [OF assms] by (simp only: spin_accepts_iff [OF inv] spin_op.case)
  next
    case SpNested
    then show ?thesis using spin_call_nested [OF assms] by (simp only: spin_accepts_iff [OF inv] spin_op.case)
  next
    case SpRelease
    then show ?thesis using spin_call_release [OF assms] by (simp only: spin_accepts_iff [OF inv] spin_op.case)
  qed
qed

text \<open>The calls of the shim by any threads, with the code each returned.\<close>

inductive spin_step :: "spin_cells \<Rightarrow> spin_op \<times> u32 \<times> i32 \<Rightarrow> spin_cells \<Rightarrow> bool" where
  spin_step: "tid \<noteq> 0 \<Longrightarrow> shim_spin_call op tid c = Some (rc, c') \<Longrightarrow> spin_step c (op, tid, rc) c'"

inductive_cases spin_stepE: "spin_step c e c'"

text \<open>Successful acquisitions minus successful releases of a thread.\<close>

definition spin_held :: "(spin_op \<times> u32 \<times> i32) list \<Rightarrow> u32 \<Rightarrow> int" where
  "spin_held es u = sum_list (map (\<lambda>(op, tid, rc). if u = tid then spin_effect op rc else 0) es)"

lemma spin_trace_object:
  assumes "trace spin_step (spin_cells_of spin_init) es c"
  shows "\<exists>s. spin_ok s \<and> c = spin_cells_of s \<and> (\<forall>u. int (spin_depth s u) = spin_held es u)"
  using assms
proof (induction rule: trace.induct)
  case trace_Nil
  have "spin_ok spin_init \<and> (\<forall>u. int (spin_depth spin_init u) = spin_held [] u)"
    by (simp add: spin_ok_def spin_inv_def spin_init_def spin_depth_def spin_held_def)
  then show ?case by blast
next
  case (trace_snoc es c e c')
  then obtain s where s: "spin_ok s" "c = spin_cells_of s" "\<forall>u. int (spin_depth s u) = spin_held es u" by blast
  obtain op tid rc where e: "e = (op, tid, rc)" "tid \<noteq> 0" "shim_spin_call op tid c = Some (rc, c')"
    using trace_snoc.hyps(2) by (auto elim: spin_stepE)
  obtain s' where "c' = spin_cells_of s'" "spin_ok s'"
      "\<forall>u. int (spin_depth s' u) = int (spin_depth s u) + (if u = tid then spin_effect op rc else 0)"
    using spin_call_ok [OF s(1) e(2), of op] e(3) s(2) by auto
  then show ?case using s(3) by (intro exI [of _ s']) (simp add: e(1) spin_held_def)
qed

lemma spin_depth_bounds:
  assumes "spin_ok s"
  shows "spin_depth s t \<le> 255" and "t \<noteq> u \<Longrightarrow> spin_depth s t = 0 \<or> spin_depth s u = 0"
  using assms by (auto simp: spin_depth_def spin_ok_def spin_inv_def MAX_NEST_DEPTH_def word_le_nat_alt)

lemma spin_cells_depth:
  assumes "spin_ok s" and "t \<noteq> 0"
  shows "spin_depth s t = (if c_owner (spin_cells_of s) = t then unat (c_nest (spin_cells_of s)) else 0)"
  using assms by (auto simp: spin_depth_def spin_ok_def spin_inv_def spin_cells_of_def split: option.splits)

text \<open>
  C34: Over every sequence of calls that threads make on a spin lock through the C shim, the
  owner and nest count cells tell for each thread how many acquisitions it has not yet
  released; at most one thread has any, and never more than 255. The next call returns
  (no panic), and it succeeds exactly when it should: a plain acquire when no thread holds
  the lock, a nested one when no other thread does and the depth is below 255, a release
  when the caller holds the lock.
\<close>

theorem spinlock_exclusive:
  assumes "trace spin_step (spin_cells_of spin_init) es c"
  shows "(\<forall>t. t \<noteq> 0 \<longrightarrow> spin_held es t = int (if c_owner c = t then unat (c_nest c) else 0)) \<and>
         (\<forall>t. 0 \<le> spin_held es t \<and> spin_held es t \<le> 255) \<and>
         (\<forall>t u. 0 < spin_held es t \<and> 0 < spin_held es u \<longrightarrow> t = u) \<and>
         (\<forall>op tid. tid \<noteq> 0 \<longrightarrow> (\<exists>rc c'. shim_spin_call op tid c = Some (rc, c') \<and>
            (rc = 0 \<longleftrightarrow> spin_accepts op tid (\<lambda>u. nat (spin_held es u)))))"
proof -
  obtain s where s: "spin_ok s" "c = spin_cells_of s" and h: "\<And>u. spin_held es u = int (spin_depth s u)"
    using spin_trace_object [OF assms] by metis
  have "\<forall>t. t \<noteq> 0 \<longrightarrow> spin_held es t = int (if c_owner c = t then unat (c_nest c) else 0)"
    using spin_cells_depth [OF s(1)] by (simp add: h s(2) del: of_nat_unat)
  moreover have "\<forall>t. 0 \<le> spin_held es t \<and> spin_held es t \<le> 255"
    using spin_depth_bounds(1) [OF s(1)] by (simp add: h)
  moreover have "\<forall>t u. 0 < spin_held es t \<and> 0 < spin_held es u \<longrightarrow> t = u"
    using spin_depth_bounds(2) [OF s(1)] by (metis h of_nat_0_less_iff less_irrefl)
  moreover have "\<forall>op tid. tid \<noteq> 0 \<longrightarrow> (\<exists>rc c'. shim_spin_call op tid c = Some (rc, c') \<and>
      (rc = 0 \<longleftrightarrow> spin_accepts op tid (\<lambda>u. nat (spin_held es u))))"
    using spin_call_ok [OF s(1)] by (fastforce simp: h s(2))
  ultimately show ?thesis by blast
qed

lemma spin_example:
  "trace spin_step (spin_cells_of spin_init) [(SpAcquire, 7, 0), (SpNested, 7, 0)] \<lparr>c_owner = 7, c_nest = 2\<rparr>"
proof (rule trace_two)
  show "spin_step (spin_cells_of spin_init) (SpAcquire, 7, 0) \<lparr>c_owner = 7, c_nest = 1\<rparr>"
    by (rule spin_step) (simp_all add: spin_defs spin_init_def)
  show "spin_step \<lparr>c_owner = 7, c_nest = 1\<rparr> (SpNested, 7, 0) \<lparr>c_owner = 7, c_nest = 2\<rparr>"
    by (rule spin_step) (simp_all add: spin_defs add_chk_def)
qed

theorem spinlock_exclusive_witness:
  "\<exists>rc c'. shim_spin_call SpRelease 7 \<lparr>c_owner = 7, c_nest = 2\<rparr> = Some (rc, c') \<and> (rc = 0 \<longleftrightarrow> 0 < (2 :: nat))"
proof -
  have acc: "spin_accepts SpRelease 7 (\<lambda>u. nat (spin_held [(SpAcquire, 7, 0), (SpNested, 7, 0)] u)) \<longleftrightarrow> 0 < (2 :: nat)"
    by (simp add: spin_accepts_def spin_held_def)
  have "(7 :: u32) \<noteq> 0" by simp
  with spinlock_exclusive [OF spin_example, THEN conjunct2, THEN conjunct2, THEN conjunct2, rule_format, of 7 SpRelease]
  show ?thesis unfolding acc .
qed

section \<open>Owner tags\<close>

lemma tag_bits:
  fixes cpu thread :: u32
  assumes "cpu < 4" and "thread AND 3 = 0"
  shows "(cpu OR thread) AND 3 = cpu" and "(cpu OR thread) AND NOT 3 = thread"
proof -
  have c: "cpu AND 3 = cpu" using assms(1) mask_eq_iff [of cpu 2] by (simp add: mask_eq_exp_minus_1 word_less_def)
  show "(cpu OR thread) AND 3 = cpu" using assms(2) c by (simp add: bit.conj_disj_distrib2)
  have "cpu AND NOT 3 = (cpu AND 3) AND NOT 3" using c by simp
  then have "cpu AND NOT 3 = 0" by (simp only: and.assoc) simp
  moreover have "thread AND NOT 3 = thread"
  proof -
    have "thread = thread AND (3 OR NOT 3)" by (simp only: bit.disj_cancel_right bit.conj_one_right)
    also have "\<dots> = thread AND NOT 3" by (simp only: bit.conj_disj_distrib assms(2) or.left_neutral)
    finally show ?thesis by simp
  qed
  ultimately show "(cpu OR thread) AND NOT 3 = thread" by (simp add: bit.conj_disj_distrib2)
qed

text \<open>
  The owner tag of a spin lock identifies the CPU and the thread that took it. After
  z_spin_lock_set_owner by a thread on a CPU, the lock check fails on that CPU and on no
  other, and the unlock check succeeds for that thread on that CPU and for no one else (a
  check before the first thread exists or in an interrupt handler that aborted its thread
  always passes). The unlock check clears the tag: after it a lock is valid on every CPU
  and a second unlock is refused.
\<close>

theorem spin_tag_exact:
  fixes x y :: cpu_ctx and l :: u32
  assumes "cx_cpu x < 4" "cx_current x \<noteq> 0" "cx_current x AND 3 = 0"
    and "cx_cpu y < 4" "cx_current y \<noteq> 0" "cx_current y AND 3 = 0" "\<not> cx_isr_dummy y"
  defines "tag \<equiv> z_spin_lock_set_owner x l"
  shows "(z_spin_lock_valid y tag \<longleftrightarrow> cx_cpu y \<noteq> cx_cpu x) \<and>
         (fst (z_spin_unlock_valid y tag) \<longleftrightarrow> cx_cpu y = cx_cpu x \<and> cx_current y = cx_current x) \<and>
         (\<forall>z. z_spin_lock_valid z (snd (z_spin_unlock_valid y tag)) \<longleftrightarrow> cx_current z = 0 \<or> cx_cpu z < 4) \<and>
         \<not> fst (z_spin_unlock_valid y (snd (z_spin_unlock_valid y tag)))"
proof -
  have tag: "tag = (cx_cpu x OR cx_current x)"
    using assms(1) by (auto simp: tag_def z_spin_lock_set_owner_def gale_spin_lock_compute_owner_def
        spin_lock_compute_owner_def SPIN_MAX_CPUS_def dest: leD)
  have nz: "tag \<noteq> 0" using tag assms(2) by (metis or_eq_0_iff)
  have low: "tag AND 3 = cx_cpu x" and high: "tag AND NOT 3 = cx_current x"
    using tag_bits [OF assms(1,3)] by (simp_all add: tag)
  have eq: "tag = (cx_cpu y OR cx_current y) \<longleftrightarrow> cx_cpu y = cx_cpu x \<and> cx_current y = cx_current x"
    using tag_bits [OF assms(4,6)] low high tag by auto
  have "cx_current y OR cx_cpu y \<noteq> 0" using assms(5) by (simp add: or_eq_0_iff)
  then show ?thesis
    using nz low eq assms(4,5,7)
    by (auto simp: z_spin_lock_valid_def z_spin_unlock_valid_def gale_spin_lock_valid_def gale_spin_unlock_valid_def
        spin_lock_valid_def spin_unlock_valid_def CPU_MASK_def SPIN_MAX_CPUS_def)
qed

theorem spin_tag_exact_witness:
  "\<not> z_spin_lock_valid \<lparr>cx_cpu = 1, cx_current = 0x20, cx_isr_dummy = False\<rparr>
      (z_spin_lock_set_owner \<lparr>cx_cpu = 1, cx_current = 0x10, cx_isr_dummy = False\<rparr> 0)"
  using spin_tag_exact [of "\<lparr>cx_cpu = 1, cx_current = 0x10, cx_isr_dummy = False\<rparr>"
      "\<lparr>cx_cpu = 1, cx_current = 0x20, cx_isr_dummy = False\<rparr>" 0] by simp

section \<open>Active CPUs\<close>

lemma smp_level: "smp_inv s \<Longrightarrow> unat (active_cpus s) - 1 \<le> unat (max_cpus s) - 1"
  by (simp add: smp_inv_def word_le_nat_alt diff_le_mono)

interpretation active_count: bounded_counter "\<lambda>s. unat (active_cpus s) - 1" "\<lambda>s. unat (max_cpus s) - 1"
  smp_inv start_cpu stop_cpu EBUSY EINVAL
proof unfold_locales
  fix s assume inv: "smp_inv s"
  show "unat (active_cpus s) - 1 \<le> unat (max_cpus s) - 1" by (rule smp_level [OF inv])
  show "\<exists>s'. start_cpu s = Some (OK_code, s') \<and> smp_inv s' \<and> unat (active_cpus s') - 1 = Suc (unat (active_cpus s) - 1) \<and>
      unat (max_cpus s') - 1 = unat (max_cpus s) - 1" if "unat (active_cpus s) - 1 < unat (max_cpus s) - 1"
    using that inv add_chk_ex [of "active_cpus s" 1]
    by (auto simp: start_cpu_def smp_inv_def SMP_MAX_CPUS_def word_le_nat_alt word_less_nat_alt)
  show "start_cpu s = Some (EBUSY, s)" if "unat (active_cpus s) - 1 = unat (max_cpus s) - 1"
    using that inv by (auto simp: start_cpu_def smp_inv_def word_le_nat_alt word_less_nat_alt)
  show "\<exists>s'. stop_cpu s = Some (OK_code, s') \<and> smp_inv s' \<and> Suc (unat (active_cpus s') - 1) = unat (active_cpus s) - 1 \<and>
      unat (max_cpus s') - 1 = unat (max_cpus s) - 1" if "0 < unat (active_cpus s) - 1"
    using that inv sub_chk_ex [of 1 "active_cpus s"]
    by (auto simp: stop_cpu_def smp_inv_def word_le_nat_alt word_less_nat_alt)
  show "stop_cpu s = Some (EINVAL, s)" if "unat (active_cpus s) - 1 = 0"
    using that inv by (auto simp: stop_cpu_def smp_inv_def word_le_nat_alt word_less_nat_alt)
qed (simp_all add: error_codes)

text \<open>The static counter of the shim provides the same contract, for every maximum n.\<close>

interpretation shim_active: bounded_counter "\<lambda>a. unat a - 1" "\<lambda>a. unat n - 1"
  "\<lambda>a. 1 \<le> a \<and> a \<le> n" "gale_smp_cpu_start_checked n" gale_smp_cpu_stop_checked EBUSY EINVAL for n
proof unfold_locales
  fix a assume inv: "1 \<le> a \<and> a \<le> n"
  note smp_defs = gale_smp_cpu_start_checked_def gale_smp_start_cpu_decide_def start_cpu_decide_def
    gale_smp_cpu_stop_checked_def gale_smp_stop_cpu_decide_def stop_cpu_decide_def word_le_nat_alt word_less_nat_alt
  show "unat a - 1 \<le> unat n - 1" using inv by (simp add: word_le_nat_alt diff_le_mono)
  show "\<exists>a'. gale_smp_cpu_start_checked n a = Some (OK_code, a') \<and> (1 \<le> a' \<and> a' \<le> n) \<and>
      unat a' - 1 = Suc (unat a - 1) \<and> unat n - 1 = unat n - 1" if "unat a - 1 < unat n - 1"
    using that inv add_chk_ex [of a 1] unat_u32_less [of n] by (auto simp: smp_defs error_codes)
  show "gale_smp_cpu_start_checked n a = Some (EBUSY, a)" if "unat a - 1 = unat n - 1"
    using that inv by (auto simp: smp_defs)
  show "\<exists>a'. gale_smp_cpu_stop_checked a = Some (OK_code, a') \<and> (1 \<le> a' \<and> a' \<le> n) \<and>
      Suc (unat a' - 1) = unat a - 1 \<and> unat n - 1 = unat n - 1" if "0 < unat a - 1"
    using that inv sub_chk_ex [of 1 a] by (auto simp: smp_defs error_codes)
  show "gale_smp_cpu_stop_checked a = Some (EINVAL, a)" if "unat a - 1 = 0"
    using that inv by (auto simp: smp_defs)
qed (simp_all add: error_codes)

text \<open>
  So over any sequence of starts and stops the object and the shim agree on every code:
  both count the active CPUs above the first one.
\<close>

lemma smp_shim_agrees:
  assumes "smp_inv s"
  shows "\<exists>codes s' a'. counter_run start_cpu stop_cpu fs s = Some (codes, s') \<and>
    counter_run (gale_smp_cpu_start_checked (max_cpus s)) gale_smp_cpu_stop_checked fs (active_cpus s) = Some (codes, a') \<and>
    a' = active_cpus s'"
proof -
  have inv: "1 \<le> active_cpus s \<and> active_cpus s \<le> max_cpus s" using assms by (simp add: smp_inv_def)
  obtain s' where s': "counter_run start_cpu stop_cpu fs s =
      Some (fst (count_run EBUSY EINVAL (unat (max_cpus s) - 1) fs (unat (active_cpus s) - 1)), s')"
      "smp_inv s'" "unat (active_cpus s') - 1 = snd (count_run EBUSY EINVAL (unat (max_cpus s) - 1) fs (unat (active_cpus s) - 1))"
    using active_count.run_counts [OF assms] by blast
  obtain a' where a': "counter_run (gale_smp_cpu_start_checked (max_cpus s)) gale_smp_cpu_stop_checked fs (active_cpus s) =
      Some (fst (count_run EBUSY EINVAL (unat (max_cpus s) - 1) fs (unat (active_cpus s) - 1)), a')"
      "1 \<le> a'" "unat a' - 1 = snd (count_run EBUSY EINVAL (unat (max_cpus s) - 1) fs (unat (active_cpus s) - 1))"
    using shim_active.run_counts [OF inv] by blast
  have "1 \<le> active_cpus s'" using s'(2) by (simp add: smp_inv_def)
  then have "unat a' = unat (active_cpus s')" using s'(3) a'(2,3) by (simp add: word_le_nat_alt)
  then show ?thesis using s'(1) a'(1) by (auto simp: word_unat_eq_iff)
qed

section \<open>Affinity and interrupts\<close>

lemma and_bit_iff: "w AND push_bit i 1 \<noteq> 0 \<longleftrightarrow> bit w i" for w :: "'a::len word"
  by (simp add: push_bit_eq_mult and_exp_eq_0_iff_not_bit)

lemma bit_one_shifted: "bit (push_bit k 1 :: u32) i \<longleftrightarrow> i = k \<and> k < 32"
  by (auto simp: push_bit_eq_mult bit_exp_iff)

lemma compute_ipi_loop_bits:
  assumes "num \<le> length prios" "num \<le> length active" "num \<le> 32"
  shows "\<exists>r. compute_ipi_loop cur tp tm prios active num idx m = Some r \<and>
    (\<forall>i. bit r i \<longleftrightarrow> bit m i \<or> idx \<le> i \<and> i < num \<and> i \<noteq> cur \<and> active ! i \<and> bit tm i \<and> tp < prios ! i)"
proof (induction idx arbitrary: m rule: upto_induct [where n = num])
  case (stop idx)
  then show ?case by (subst compute_ipi_loop.simps) auto
next
  case (step idx)
  define hit where "hit \<longleftrightarrow> idx \<noteq> cur \<and> active ! idx \<and> bit tm idx \<and> tp < prios ! idx"
  define m' where "m' = (if hit then m OR push_bit idx 1 else m)"
  have "compute_ipi_loop cur tp tm prios active num idx m = compute_ipi_loop cur tp tm prios active num (idx + 1) m'"
    using step.hyps assms
    by (subst compute_ipi_loop.simps) (simp add: arr_get_def shl_chk_def and_exp_eq_0_iff_not_bit hit_def m'_def)
  moreover have "bit m' i \<longleftrightarrow> bit m i \<or> i = idx \<and> hit" for i
    using step.hyps assms(3) by (auto simp: m'_def bit_or_iff bit_exp_iff)
  moreover obtain r where "compute_ipi_loop cur tp tm prios active num (idx + 1) m' = Some r"
      "\<And>i. bit r i \<longleftrightarrow> bit m' i \<or> idx + 1 \<le> i \<and> i < num \<and> i \<noteq> cur \<and> active ! i \<and> bit tm i \<and> tp < prios ! i"
    using step.IH [of m'] by blast
  moreover have "idx \<le> i \<longleftrightarrow> i = idx \<or> idx + 1 \<le> i" for i by auto
  ultimately show ?case using step.hyps by (metis hit_def)
qed

text \<open>Whether an interrupt of a CPU makes it reconsider a thread.\<close>

definition ipi_useful :: "bool \<Rightarrow> kernel_cpu \<Rightarrow> affine_thread \<Rightarrow> bool" where
  "ipi_useful arm c t = (case cpu_current_prio c of
     None \<Rightarrow> False
   | Some p \<Rightarrow> base_prio t < p \<and> (if arm then cpu_arm_active c else cpu_has_idle c))"

lemma ipi_mask_create_bits:
  assumes "current_cpu < num" "num \<le> n" "n \<le> 16" "unat num \<le> length cpus"
  shows "\<exists>r. gale_ipi_mask_create arm True num n cpus current_cpu t = Some r \<and>
    (\<forall>i. bit r i \<longleftrightarrow> i < unat num \<and> i \<noteq> unat current_cpu \<and> bit (base_cpu_mask t) i \<and> ipi_useful arm (cpus ! i) t)"
proof -
  let ?k = "unat num"
  let ?data = "map (ipi_cpu_data arm) (take ?k cpus)"
  have k: "?k \<le> 16" "num \<noteq> 0" using assms(1-3) by (auto simp: word_le_nat_alt)
  have guards: "\<not> current_cpu \<ge> num" "\<not> num > n" "\<not> n > 16" using assms(1-3) by auto
  have eq: "gale_ipi_mask_create arm True num n cpus current_cpu t =
      compute_ipi_loop (unat current_cpu) (base_prio t) (base_cpu_mask t) (map fst ?data) (map (\<lambda>a. a \<noteq> 0) (map snd ?data)) ?k 0 0"
    using k guards by (simp add: gale_ipi_mask_create_def gale_compute_ipi_mask_def compute_ipi_mask_def Let_def min_absorb1 take_map comp_assoc)
  have useful: "(map (\<lambda>a. a \<noteq> 0) (map snd ?data)) ! i \<and> base_prio t < map fst ?data ! i \<longleftrightarrow> ipi_useful arm (cpus ! i) t" if "i < ?k" for i
    using that assms(4) by (auto simp: ipi_cpu_data_def ipi_useful_def split: option.splits)
  have "?k \<le> length (map fst ?data)" "?k \<le> length (map (\<lambda>a. a \<noteq> 0) (map snd ?data))" "?k \<le> 32"
    using assms(4) k by simp_all
  from compute_ipi_loop_bits [OF this, of "unat current_cpu" "base_prio t" "base_cpu_mask t" 0 0]
  obtain r where "gale_ipi_mask_create arm True num n cpus current_cpu t = Some r"
    "\<And>i. bit r i \<longleftrightarrow> i < ?k \<and> i \<noteq> unat current_cpu \<and> map (\<lambda>a. a \<noteq> 0) (map snd ?data) ! i \<and> bit (base_cpu_mask t) i \<and>
       base_prio t < map fst ?data ! i"
    unfolding eq by auto
  then show ?thesis using useful by metis
qed

lemma cpu_mask_mod_wrapper_ok:
  assumes "gale_cpu_mask_mod_wrapper fit prevented t enable disable pin_only = (0, t')"
  shows "prevented" and "t' = t\<lparr>base_cpu_mask := fit ((base_cpu_mask t OR enable) AND NOT disable)\<rparr>"
  using assms by (auto simp: gale_cpu_mask_mod_wrapper_def gale_cpu_mask_mod_def cpu_mask_mod_def Let_def error_codes OK_code_def split: if_splits)

lemma cpu_pin_mask:
  assumes "k_thread_cpu_pin pin_cfg n fit prevented t cpu = Some (0, t')"
  shows "prevented" and "unat cpu < 32" and "t' = t\<lparr>base_cpu_mask := fit (push_bit (unat cpu) 1)\<rparr>"
proof -
  have absorb: "(w OR m) AND NOT (NOT m) = m" for w m :: u32
    by (rule bit_eqI) (auto simp: bit_and_iff bit_or_iff)
  have "unat cpu < 32 \<and> (\<exists>pin. gale_cpu_mask_mod_wrapper fit prevented t (push_bit (unat cpu) 1) (NOT (push_bit (unat cpu) 1)) pin = (0, t'))"
    using assms
    by (cases pin_cfg) (auto simp: k_thread_cpu_pin_def gale_cpu_pin_compute_def cpu_pin_compute_def shl_chk_def error_codes
      split: if_splits)
  then obtain pin where "unat cpu < 32"
    and pin: "gale_cpu_mask_mod_wrapper fit prevented t (push_bit (unat cpu) 1) (NOT (push_bit (unat cpu) 1)) pin = (0, t')" by blast
  then show "prevented" "unat cpu < 32" "t' = t\<lparr>base_cpu_mask := fit (push_bit (unat cpu) 1)\<rparr>"
    using cpu_mask_mod_wrapper_ok [OF pin] by (simp_all only: absorb)
qed

lemma validate_ipi_mask_iff:
  assumes "current_cpu < n" "n \<le> 16"
  shows "gale_validate_ipi_mask r current_cpu n = Some (if (\<forall>i. bit r i \<longrightarrow> i \<noteq> unat current_cpu \<and> i < unat n) then 1 else 0)"
proof -
  have u: "unat current_cpu < unat n" "unat n \<le> 16" using assms by (simp_all add: word_le_nat_alt word_less_nat_alt)
  have "drop_bit (unat n) r = 0 \<longleftrightarrow> (\<forall>i. bit r i \<longrightarrow> i < unat n)"
  proof
    assume "drop_bit (unat n) r = 0"
    then have "\<not> bit (drop_bit (unat n) r) (i - unat n)" for i by simp
    then show "\<forall>i. bit r i \<longrightarrow> i < unat n" by (metis bit_drop_bit_eq comp_apply le_add_diff_inverse not_le_imp_less)
  next
    assume "\<forall>i. bit r i \<longrightarrow> i < unat n"
    then show "drop_bit (unat n) r = 0" by (intro bit_eqI) (auto simp: bit_drop_bit_eq)
  qed
  moreover have "r AND push_bit (unat current_cpu) 1 = 0 \<longleftrightarrow> \<not> bit r (unat current_cpu)" using and_bit_iff by blast
  moreover have "\<not> (current_cpu \<ge> n \<or> n > 16)" using assms by auto
  ultimately show ?thesis using u
    by (auto simp: gale_validate_ipi_mask_def validate_ipi_mask_def shl_chk_def shr_chk_def)
qed

text \<open>
  C35: Pinning a thread confines the interrupts sent for it. After a successful
  k_thread_cpu_pin, in either configuration, the mask that gale_ipi_mask_create computes
  for the thread has at most the bit of that CPU. The bit is set exactly when the CPU is
  running, is not the caller's own, and its current thread has a lower priority than the
  pinned one; and gale_validate_ipi_mask accepts the mask. The conversion to the width of
  the cpu_mask field is only required to keep the bits of the configured CPUs.
\<close>

theorem pinned_thread_ipi:
  assumes "\<And>m i. i < unat n \<Longrightarrow> bit (fit m) i = bit m i"
    and "k_thread_cpu_pin pin_cfg n fit prevented t cpu = Some (0, t')"
    and "current_cpu < num" "num \<le> n" "n \<le> 16" "unat num \<le> length cpus"
  shows "\<exists>r. gale_ipi_mask_create arm True num n cpus current_cpu t' = Some r \<and>
    (\<forall>i. bit r i \<longleftrightarrow> i = unat cpu \<and> cpu < num \<and> cpu \<noteq> current_cpu \<and> ipi_useful arm (cpus ! i) t) \<and>
    gale_validate_ipi_mask r current_cpu n = Some 1"
proof -
  have t': "unat cpu < 32" "t' = t\<lparr>base_cpu_mask := fit (push_bit (unat cpu) 1)\<rparr>" using cpu_pin_mask [OF assms(2)] by simp_all
  obtain r where r: "gale_ipi_mask_create arm True num n cpus current_cpu t' = Some r"
    "\<And>i. bit r i \<longleftrightarrow> i < unat num \<and> i \<noteq> unat current_cpu \<and> bit (base_cpu_mask t') i \<and> ipi_useful arm (cpus ! i) t'"
    using ipi_mask_create_bits [OF assms(3-6)] by metis
  have "bit (base_cpu_mask t') i \<longleftrightarrow> i = unat cpu" if "i < unat num" for i
    using that assms(4) assms(1) [of i "push_bit (unat cpu) 1"] t' bit_one_shifted [of "unat cpu" i] by (simp add: word_le_nat_alt)
  moreover have "ipi_useful arm c t' = ipi_useful arm c t" for c by (simp add: ipi_useful_def t'(2) cong: option.case_cong)
  ultimately have bits: "bit r i \<longleftrightarrow> i = unat cpu \<and> cpu < num \<and> cpu \<noteq> current_cpu \<and> ipi_useful arm (cpus ! i) t" for i
    using r(2) by (auto simp: word_less_nat_alt word_unat_eq_iff)
  have "\<forall>i. bit r i \<longrightarrow> i \<noteq> unat current_cpu \<and> i < unat n"
    using assms(4) r(2) by (auto simp: word_le_nat_alt)
  then have "gale_validate_ipi_mask r current_cpu n = Some 1"
    using validate_ipi_mask_iff [of current_cpu n r] assms(3-5) by simp
  then show ?thesis using r(1) bits by blast
qed

theorem pinned_thread_ipi_witness:
  "\<exists>r. gale_ipi_mask_create True True 2 4
      [\<lparr>cpu_current_prio = Some 0, cpu_arm_active = True, cpu_has_idle = True\<rparr>,
       \<lparr>cpu_current_prio = Some 5, cpu_arm_active = True, cpu_has_idle = True\<rparr>] 0
      \<lparr>base_prio = 3, base_cpu_mask = 2\<rparr> = Some r \<and> bit r 1 \<and> \<not> bit r 0"
proof -
  have "k_thread_cpu_pin True 4 (\<lambda>m. m) True \<lparr>base_prio = 3, base_cpu_mask = 0xFF\<rparr> 1 = Some (0, \<lparr>base_prio = 3, base_cpu_mask = 2\<rparr>)"
    by (simp add: k_thread_cpu_pin_def gale_cpu_pin_compute_def cpu_pin_compute_def shl_chk_def gale_cpu_mask_mod_wrapper_def
        gale_cpu_mask_mod_def cpu_mask_mod_def error_codes word_le_nat_alt)
  from pinned_thread_ipi [OF _ this, of 0 2
      "[\<lparr>cpu_current_prio = Some 0, cpu_arm_active = True, cpu_has_idle = True\<rparr>,
        \<lparr>cpu_current_prio = Some 5, cpu_arm_active = True, cpu_has_idle = True\<rparr>]" True]
  show ?thesis by (auto simp: ipi_useful_def)
qed

end
