(* ===== verification/Msgq_Shim.thy ===== *)
theory Msgq_Shim
  imports Msgq
begin

text \<open>
  The message queue as Zephyr calls it: the functions exported to C (the message queue
  section of ffi/src/lib.rs) and the C shim with its buffer of bytes and its blocked
  threads (zephyr/gale_msgq.c), in the configuration without polling.

  The functions of Zephyr the shim calls: enq is the insertion of a pending thread into a
  wait queue, z_unpend_first_thread takes the head of the queue, and a thread that is made
  ready gets its return value recorded. The memory a thread points to with swap_data (the
  message of a blocked writer, the receive buffer of a blocked reader) is a byte list.
\<close>

section \<open>The exported functions (ffi)\<close>

text \<open>An output pointer is an option with the old content, None when it is null.\<close>

definition gale_msgq_init_validate :: "u32 \<Rightarrow> u32 \<Rightarrow> u32 option \<Rightarrow> i32 \<times> u32 option" where
  "gale_msgq_init_validate msg_size max_msgs buffer_size =
     (if buffer_size = None then (EINVAL, None)
      else if msg_size = 0 \<or> max_msgs = 0 then (EINVAL, buffer_size)
      else case checked_mul msg_size max_msgs of
             Some n \<Rightarrow> (OK_code, Some n)
           | None \<Rightarrow> (EINVAL, buffer_size))"

text \<open>The callers below pass two valid pointers; the result None leaves them as they are.\<close>

definition gale_msgq_put :: "u32 \<Rightarrow> u32 \<Rightarrow> u32 \<Rightarrow> (i32 \<times> (u32 \<times> u32) option) run" where
  "gale_msgq_put write_idx used_msgs max_msgs =
     (if max_msgs = 0 then Ret (EINVAL, None)
      else do {
        r \<leftarrow> put_decide write_idx used_msgs max_msgs False True;
        Ret (case pd_decision r of
               PD_Store \<Rightarrow> (OK_code, Some (pd_new_write_idx r, pd_new_used r))
             | _ \<Rightarrow> (ENOMSG, None))
      })"

definition gale_msgq_put_front :: "u32 \<Rightarrow> u32 \<Rightarrow> u32 \<Rightarrow> (i32 \<times> (u32 \<times> u32) option) run" where
  "gale_msgq_put_front read_idx used_msgs max_msgs =
     (if max_msgs = 0 then Ret (EINVAL, None)
      else do {
        r \<leftarrow> put_front_decide read_idx used_msgs max_msgs;
        Ret (if pf_ok r then (OK_code, Some (pf_new_read_idx r, pf_new_used r)) else (ENOMSG, None))
      })"

definition gale_msgq_get :: "u32 \<Rightarrow> u32 \<Rightarrow> u32 \<Rightarrow> (i32 \<times> (u32 \<times> u32) option) run" where
  "gale_msgq_get read_idx used_msgs max_msgs =
     (if max_msgs = 0 then Ret (EINVAL, None)
      else do {
        r \<leftarrow> get_decide read_idx used_msgs max_msgs False True;
        Ret (case gd_decision r of
               GE_Read \<Rightarrow> (OK_code, Some (gd_new_read_idx r, gd_new_used r))
             | _ \<Rightarrow> (ENOMSG, None))
      })"

definition gale_msgq_peek_at :: "u32 \<Rightarrow> u32 \<Rightarrow> u32 \<Rightarrow> u32 \<Rightarrow> (i32 \<times> u32 option) run" where
  "gale_msgq_peek_at read_idx used_msgs max_msgs idx =
     (if max_msgs = 0 then Ret (EINVAL, None)
      else do {
        r \<leftarrow> peek_at_decide read_idx used_msgs max_msgs idx;
        Ret (if pk_ok r then (OK_code, Some (pk_slot_idx r)) else (ENOMSG, None))
      })"

record gale_msgq_decision =
  gm_ret :: i32
  gm_action :: u8
  gm_new_idx :: u32
  gm_new_used :: u32

definition gale_k_msgq_put_decide :: "u32 \<Rightarrow> u32 \<Rightarrow> u32 \<Rightarrow> u32 \<Rightarrow> u32 \<Rightarrow> gale_msgq_decision run" where
  "gale_k_msgq_put_decide write_idx used_msgs max_msgs has_waiter is_no_wait = do {
     r \<leftarrow> put_decide write_idx used_msgs max_msgs (has_waiter \<noteq> 0) (is_no_wait \<noteq> 0);
     Ret (case pd_decision r of
            PD_Store \<Rightarrow> \<lparr>gm_ret = OK_code, gm_action = 0, gm_new_idx = pd_new_write_idx r, gm_new_used = pd_new_used r\<rparr>
          | PD_WakeReader \<Rightarrow> \<lparr>gm_ret = OK_code, gm_action = 1, gm_new_idx = pd_new_write_idx r, gm_new_used = pd_new_used r\<rparr>
          | PD_Full \<Rightarrow> \<lparr>gm_ret = ENOMSG, gm_action = 3, gm_new_idx = pd_new_write_idx r, gm_new_used = pd_new_used r\<rparr>
          | PD_Pend \<Rightarrow> \<lparr>gm_ret = 0, gm_action = 2, gm_new_idx = pd_new_write_idx r, gm_new_used = pd_new_used r\<rparr>)
   }"

definition gale_k_msgq_get_decide :: "u32 \<Rightarrow> u32 \<Rightarrow> u32 \<Rightarrow> u32 \<Rightarrow> u32 \<Rightarrow> gale_msgq_decision run" where
  "gale_k_msgq_get_decide read_idx used_msgs max_msgs has_waiter is_no_wait = do {
     r \<leftarrow> get_decide read_idx used_msgs max_msgs (has_waiter \<noteq> 0) (is_no_wait \<noteq> 0);
     Ret (case gd_decision r of
            GE_Read \<Rightarrow> \<lparr>gm_ret = OK_code, gm_action = 0, gm_new_idx = gd_new_read_idx r, gm_new_used = gd_new_used r\<rparr>
          | GE_WakeWriter \<Rightarrow> \<lparr>gm_ret = OK_code, gm_action = 1, gm_new_idx = gd_new_read_idx r, gm_new_used = gd_new_used r\<rparr>
          | GE_Empty \<Rightarrow> \<lparr>gm_ret = ENOMSG, gm_action = 3, gm_new_idx = gd_new_read_idx r, gm_new_used = gd_new_used r\<rparr>
          | GE_Pend \<Rightarrow> \<lparr>gm_ret = 0, gm_action = 2, gm_new_idx = gd_new_read_idx r, gm_new_used = gd_new_used r\<rparr>)
   }"

section \<open>Memory\<close>

text \<open>memcpy into and out of a block of bytes; an access outside it is a panic.\<close>

definition mem_write :: "u8 list \<Rightarrow> nat \<Rightarrow> u8 list \<Rightarrow> u8 list run" where
  "mem_write b off d =
     (if off + length d \<le> length b then Ret (take off b @ d @ drop (off + length d) b) else Panic)"

definition mem_read :: "u8 list \<Rightarrow> nat \<Rightarrow> nat \<Rightarrow> u8 list run" where
  "mem_read b off n = (if off + n \<le> length b then Ret (take n (drop off b)) else Panic)"

section \<open>The C shim (gale_msgq.c)\<close>

record k_msgq =
  kq_msg_size :: u32
  kq_max_msgs :: u32
  kq_buffer_start :: nat
  kq_read_ptr :: nat
  kq_write_ptr :: nat
  kq_used_msgs :: u32
  kq_flag_alloc :: bool
  kq_buffer :: "u8 list"
  kq_wait_q :: "nat list"
  kt_swap_data :: "nat \<Rightarrow> u8 list"
  kt_return :: "nat \<Rightarrow> i32 option"

definition ptr_to_slot :: "k_msgq \<Rightarrow> nat \<Rightarrow> u32" where
  "ptr_to_slot q ptr = of_nat ((ptr - kq_buffer_start q) div unat (kq_msg_size q))"

definition slot_to_ptr :: "k_msgq \<Rightarrow> u32 \<Rightarrow> nat" where
  "slot_to_ptr q slot = kq_buffer_start q + unat slot * unat (kq_msg_size q)"

text \<open>memcpy between a pointer into the buffer and a message of msg_size bytes.\<close>

definition copy_in :: "k_msgq \<Rightarrow> nat \<Rightarrow> u8 list \<Rightarrow> k_msgq run" where
  "copy_in q ptr data = do {
     d \<leftarrow> mem_read data 0 (unat (kq_msg_size q));
     b \<leftarrow> mem_write (kq_buffer q) (ptr - kq_buffer_start q) d;
     Ret (q\<lparr>kq_buffer := b\<rparr>)
   }"

definition copy_out :: "k_msgq \<Rightarrow> nat \<Rightarrow> u8 list run" where
  "copy_out q ptr = mem_read (kq_buffer q) (ptr - kq_buffer_start q) (unat (kq_msg_size q))"

text \<open>arch_thread_return_value_set and z_ready_thread.\<close>

definition mq_ready :: "nat \<Rightarrow> i32 \<Rightarrow> k_msgq \<Rightarrow> k_msgq" where
  "mq_ready t r q = q\<lparr>kt_return := (kt_return q)(t \<mapsto> r)\<rparr>"

text \<open>z_unpend_first_thread.\<close>

definition mq_unpend_first :: "k_msgq \<Rightarrow> nat option \<times> k_msgq" where
  "mq_unpend_first q = (case kq_wait_q q of [] \<Rightarrow> (None, q) | t # ts \<Rightarrow> (Some t, q\<lparr>kq_wait_q := ts\<rparr>))"

text \<open>z_pend_curr: the thread waits with its swap_data set; its result is set when it is made ready.\<close>

definition mq_pend :: "(nat \<Rightarrow> nat list \<Rightarrow> nat list) \<Rightarrow> nat \<Rightarrow> u8 list \<Rightarrow> k_msgq \<Rightarrow> k_msgq" where
  "mq_pend enq t data q =
     q\<lparr>kq_wait_q := enq t (kq_wait_q q), kt_swap_data := (kt_swap_data q)(t := data), kt_return := (kt_return q)(t := None)\<rparr>"

text \<open>
  buffer is the address and mem the content of the memory passed to the initialisation.
  A failing __ASSERT is a panic.
\<close>

definition k_msgq_init :: "k_msgq \<Rightarrow> nat \<Rightarrow> u8 list \<Rightarrow> u32 \<Rightarrow> u32 \<Rightarrow> k_msgq run" where
  "k_msgq_init q buffer mem msg_size max_msgs =
     (case gale_msgq_init_validate msg_size max_msgs (Some 0) of
        (ret, Some buffer_size) \<Rightarrow>
          if ret = 0 then
            Ret (q\<lparr>kq_msg_size := msg_size, kq_max_msgs := max_msgs, kq_buffer_start := buffer,
                   kq_read_ptr := buffer, kq_write_ptr := buffer, kq_used_msgs := 0, kq_flag_alloc := False,
                   kq_buffer := take (unat buffer_size) mem, kq_wait_q := []\<rparr>)
          else Panic
      | (ret, None) \<Rightarrow> Panic)"

text \<open>malloc is z_thread_malloc: the address and content of the new memory, None for a null pointer.\<close>

definition z_impl_k_msgq_alloc_init ::
    "(u32 \<Rightarrow> (nat \<times> u8 list) option) \<Rightarrow> k_msgq \<Rightarrow> u32 \<Rightarrow> u32 \<Rightarrow> (i32 \<times> k_msgq) run" where
  "z_impl_k_msgq_alloc_init malloc q msg_size max_msgs =
     (case checked_mul msg_size max_msgs of
        None \<Rightarrow> Ret (EINVAL, q)
      | Some total_size \<Rightarrow>
          case malloc total_size of
            Some (buffer, mem) \<Rightarrow> do {
              q \<leftarrow> k_msgq_init q buffer mem msg_size max_msgs;
              Ret (0, q\<lparr>kq_flag_alloc := True\<rparr>)
            }
          | None \<Rightarrow> Ret (ENOMEM, q))"

text \<open>The result has the address to be freed, None for a null pointer.\<close>

definition msgq_cleanup :: "k_msgq \<Rightarrow> i32 \<times> nat option \<times> k_msgq" where
  "msgq_cleanup q =
     (if kq_wait_q q \<noteq> [] then (EBUSY, None, q)
      else if kq_flag_alloc q then (0, Some (kq_buffer_start q), q\<lparr>kq_flag_alloc := False\<rparr>)
      else (0, None, q))"

datatype mq_out = Mq_returns i32 | Mq_pends

definition z_impl_k_msgq_put ::
    "(nat \<Rightarrow> nat list \<Rightarrow> nat list) \<Rightarrow> nat \<Rightarrow> u8 list \<Rightarrow> bool \<Rightarrow> k_msgq \<Rightarrow> (mq_out \<times> k_msgq) run" where
  "z_impl_k_msgq_put enq current data no_wait q = do {
     let (pending_thread, q) = mq_unpend_first q;
     d \<leftarrow> gale_k_msgq_put_decide (ptr_to_slot q (kq_write_ptr q)) (kq_used_msgs q) (kq_max_msgs q)
            (if pending_thread \<noteq> None then 1 else 0) (if no_wait then 1 else 0);
     if gm_action d = 1 then do {
       t \<leftarrow> unwrap pending_thread;
       m \<leftarrow> mem_read data 0 (unat (kq_msg_size q));
       Ret (Mq_returns 0, mq_ready t 0 (q\<lparr>kt_swap_data := (kt_swap_data q)(t := m)\<rparr>))
     }
     else if gm_action d = 0 then do {
       q \<leftarrow> copy_in q (kq_write_ptr q) data;
       Ret (Mq_returns 0, q\<lparr>kq_write_ptr := slot_to_ptr q (gm_new_idx d), kq_used_msgs := gm_new_used d\<rparr>)
     }
     else if gm_action d = 2 then Ret (Mq_pends, mq_pend enq current data q)
     else Ret (Mq_returns (gm_ret d), q)
   }"

definition put_front_in_queue :: "u8 list \<Rightarrow> k_msgq \<Rightarrow> (i32 \<times> k_msgq) run" where
  "put_front_in_queue data q =
     (if kq_used_msgs q < kq_max_msgs q then
        (case mq_unpend_first q of
           (Some t, q) \<Rightarrow> do {
             m \<leftarrow> mem_read data 0 (unat (kq_msg_size q));
             Ret (0, mq_ready t 0 (q\<lparr>kt_swap_data := (kt_swap_data q)(t := m)\<rparr>))
           }
         | (None, q) \<Rightarrow> do {
             r \<leftarrow> gale_msgq_put_front (ptr_to_slot q (kq_read_ptr q)) (kq_used_msgs q) (kq_max_msgs q);
             (new_read_idx, new_used) \<leftarrow> (if fst r = 0 then snd r else Panic);
             let q = q\<lparr>kq_read_ptr := slot_to_ptr q new_read_idx, kq_used_msgs := new_used\<rparr>;
             q \<leftarrow> copy_in q (kq_read_ptr q) data;
             Ret (0, q)
           })
      else Ret (ENOMSG, q))"

definition z_impl_k_msgq_put_front :: "u8 list \<Rightarrow> k_msgq \<Rightarrow> (i32 \<times> k_msgq) run" where
  "z_impl_k_msgq_put_front data q = put_front_in_queue data q"

text \<open>A get returns a code and, on success, the message copied to the caller.\<close>

datatype mq_get_out = Mg_returns i32 "u8 list option" | Mg_pends

definition z_impl_k_msgq_get ::
    "(nat \<Rightarrow> nat list \<Rightarrow> nat list) \<Rightarrow> nat \<Rightarrow> u8 list \<Rightarrow> bool \<Rightarrow> k_msgq \<Rightarrow> (mq_get_out \<times> k_msgq) run" where
  "z_impl_k_msgq_get enq current data no_wait q = do {
     let (pending_thread, q) = (if kq_used_msgs q > 0 then mq_unpend_first q else (None, q));
     d \<leftarrow> gale_k_msgq_get_decide (ptr_to_slot q (kq_read_ptr q)) (kq_used_msgs q) (kq_max_msgs q)
            (if pending_thread \<noteq> None then 1 else 0) (if no_wait then 1 else 0);
     if gm_action d = 1 then do {
       t \<leftarrow> unwrap pending_thread;
       m \<leftarrow> copy_out q (kq_read_ptr q);
       let q = q\<lparr>kq_read_ptr := slot_to_ptr q (gm_new_idx d), kq_used_msgs := gm_new_used d\<rparr>;
       q \<leftarrow> copy_in q (kq_write_ptr q) (kt_swap_data q t);
       r \<leftarrow> gale_msgq_put (ptr_to_slot q (kq_write_ptr q)) (kq_used_msgs q) (kq_max_msgs q);
       (new_write_idx, new_used2) \<leftarrow> (if fst r = 0 then snd r else Panic);
       let q = q\<lparr>kq_write_ptr := slot_to_ptr q new_write_idx, kq_used_msgs := new_used2\<rparr>;
       Ret (Mg_returns 0 (Some m), mq_ready t 0 q)
     }
     else if gm_action d = 0 then do {
       m \<leftarrow> copy_out q (kq_read_ptr q);
       Ret (Mg_returns 0 (Some m), q\<lparr>kq_read_ptr := slot_to_ptr q (gm_new_idx d), kq_used_msgs := gm_new_used d\<rparr>)
     }
     else if gm_action d = 2 then Ret (Mg_pends, mq_pend enq current data q)
     else Ret (Mg_returns (gm_ret d) None, q)
   }"

definition z_impl_k_msgq_peek :: "k_msgq \<Rightarrow> (i32 \<times> u8 list option) run" where
  "z_impl_k_msgq_peek q =
     (if kq_used_msgs q > 0 then do { m \<leftarrow> copy_out q (kq_read_ptr q); Ret (0, Some m) }
      else Ret (ENOMSG, None))"

definition z_impl_k_msgq_peek_at :: "u32 \<Rightarrow> k_msgq \<Rightarrow> (i32 \<times> u8 list option) run" where
  "z_impl_k_msgq_peek_at idx q = do {
     r \<leftarrow> gale_msgq_peek_at (ptr_to_slot q (kq_read_ptr q)) (kq_used_msgs q) (kq_max_msgs q) idx;
     if fst r = 0 then do {
       slot \<leftarrow> unwrap (snd r);
       m \<leftarrow> copy_out q (slot_to_ptr q slot);
       Ret (0, Some m)
     }
     else Ret (ENOMSG, None)
   }"

text \<open>The loop of the purge wakes every waiting thread.\<close>

fun purge_wake :: "nat list \<Rightarrow> k_msgq \<Rightarrow> k_msgq" where
  "purge_wake [] q = q"
| "purge_wake (t # ts) q = purge_wake ts (mq_ready t ENOMSG (q\<lparr>kq_wait_q := ts\<rparr>))"

definition z_impl_k_msgq_purge :: "k_msgq \<Rightarrow> k_msgq" where
  "z_impl_k_msgq_purge q =
     (let q = purge_wake (kq_wait_q q) q in q\<lparr>kq_used_msgs := 0, kq_read_ptr := kq_write_ptr q\<rparr>)"

text \<open>The message size, the capacity and the number of messages.\<close>

definition z_impl_k_msgq_get_attrs :: "k_msgq \<Rightarrow> u32 \<times> u32 \<times> u32" where
  "z_impl_k_msgq_get_attrs q = (kq_msg_size q, kq_max_msgs q, kq_used_msgs q)"

section \<open>The buffer as an array of messages\<close>

definition kq_ring :: "k_msgq \<Rightarrow> msgq" where
  "kq_ring q = \<lparr>mq_msg_size = kq_msg_size q, mq_max_msgs = kq_max_msgs q, mq_read_idx = ptr_to_slot q (kq_read_ptr q),
     mq_write_idx = ptr_to_slot q (kq_write_ptr q), mq_used_msgs = kq_used_msgs q\<rparr>"

definition mem_slots :: "nat \<Rightarrow> nat \<Rightarrow> u8 list \<Rightarrow> u8 list list" where
  "mem_slots sz n b = map (\<lambda>i. take sz (drop (i * sz) b)) [0..<n]"

definition kq_slots :: "k_msgq \<Rightarrow> u8 list list" where
  "kq_slots q = mem_slots (unat (kq_msg_size q)) (unat (kq_max_msgs q)) (kq_buffer q)"

definition kq_contents :: "k_msgq \<Rightarrow> u8 list list" where
  "kq_contents q = mq_contents (kq_ring q) (kq_slots q)"

definition kq_inv :: "k_msgq \<Rightarrow> bool" where
  "kq_inv q \<longleftrightarrow> mq_inv (kq_ring q) \<and> length (kq_buffer q) = unat (kq_max_msgs q) * unat (kq_msg_size q) \<and>
     slot_to_ptr q (ptr_to_slot q (kq_read_ptr q)) = kq_read_ptr q \<and>
     slot_to_ptr q (ptr_to_slot q (kq_write_ptr q)) = kq_write_ptr q"

lemma slot_room: "i < n \<Longrightarrow> i * sz + sz \<le> n * sz" for i n sz :: nat
  by (metis Suc_leI add.commute mult_Suc mult_le_mono1)

lemma mem_slots_nth:
  assumes "i < n" and "k < sz" and "length b = n * sz"
  shows "mem_slots sz n b ! i ! k = b ! (i * sz + k)" and "length (mem_slots sz n b ! i) = sz"
  using assms slot_room [OF assms(1), of sz] by (simp_all add: mem_slots_def)

lemma length_mem_slots [simp]: "length (mem_slots sz n b) = n"
  by (simp add: mem_slots_def)

lemma slot_disjoint:
  fixes i j k sz :: nat
  assumes "j \<noteq> i" and "k < sz"
  shows "j * sz + k < i * sz \<or> i * sz + sz \<le> j * sz + k"
proof (cases "j < i")
  case True
  then show ?thesis using slot_room [OF True, of sz] assms(2) by linarith
next
  case False
  then have "i < j" using assms(1) by simp
  then show ?thesis using slot_room [of i j sz] by linarith
qed

lemma mem_slots_length: "i < n \<Longrightarrow> length b = n * sz \<Longrightarrow> length (mem_slots sz n b ! i) = sz"
  using slot_room [of i n sz] by (simp add: mem_slots_def)

lemma mem_write_slot:
  assumes "i < n" and "length b = n * sz" and "length d = sz"
  shows "\<exists>b'. mem_write b (i * sz) d = Some b' \<and> length b' = length b \<and> mem_slots sz n b' = (mem_slots sz n b)[i := d]"
proof -
  have room: "i * sz + sz \<le> n * sz" by (rule slot_room [OF assms(1)])
  define b' where "b' = take (i * sz) b @ d @ drop (i * sz + sz) b"
  have len: "length b' = length b" using room assms by (simp add: b'_def)
  have nth: "b' ! p = (if i * sz \<le> p \<and> p < i * sz + sz then d ! (p - i * sz) else b ! p)" if "p < length b" for p
    using that room assms by (auto simp: b'_def nth_append)
  have "mem_slots sz n b' ! j = (mem_slots sz n b)[i := d] ! j" if j: "j < n" for j
  proof (rule nth_equalityI)
    show "length (mem_slots sz n b' ! j) = length ((mem_slots sz n b)[i := d] ! j)"
      using j assms len by (cases "j = i") (simp_all add: mem_slots_length)
    fix k assume "k < length (mem_slots sz n b' ! j)"
    then have k: "k < sz" using j assms(2) len by (simp add: mem_slots_length)
    have p: "j * sz + k < length b" using slot_room [OF j, of sz] k assms(2) by simp
    show "mem_slots sz n b' ! j ! k = (mem_slots sz n b)[i := d] ! j ! k"
      using slot_disjoint [of j i k sz] j k p assms len nth [OF p] by (cases "j = i") (auto simp: mem_slots_nth)
  qed
  then have "mem_slots sz n b' = (mem_slots sz n b)[i := d]" by (intro nth_equalityI) simp_all
  then show ?thesis using room assms len by (simp add: mem_write_def b'_def)
qed

lemma mem_read_slot: "i < n \<Longrightarrow> length b = n * sz \<Longrightarrow> mem_read b (i * sz) sz = Some (mem_slots sz n b ! i)"
  using slot_room [of i n sz] by (simp add: mem_read_def mem_slots_def)

lemma ptr_to_slot_to_ptr: "kq_msg_size q \<noteq> 0 \<Longrightarrow> ptr_to_slot q (slot_to_ptr q s) = s"
  by (simp add: ptr_to_slot_def slot_to_ptr_def unat_eq_0)

text \<open>The pointer arithmetic depends on the start and the message size only.\<close>

lemma ptr_cong:
  assumes "kq_buffer_start q' = kq_buffer_start q" "kq_msg_size q' = kq_msg_size q"
  shows "ptr_to_slot q' = ptr_to_slot q" "slot_to_ptr q' = slot_to_ptr q"
  using assms by (auto simp: ptr_to_slot_def slot_to_ptr_def fun_eq_iff)

lemma copy_in_slot:
  assumes "kq_inv q" and "s < kq_max_msgs q" and "length d = unat (kq_msg_size q)"
  shows "\<exists>b. copy_in q (slot_to_ptr q s) d = Some (q\<lparr>kq_buffer := b\<rparr>) \<and> length b = length (kq_buffer q) \<and>
     kq_slots (q\<lparr>kq_buffer := b\<rparr>) = (kq_slots q)[unat s := d]"
  using mem_write_slot [of "unat s" "unat (kq_max_msgs q)" "kq_buffer q" "unat (kq_msg_size q)" d] assms
  by (auto simp: copy_in_def slot_to_ptr_def kq_slots_def kq_inv_def word_less_nat_alt mem_read_def)

lemma copy_out_slot:
  assumes "kq_inv q" and "s < kq_max_msgs q"
  shows "copy_out q (slot_to_ptr q s) = Some (kq_slots q ! unat s)"
  using mem_read_slot [of "unat s" "unat (kq_max_msgs q)" "kq_buffer q" "unat (kq_msg_size q)"] assms
  by (simp add: copy_out_def slot_to_ptr_def kq_slots_def kq_inv_def word_less_nat_alt)

section \<open>The operations on the list of messages\<close>

lemma kq_inv_bounds:
  assumes "kq_inv q"
  shows "kq_msg_size q \<noteq> 0" "kq_max_msgs q \<noteq> 0" "ptr_to_slot q (kq_read_ptr q) < kq_max_msgs q"
    "ptr_to_slot q (kq_write_ptr q) < kq_max_msgs q" "kq_used_msgs q \<le> kq_max_msgs q"
    "slot_to_ptr q (ptr_to_slot q (kq_read_ptr q)) = kq_read_ptr q"
    "slot_to_ptr q (ptr_to_slot q (kq_write_ptr q)) = kq_write_ptr q"
    "length (kq_slots q) = unat (kq_max_msgs q)" "length (kq_contents q) = unat (kq_used_msgs q)"
  using assms by (auto simp: kq_inv_def mq_inv_def kq_ring_def kq_slots_def kq_contents_def mq_contents_def)

lemma kq_store:
  assumes "kq_inv q" and "kq_used_msgs q < kq_max_msgs q" and "length d = unat (kq_msg_size q)"
  shows "\<exists>b w n. put_decide (ptr_to_slot q (kq_write_ptr q)) (kq_used_msgs q) (kq_max_msgs q) False nw =
        Some \<lparr>pd_decision = PD_Store, pd_new_write_idx = w, pd_new_used = n\<rparr> \<and>
     copy_in q (kq_write_ptr q) d = Some (q\<lparr>kq_buffer := b\<rparr>) \<and>
     kq_inv (q\<lparr>kq_buffer := b, kq_write_ptr := slot_to_ptr q w, kq_used_msgs := n\<rparr>) \<and>
     kq_contents (q\<lparr>kq_buffer := b, kq_write_ptr := slot_to_ptr q w, kq_used_msgs := n\<rparr>) = kq_contents q @ [d]"
proof -
  let ?R = "kq_ring q"
  note b = kq_inv_bounds [OF assms(1)]
  have inv: "mq_inv ?R" and room: "unat (mq_used_msgs ?R) < unat (mq_max_msgs ?R)"
    using assms(1,2) by (simp_all add: kq_inv_def kq_ring_def word_less_nat_alt)
  obtain w where w: "next_index (ptr_to_slot q (kq_write_ptr q)) (kq_max_msgs q) = Some w" using next_index_mod [OF b(4)] by blast
  have n: "add_chk (kq_used_msgs q) 1 = Some (kq_used_msgs q + 1)" using assms(2) by (rule add_chk_one)
  have inv': "mq_inv (?R\<lparr>mq_write_idx := w, mq_used_msgs := kq_used_msgs q + 1\<rparr>)"
  proof -
    have "\<not> mq_max_msgs ?R \<le> mq_used_msgs ?R" using room by (simp add: word_le_nat_alt)
    then have "mq_put ?R = Some (Inr (mq_write_idx ?R), ?R\<lparr>mq_write_idx := w, mq_used_msgs := kq_used_msgs q + 1\<rparr>)"
      using w n by (simp add: mq_put_def mq_next_idx_def kq_ring_def)
    then show ?thesis using mq_put_room [OF inv room] by auto
  qed
  obtain m where m: "copy_in q (kq_write_ptr q) d = Some (q\<lparr>kq_buffer := m\<rparr>)" "length m = length (kq_buffer q)"
      "kq_slots (q\<lparr>kq_buffer := m\<rparr>) = (kq_slots q)[unat (ptr_to_slot q (kq_write_ptr q)) := d]"
    using copy_in_slot [OF assms(1) b(4) assms(3)] b(7) by metis
  define q' where "q' = q\<lparr>kq_buffer := m, kq_write_ptr := slot_to_ptr q w, kq_used_msgs := kq_used_msgs q + 1\<rparr>"
  have ptr: "ptr_to_slot q' = ptr_to_slot q" "slot_to_ptr q' = slot_to_ptr q" by (rule ptr_cong; simp add: q'_def)+
  have ring: "kq_ring q' = ?R\<lparr>mq_write_idx := w, mq_used_msgs := kq_used_msgs q + 1\<rparr>"
    using ptr_to_slot_to_ptr [OF b(1), of w] by (simp add: kq_ring_def ptr) (simp add: q'_def)
  have slots: "kq_slots q' = (kq_slots q)[unat (ptr_to_slot q (kq_write_ptr q)) := d]"
    using m(3) by (simp add: kq_slots_def q'_def)
  have "kq_inv q'"
    using assms(1) inv' m(2) ptr_to_slot_to_ptr [OF b(1), of w] by (simp add: kq_inv_def ring ptr) (simp add: q'_def)
  moreover have "kq_contents q' = kq_contents q @ [d]"
  proof -
    have u: "unat (kq_used_msgs q + 1) = Suc (unat (kq_used_msgs q))" using assms(2) by (simp add: unat_plus_one)
    have "unat (ptr_to_slot q (kq_write_ptr q)) = (unat (ptr_to_slot q (kq_read_ptr q)) + unat (kq_used_msgs q)) mod unat (kq_max_msgs q)"
      using inv by (simp add: mq_inv_nat kq_ring_def)
    then show ?thesis
      using ring_list_put [of "unat (kq_used_msgs q)" "unat (kq_max_msgs q)" "kq_slots q"] room b(8)
      by (simp add: kq_contents_def mq_contents_def ring slots u) (simp add: kq_ring_def u)
  qed
  moreover have "put_decide (ptr_to_slot q (kq_write_ptr q)) (kq_used_msgs q) (kq_max_msgs q) False nw =
      Some \<lparr>pd_decision = PD_Store, pd_new_write_idx = w, pd_new_used = kq_used_msgs q + 1\<rparr>"
    using w n assms(2) by (simp add: put_decide_def)
  ultimately show ?thesis using m(1) unfolding q'_def by blast
qed

lemma kq_load:
  assumes "kq_inv q" and "kq_used_msgs q > 0"
  shows "\<exists>r n. (\<forall>hw nw. get_decide (ptr_to_slot q (kq_read_ptr q)) (kq_used_msgs q) (kq_max_msgs q) hw nw =
        Some \<lparr>gd_decision = (if hw then GE_WakeWriter else GE_Read), gd_new_read_idx = r, gd_new_used = n\<rparr>) \<and>
     n < kq_max_msgs q \<and> copy_out q (kq_read_ptr q) = Some (hd (kq_contents q)) \<and>
     kq_inv (q\<lparr>kq_read_ptr := slot_to_ptr q r, kq_used_msgs := n\<rparr>) \<and>
     kq_contents (q\<lparr>kq_read_ptr := slot_to_ptr q r, kq_used_msgs := n\<rparr>) = tl (kq_contents q)"
proof -
  let ?R = "kq_ring q"
  note b = kq_inv_bounds [OF assms(1)]
  have inv: "mq_inv ?R" and some: "0 < unat (mq_used_msgs ?R)"
    using assms(1,2) by (simp_all add: kq_inv_def kq_ring_def word_less_nat_alt)
  obtain r where r: "next_index (ptr_to_slot q (kq_read_ptr q)) (kq_max_msgs q) = Some r"
      "unat r = (unat (ptr_to_slot q (kq_read_ptr q)) + 1) mod unat (kq_max_msgs q)"
    using next_index_mod [OF b(3)] by blast
  have nz: "kq_used_msgs q \<noteq> 0" using assms(2) by auto
  have n: "sub_chk (kq_used_msgs q) 1 = Some (kq_used_msgs q - 1)" "Suc (unat (kq_used_msgs q - 1)) = unat (kq_used_msgs q)"
    using nz sub_chk_one [OF nz] unat_minus_one [OF nz] some by (simp_all add: kq_ring_def)
  have inv': "mq_inv (?R\<lparr>mq_read_idx := r, mq_used_msgs := kq_used_msgs q - 1\<rparr>)"
  proof -
    have "mq_get ?R = Some (Inr (mq_read_idx ?R), ?R\<lparr>mq_read_idx := r, mq_used_msgs := kq_used_msgs q - 1\<rparr>)"
      using r(1) n(1) nz by (simp add: mq_get_def mq_next_idx_def kq_ring_def)
    then show ?thesis using mq_get_some [OF inv some] by auto
  qed
  define q' where "q' = q\<lparr>kq_read_ptr := slot_to_ptr q r, kq_used_msgs := kq_used_msgs q - 1\<rparr>"
  have ptr: "ptr_to_slot q' = ptr_to_slot q" "slot_to_ptr q' = slot_to_ptr q" by (rule ptr_cong; simp add: q'_def)+
  have ring: "kq_ring q' = ?R\<lparr>mq_read_idx := r, mq_used_msgs := kq_used_msgs q - 1\<rparr>"
    using ptr_to_slot_to_ptr [OF b(1), of r] by (simp add: kq_ring_def ptr) (simp add: q'_def)
  have slots: "kq_slots q' = kq_slots q" by (simp add: kq_slots_def q'_def)
  have "kq_inv q'"
    using assms(1) inv' ptr_to_slot_to_ptr [OF b(1), of r] by (simp add: kq_inv_def ring ptr) (simp add: q'_def)
  moreover have cont: "kq_contents q = kq_slots q ! unat (ptr_to_slot q (kq_read_ptr q)) # kq_contents q'"
    using ring_list_get [of "unat (kq_max_msgs q)" "unat (ptr_to_slot q (kq_read_ptr q))" "unat (kq_used_msgs q - 1)" "kq_slots q"] b(3) n(2) r(2)
    by (simp add: kq_contents_def mq_contents_def ring slots) (simp add: kq_ring_def word_less_nat_alt)
  moreover have "copy_out q (kq_read_ptr q) = Some (hd (kq_contents q))"
    using copy_out_slot [OF assms(1) b(3)] b(6) cont by (metis list.sel(1))
  moreover have "kq_used_msgs q - 1 < kq_max_msgs q" using n(2) b(5) by (simp add: word_less_nat_alt word_le_nat_alt)
  moreover have "get_decide (ptr_to_slot q (kq_read_ptr q)) (kq_used_msgs q) (kq_max_msgs q) hw nw =
      Some \<lparr>gd_decision = (if hw then GE_WakeWriter else GE_Read), gd_new_read_idx = r, gd_new_used = kq_used_msgs q - 1\<rparr>" for hw nw
    using r(1) n(1) assms(2) by (simp add: get_decide_def)
  moreover have "kq_contents q' = tl (kq_contents q)" using cont by simp
  ultimately show ?thesis unfolding q'_def by blast
qed

text \<open>What an update of the thread fields leaves alone.\<close>

definition kq_same :: "k_msgq \<Rightarrow> k_msgq \<Rightarrow> bool" where
  "kq_same q q' \<longleftrightarrow> kq_msg_size q' = kq_msg_size q \<and> kq_max_msgs q' = kq_max_msgs q"

lemma kq_thread_fields:
  "kq_contents (q\<lparr>kq_wait_q := a\<rparr>) = kq_contents q" "kq_contents (q\<lparr>kt_swap_data := b\<rparr>) = kq_contents q"
  "kq_contents (q\<lparr>kt_return := c\<rparr>) = kq_contents q"
  "kq_inv (q\<lparr>kq_wait_q := a\<rparr>) = kq_inv q" "kq_inv (q\<lparr>kt_swap_data := b\<rparr>) = kq_inv q" "kq_inv (q\<lparr>kt_return := c\<rparr>) = kq_inv q"
  by (simp_all add: kq_contents_def kq_inv_def kq_ring_def kq_slots_def ptr_to_slot_def slot_to_ptr_def)

lemmas kq_call_defs = z_impl_k_msgq_put_def z_impl_k_msgq_get_def mq_unpend_first_def gale_k_msgq_put_decide_def
  gale_k_msgq_get_decide_def mq_ready_def mq_pend_def error_codes

lemma put_store:
  assumes "kq_inv q" "kq_wait_q q = []" "kq_used_msgs q < kq_max_msgs q" "length d = unat (kq_msg_size q)"
  shows "\<exists>q'. z_impl_k_msgq_put enq t d nw q = Some (Mq_returns 0, q') \<and> kq_inv q' \<and> kq_same q q' \<and>
     kq_contents q' = kq_contents q @ [d] \<and> kq_wait_q q' = [] \<and> kt_swap_data q' = kt_swap_data q"
proof -
  obtain b w n where s: "put_decide (ptr_to_slot q (kq_write_ptr q)) (kq_used_msgs q) (kq_max_msgs q) False nw =
        Some \<lparr>pd_decision = PD_Store, pd_new_write_idx = w, pd_new_used = n\<rparr>"
      "copy_in q (kq_write_ptr q) d = Some (q\<lparr>kq_buffer := b\<rparr>)"
      and r: "kq_inv (q\<lparr>kq_buffer := b, kq_write_ptr := slot_to_ptr q w, kq_used_msgs := n\<rparr>)"
      "kq_contents (q\<lparr>kq_buffer := b, kq_write_ptr := slot_to_ptr q w, kq_used_msgs := n\<rparr>) = kq_contents q @ [d]"
    using kq_store [OF assms(1,3,4)] by blast
  have "slot_to_ptr (q\<lparr>kq_buffer := b\<rparr>) w = slot_to_ptr q w" by (simp add: slot_to_ptr_def)
  then have "z_impl_k_msgq_put enq t d nw q =
      Some (Mq_returns 0, q\<lparr>kq_buffer := b, kq_write_ptr := slot_to_ptr q w, kq_used_msgs := n\<rparr>)"
    using s assms(2) by (cases nw) (simp_all add: kq_call_defs)
  then show ?thesis using r assms(2) by (simp add: kq_same_def)
qed

lemma put_handoff:
  assumes "kq_wait_q q = u # us" "kq_used_msgs q < kq_max_msgs q" "length d = unat (kq_msg_size q)"
  shows "z_impl_k_msgq_put enq t d nw q =
    Some (Mq_returns 0, q\<lparr>kq_wait_q := us, kt_swap_data := (kt_swap_data q)(u := d), kt_return := (kt_return q)(u \<mapsto> 0)\<rparr>)"
  using assms by (simp add: kq_call_defs put_decide_def mem_read_def)

lemma put_full:
  assumes "kq_wait_q q = []" "\<not> kq_used_msgs q < kq_max_msgs q"
  shows "z_impl_k_msgq_put enq t d nw q = Some (if nw then (Mq_returns ENOMSG, q) else (Mq_pends, mq_pend enq t d q))"
  using assms by (simp add: kq_call_defs put_decide_def)

lemma get_read:
  assumes "kq_inv q" "kq_wait_q q = []" "kq_used_msgs q > 0"
  shows "\<exists>q'. z_impl_k_msgq_get enq t d nw q = Some (Mg_returns 0 (Some (hd (kq_contents q))), q') \<and> kq_inv q' \<and> kq_same q q' \<and>
     kq_contents q' = tl (kq_contents q) \<and> kq_wait_q q' = [] \<and> kt_swap_data q' = kt_swap_data q"
proof -
  obtain r n where s: "\<forall>hw nw. get_decide (ptr_to_slot q (kq_read_ptr q)) (kq_used_msgs q) (kq_max_msgs q) hw nw =
        Some \<lparr>gd_decision = (if hw then GE_WakeWriter else GE_Read), gd_new_read_idx = r, gd_new_used = n\<rparr>"
      "copy_out q (kq_read_ptr q) = Some (hd (kq_contents q))"
      and q': "kq_inv (q\<lparr>kq_read_ptr := slot_to_ptr q r, kq_used_msgs := n\<rparr>)"
      "kq_contents (q\<lparr>kq_read_ptr := slot_to_ptr q r, kq_used_msgs := n\<rparr>) = tl (kq_contents q)"
    using kq_load [OF assms(1,3)] by blast
  have "z_impl_k_msgq_get enq t d nw q =
      Some (Mg_returns 0 (Some (hd (kq_contents q))), q\<lparr>kq_read_ptr := slot_to_ptr q r, kq_used_msgs := n\<rparr>)"
    using s assms(2,3) by (simp add: kq_call_defs)
  then show ?thesis using q' assms(2) by (simp add: kq_same_def)
qed

lemma get_empty:
  assumes "\<not> kq_used_msgs q > 0"
  shows "z_impl_k_msgq_get enq t d nw q = Some (if nw then (Mg_returns ENOMSG None, q) else (Mg_pends, mq_pend enq t d q))"
  using assms by (simp add: kq_call_defs get_decide_def)

lemma get_wake:
  assumes "kq_inv q" "kq_wait_q q = u # us" "kq_used_msgs q > 0" "length (kt_swap_data q u) = unat (kq_msg_size q)"
  shows "\<exists>q'. z_impl_k_msgq_get enq t d nw q = Some (Mg_returns 0 (Some (hd (kq_contents q))), q') \<and> kq_inv q' \<and> kq_same q q' \<and>
     kq_contents q' = tl (kq_contents q) @ [kt_swap_data q u] \<and> kq_wait_q q' = us \<and> kt_swap_data q' = kt_swap_data q \<and>
     kt_return q' = (kt_return q)(u \<mapsto> 0)"
proof -
  define q1 where "q1 = q\<lparr>kq_wait_q := us\<rparr>"
  have q1: "kq_inv q1" "kq_used_msgs q1 > 0" "kq_contents q1 = kq_contents q" using assms by (simp_all add: q1_def kq_thread_fields)
  obtain r n where s: "\<forall>hw nw. get_decide (ptr_to_slot q1 (kq_read_ptr q1)) (kq_used_msgs q1) (kq_max_msgs q1) hw nw =
        Some \<lparr>gd_decision = (if hw then GE_WakeWriter else GE_Read), gd_new_read_idx = r, gd_new_used = n\<rparr>"
      "copy_out q1 (kq_read_ptr q1) = Some (hd (kq_contents q1))" "n < kq_max_msgs q1"
      and q2: "kq_inv (q1\<lparr>kq_read_ptr := slot_to_ptr q1 r, kq_used_msgs := n\<rparr>)"
      "kq_contents (q1\<lparr>kq_read_ptr := slot_to_ptr q1 r, kq_used_msgs := n\<rparr>) = tl (kq_contents q1)"
    using kq_load [OF q1(1,2)] by blast
  define q2 where "q2 = q1\<lparr>kq_read_ptr := slot_to_ptr q1 r, kq_used_msgs := n\<rparr>"
  obtain b w n' where p: "put_decide (ptr_to_slot q2 (kq_write_ptr q2)) (kq_used_msgs q2) (kq_max_msgs q2) False True =
        Some \<lparr>pd_decision = PD_Store, pd_new_write_idx = w, pd_new_used = n'\<rparr>"
      "copy_in q2 (kq_write_ptr q2) (kt_swap_data q2 u) = Some (q2\<lparr>kq_buffer := b\<rparr>)"
      and q3: "kq_inv (q2\<lparr>kq_buffer := b, kq_write_ptr := slot_to_ptr q2 w, kq_used_msgs := n'\<rparr>)"
      "kq_contents (q2\<lparr>kq_buffer := b, kq_write_ptr := slot_to_ptr q2 w, kq_used_msgs := n'\<rparr>) = kq_contents q2 @ [kt_swap_data q2 u]"
    using kq_store [of q2 "kt_swap_data q2 u" True] q2(1) s(3) assms(4) by (auto simp: q2_def q1_def)
  have ptr: "ptr_to_slot (q2\<lparr>kq_buffer := b\<rparr>) = ptr_to_slot q2" "slot_to_ptr (q2\<lparr>kq_buffer := b\<rparr>) = slot_to_ptr q2"
    by (rule ptr_cong; simp)+
  have "kq_max_msgs q2 \<noteq> 0" using kq_inv_bounds(2) [of q2] q2(1) by (simp add: q2_def)
  then have put: "gale_msgq_put (ptr_to_slot (q2\<lparr>kq_buffer := b\<rparr>) (kq_write_ptr (q2\<lparr>kq_buffer := b\<rparr>))) (kq_used_msgs (q2\<lparr>kq_buffer := b\<rparr>)) (kq_max_msgs (q2\<lparr>kq_buffer := b\<rparr>)) =
      Some (0, Some (w, n'))"
    using p(1) by (simp add: gale_msgq_put_def ptr error_codes)
  have start: "(if kq_used_msgs q > 0 then mq_unpend_first q else (None, q)) = (Some u, q1)"
    using assms(2,3) by (simp add: mq_unpend_first_def q1_def)
  have dec: "gale_k_msgq_get_decide (ptr_to_slot q1 (kq_read_ptr q1)) (kq_used_msgs q1) (kq_max_msgs q1) 1 (if nw then 1 else 0) =
      Some \<lparr>gm_ret = 0, gm_action = 1, gm_new_idx = r, gm_new_used = n\<rparr>"
    using s(1) by (simp add: gale_k_msgq_get_decide_def error_codes)
  have "z_impl_k_msgq_get enq t d nw q = Some (Mg_returns 0 (Some (hd (kq_contents q))),
      mq_ready u 0 (q2\<lparr>kq_buffer := b, kq_write_ptr := slot_to_ptr q2 w, kq_used_msgs := n'\<rparr>))"
    using dec s(2) p(2) put unfolding z_impl_k_msgq_get_def start
    by (simp add: Let_def q2_def [symmetric] ptr q1(3))
  then show ?thesis using q2 q3 q1(3)
    by (simp add: mq_ready_def kq_thread_fields kq_same_def) (simp add: q2_def q1_def)
qed

section \<open>Sequences of calls\<close>

text \<open>
  The messages that entered the queue and those that reached a receiver in one call, in
  order. A thread that leaves the wait queue was made ready.
\<close>

datatype mq_event = Mq_event (mq_accepted: "u8 list list") (mq_delivered: "u8 list list")

definition mq_woken :: "k_msgq \<Rightarrow> k_msgq \<Rightarrow> nat list" where
  "mq_woken q q' = filter (\<lambda>u. u \<notin> set (kq_wait_q q')) (kq_wait_q q)"

text \<open>
  The calls: a put (not on a full queue that already has a blocked writer), a get, and the
  expiry of the timeout of a blocked thread. The data of a call are msg_size bytes.
\<close>

inductive mq_step :: "(nat \<Rightarrow> nat list \<Rightarrow> nat list) \<Rightarrow> k_msgq \<Rightarrow> mq_event \<Rightarrow> k_msgq \<Rightarrow> bool"
  for enq :: "nat \<Rightarrow> nat list \<Rightarrow> nat list" where
  step_put: "t \<notin> set (kq_wait_q q) \<Longrightarrow> length d = unat (kq_msg_size q) \<Longrightarrow>
     kq_used_msgs q < kq_max_msgs q \<or> kq_wait_q q = [] \<Longrightarrow> z_impl_k_msgq_put enq t d nw q = Some (out, q') \<Longrightarrow>
     mq_step enq q (Mq_event (if out = Mq_returns 0 then [d] else []) (map (kt_swap_data q') (mq_woken q q'))) q'"
| step_get: "t \<notin> set (kq_wait_q q) \<Longrightarrow> length d = unat (kq_msg_size q) \<Longrightarrow>
     z_impl_k_msgq_get enq t d nw q = Some (out, q') \<Longrightarrow>
     mq_step enq q (Mq_event (map (kt_swap_data q) (mq_woken q q'))
       (case out of Mg_returns rc (Some m) \<Rightarrow> [m] | _ \<Rightarrow> [])) q'"
| step_timeout: "t \<in> set (kq_wait_q q) \<Longrightarrow>
     mq_step enq q (Mq_event [] []) (q\<lparr>kq_wait_q := remove1 t (kq_wait_q q), kt_return := (kt_return q)(t \<mapsto> EAGAIN)\<rparr>)"

definition mq_sys_inv :: "k_msgq \<Rightarrow> bool" where
  "mq_sys_inv q \<longleftrightarrow> kq_inv q \<and> distinct (kq_wait_q q) \<and>
     (\<forall>t\<in>set (kq_wait_q q). length (kt_swap_data q t) = unat (kq_msg_size q)) \<and>
     (kq_wait_q q \<noteq> [] \<longrightarrow> kq_contents q = [] \<or> length (kq_contents q) = unat (kq_max_msgs q))"

lemma mq_woken_same [simp]: "kq_wait_q q' = kq_wait_q q \<Longrightarrow> mq_woken q q' = []"
  by (simp add: mq_woken_def)

lemma mq_woken_head: "kq_wait_q q = u # us \<Longrightarrow> distinct (kq_wait_q q) \<Longrightarrow> kq_wait_q q' = us \<Longrightarrow> mq_woken q q' = [u]"
  by (auto simp: mq_woken_def filter_empty_conv)

lemma mq_woken_pend: "mset (enq t (kq_wait_q q)) = add_mset t (mset (kq_wait_q q)) \<Longrightarrow> mq_woken q (mq_pend enq t d q) = []"
  by (simp add: mq_woken_def mq_pend_def filter_empty_conv) (metis insertCI set_mset_add_mset_insert set_mset_mset)

lemma mq_pend_inv:
  assumes "mset (enq t (kq_wait_q q)) = add_mset t (mset (kq_wait_q q))" and "mq_sys_inv q" and "t \<notin> set (kq_wait_q q)"
    and "length d = unat (kq_msg_size q)" and "kq_contents q = [] \<or> length (kq_contents q) = unat (kq_max_msgs q)"
  shows "mq_sys_inv (mq_pend enq t d q)" and "kq_contents (mq_pend enq t d q) = kq_contents q" and "kq_same q (mq_pend enq t d q)"
proof -
  have "set (enq t (kq_wait_q q)) = insert t (set (kq_wait_q q))" using assms(1) by (metis set_mset_add_mset_insert set_mset_mset)
  moreover have "distinct (enq t (kq_wait_q q))"
    using assms(1-3) by (metis distinct.simps(2) mq_sys_inv_def mset.simps(2) mset_eq_imp_distinct_iff)
  ultimately show "mq_sys_inv (mq_pend enq t d q)"
    using assms by (auto simp: mq_sys_inv_def mq_pend_def kq_thread_fields)
qed (simp_all add: mq_pend_def kq_thread_fields kq_same_def)

lemma kq_used_iff:
  assumes "kq_inv q"
  shows "kq_used_msgs q > 0 \<longleftrightarrow> kq_contents q \<noteq> []" "kq_used_msgs q < kq_max_msgs q \<longleftrightarrow> length (kq_contents q) < unat (kq_max_msgs q)"
    "length (kq_contents q) \<le> unat (kq_max_msgs q)"
proof -
  note b = kq_inv_bounds [OF assms]
  show "kq_used_msgs q > 0 \<longleftrightarrow> kq_contents q \<noteq> []" using b(9) by (metis length_0_conv unat_eq_0 word_gt_0)
  show "kq_used_msgs q < kq_max_msgs q \<longleftrightarrow> length (kq_contents q) < unat (kq_max_msgs q)" by (simp add: b(9) word_less_nat_alt)
  show "length (kq_contents q) \<le> unat (kq_max_msgs q)" using b(5) by (simp add: b(9) word_le_nat_alt)
qed

text \<open>The outcome of a put and of a get, on the list of messages.\<close>

lemma mq_put_outcome:
  assumes "\<And>t q. mset (enq t q) = add_mset t (mset q)" and "mq_sys_inv q" and "t \<notin> set (kq_wait_q q)"
    and "length d = unat (kq_msg_size q)" and "kq_used_msgs q < kq_max_msgs q \<or> kq_wait_q q = []"
  shows "\<exists>out q'. z_impl_k_msgq_put enq t d nw q = Some (out, q') \<and> mq_sys_inv q' \<and> kq_same q q' \<and>
    out = (if length (kq_contents q) < unat (kq_max_msgs q) then Mq_returns 0 else if nw then Mq_returns ENOMSG else Mq_pends) \<and>
    (if out = Mq_returns 0 then [d] else []) = map (kt_swap_data q') (mq_woken q q') @ drop (length (kq_contents q)) (kq_contents q') \<and>
    take (length (kq_contents q)) (kq_contents q') = kq_contents q \<and> (mq_woken q q' \<noteq> [] \<longrightarrow> kq_contents q = [])"
proof -
  have inv: "kq_inv q" using assms(2) by (simp add: mq_sys_inv_def)
  note used = kq_used_iff [OF inv]
  show ?thesis
  proof (cases "kq_used_msgs q < kq_max_msgs q")
    case room: True
    show ?thesis
    proof (cases "kq_wait_q q")
      case Nil
      then show ?thesis using put_store [OF inv Nil room assms(4), of enq t nw] room assms(2) used
        by (auto simp: mq_sys_inv_def)
    next
      case (Cons u us)
      define q' where "q' = q\<lparr>kq_wait_q := us, kt_swap_data := (kt_swap_data q)(u := d), kt_return := (kt_return q)(u \<mapsto> 0)\<rparr>"
      have c: "kq_contents q' = kq_contents q" "kq_inv q'" using inv by (simp_all add: q'_def kq_thread_fields)
      have e: "kq_contents q = []" using assms(2) room Cons used(2) by (auto simp: mq_sys_inv_def)
      have w: "mq_woken q q' = [u]" using assms(2) Cons by (intro mq_woken_head) (auto simp: mq_sys_inv_def q'_def)
      have "mq_sys_inv q'" using assms(2) Cons c e by (auto simp: mq_sys_inv_def) (auto simp: q'_def)
      then show ?thesis using put_handoff [OF Cons room assms(4), of enq t nw, folded q'_def] c e w room used
        by (auto simp: kq_same_def) (auto simp: q'_def)
    qed
  next
    case False
    then have n: "kq_wait_q q = []" using assms(5) by simp
    have full: "length (kq_contents q) = unat (kq_max_msgs q)" using False used by simp
    show ?thesis
      using put_full [OF n False, of enq t d nw] mq_pend_inv [of enq, OF assms(1-4)] mq_woken_pend [of enq t q d, OF assms(1)]
        full assms(2) by (cases nw) (auto simp: kq_same_def error_codes)
  qed
qed

lemma mq_get_outcome:
  assumes "\<And>t q. mset (enq t q) = add_mset t (mset q)" and "mq_sys_inv q" and "t \<notin> set (kq_wait_q q)"
    and "length d = unat (kq_msg_size q)"
  shows "\<exists>out q'. z_impl_k_msgq_get enq t d nw q = Some (out, q') \<and> mq_sys_inv q' \<and> kq_same q q' \<and>
    out = (case kq_contents q of m # ms \<Rightarrow> Mg_returns 0 (Some m) | [] \<Rightarrow> if nw then Mg_returns ENOMSG None else Mg_pends) \<and>
    kq_contents q' = tl (kq_contents q) @ map (kt_swap_data q) (mq_woken q q')"
proof -
  have inv: "kq_inv q" using assms(2) by (simp add: mq_sys_inv_def)
  note used = kq_used_iff [OF inv]
  show ?thesis
  proof (cases "kq_used_msgs q > 0")
    case some: True
    then obtain m ms where m: "kq_contents q = m # ms" using used(1) by (cases "kq_contents q") auto
    show ?thesis
    proof (cases "kq_wait_q q")
      case Nil
      then show ?thesis using get_read [OF inv Nil some, of enq t d nw] m assms(2) by (auto simp: mq_sys_inv_def)
    next
      case (Cons u us)
      have full: "length (kq_contents q) = unat (kq_max_msgs q)" using assms(2) Cons m by (auto simp: mq_sys_inv_def)
      have len: "length (kt_swap_data q u) = unat (kq_msg_size q)" using assms(2) Cons by (simp add: mq_sys_inv_def)
      obtain q' where q': "z_impl_k_msgq_get enq t d nw q = Some (Mg_returns 0 (Some (hd (kq_contents q))), q')" "kq_inv q'" "kq_same q q'"
          "kq_contents q' = tl (kq_contents q) @ [kt_swap_data q u]" "kq_wait_q q' = us" "kt_swap_data q' = kt_swap_data q"
        using get_wake [OF inv Cons some len, of enq t d nw] by blast
      have "mq_woken q q' = [u]" using assms(2) Cons q'(5) by (intro mq_woken_head) (auto simp: mq_sys_inv_def)
      moreover have "mq_sys_inv q'" using assms(2) q' Cons full m by (auto simp: mq_sys_inv_def kq_same_def)
      ultimately show ?thesis using q' m by auto
    qed
  next
    case False
    then have e: "kq_contents q = []" using used(1) by simp
    show ?thesis
      using get_empty [OF False, of enq t d nw] mq_pend_inv [of enq, OF assms(1-4)] mq_woken_pend [of enq t q d, OF assms(1)]
        e assms(2) by (cases nw) (auto simp: kq_same_def)
  qed
qed

lemma mq_step_keeps:
  assumes "\<And>t q. mset (enq t q) = add_mset t (mset q)" and "mq_step enq q e q'" and "mq_sys_inv q"
  shows "mq_sys_inv q' \<and> kq_same q q' \<and> kq_contents q @ mq_accepted e = mq_delivered e @ kq_contents q'"
  using assms(2)
proof cases
  case (step_put t d nw out)
  obtain out1 q1 where A: "z_impl_k_msgq_put enq t d nw q = Some (out1, q1) \<and> mq_sys_inv q1 \<and> kq_same q q1 \<and>
      out1 = (if length (kq_contents q) < unat (kq_max_msgs q) then Mq_returns 0 else if nw then Mq_returns ENOMSG else Mq_pends) \<and>
      (if out1 = Mq_returns 0 then [d] else []) = map (kt_swap_data q1) (mq_woken q q1) @ drop (length (kq_contents q)) (kq_contents q1) \<and>
      take (length (kq_contents q)) (kq_contents q1) = kq_contents q \<and> (mq_woken q q1 \<noteq> [] \<longrightarrow> kq_contents q = [])"
    using mq_put_outcome [OF assms(1,3) step_put(2-4), of nw] by blast
  have eq: "out1 = out" "q1 = q'" using A step_put(5) by (metis Pair_inject option.inject)+
  have o: "mq_sys_inv q'" "kq_same q q'"
      "(if out = Mq_returns 0 then [d] else []) = map (kt_swap_data q') (mq_woken q q') @ drop (length (kq_contents q)) (kq_contents q')"
      "take (length (kq_contents q)) (kq_contents q') = kq_contents q" "mq_woken q q' \<noteq> [] \<Longrightarrow> kq_contents q = []"
    using A unfolding eq by blast+
  have "kq_contents q' = kq_contents q @ drop (length (kq_contents q)) (kq_contents q')" using o(4) by (metis append_take_drop_id)
  then show ?thesis using o step_put(1) by (cases "mq_woken q q' = []") simp_all
next
  case (step_get t d nw out)
  obtain out1 q1 where A: "z_impl_k_msgq_get enq t d nw q = Some (out1, q1) \<and> mq_sys_inv q1 \<and> kq_same q q1 \<and>
      out1 = (case kq_contents q of m # ms \<Rightarrow> Mg_returns 0 (Some m) | [] \<Rightarrow> if nw then Mg_returns ENOMSG None else Mg_pends) \<and>
      kq_contents q1 = tl (kq_contents q) @ map (kt_swap_data q) (mq_woken q q1)"
    using mq_get_outcome [OF assms(1,3) step_get(2,3), of nw] by blast
  have eq: "out1 = out" "q1 = q'" using A step_get(4) by (metis Pair_inject option.inject)+
  have o: "mq_sys_inv q'" "kq_same q q'"
      "out = (case kq_contents q of m # ms \<Rightarrow> Mg_returns 0 (Some m) | [] \<Rightarrow> if nw then Mg_returns ENOMSG None else Mg_pends)"
      "kq_contents q' = tl (kq_contents q) @ map (kt_swap_data q) (mq_woken q q')"
    using A unfolding eq by blast+
  then show ?thesis using step_get(1) by (cases "kq_contents q") auto
next
  case (step_timeout t)
  then show ?thesis using assms(3)
    by (auto simp: mq_sys_inv_def kq_thread_fields kq_same_def dest: in_set_remove1 [THEN iffD1, rotated] notin_set_remove1)
qed

lemma mq_init_inv:
  assumes "k_msgq_init q0 buffer mem sz n = Some q" and "unat n * unat sz \<le> length mem"
  shows "mq_sys_inv q" and "kq_contents q = []" and "kq_msg_size q = sz" and "kq_max_msgs q = n"
proof -
  have v: "sz \<noteq> 0" "n \<noteq> 0" "unat sz * unat n < 4294967296"
    and q: "q = q0\<lparr>kq_msg_size := sz, kq_max_msgs := n, kq_buffer_start := buffer, kq_read_ptr := buffer, kq_write_ptr := buffer,
        kq_used_msgs := 0, kq_flag_alloc := False, kq_buffer := take (unat (sz * n)) mem, kq_wait_q := []\<rparr>"
    using assms(1) by (auto simp: k_msgq_init_def gale_msgq_init_validate_def checked_mul_def error_codes split: if_splits option.splits)
  have mul: "unat (sz * n) = unat n * unat sz" using v(3) by (simp add: unat_word_ariths)
  have "kq_inv q"
    using v assms(2) mul by (simp add: q kq_inv_def mq_inv_nat kq_ring_def ptr_to_slot_def slot_to_ptr_def word_gt_0 unat_gt_0)
  moreover show "kq_contents q = []" by (simp add: q kq_contents_def mq_contents_def kq_ring_def ring_list_def)
  ultimately show "mq_sys_inv q" by (simp add: mq_sys_inv_def) (simp add: q)
  show "kq_msg_size q = sz" "kq_max_msgs q = n" by (simp_all add: q)
qed

lemma mq_trace_keeps:
  assumes "\<And>t q. mset (enq t q) = add_mset t (mset q)" and "trace (mq_step enq) q1 es q" and "mq_sys_inv q1" and "kq_contents q1 = []"
  shows "mq_sys_inv q \<and> kq_same q1 q \<and> concat (map mq_accepted es) = concat (map mq_delivered es) @ kq_contents q"
  using assms(2)
proof (induction rule: trace.induct)
  case trace_Nil
  then show ?case using assms(3,4) by (simp add: kq_same_def)
next
  case (trace_snoc es q e q')
  then have "mq_sys_inv q' \<and> kq_same q q' \<and> kq_contents q @ mq_accepted e = mq_delivered e @ kq_contents q'"
    using mq_step_keeps [OF assms(1)] by blast
  then show ?case using trace_snoc.IH by (auto simp: kq_same_def)
qed

section \<open>Properties\<close>

text \<open>
  C36: The message queue behind the C shim delivers in order and loses nothing. After every
  sequence of puts, gets and timeouts by any threads on an initialised queue (a put being
  made on a full queue only while no writer is blocked), the messages accepted so far,
  from direct puts and from blocked writers alike, are the messages delivered so far, to
  callers and to blocked readers alike, followed by the messages in the byte buffer. A
  thread waits only while the buffer is empty or full. No copy leaves the buffer; a get
  returns the oldest message, and a put is accepted exactly while there is room.
\<close>

theorem msgq_shim_fifo:
  assumes "\<And>t q. mset (enq t q) = add_mset t (mset q)"
    and "k_msgq_init q0 buffer mem sz n = Some q1" and "unat n * unat sz \<le> length mem"
    and "trace (mq_step enq) q1 es q"
  shows "concat (map mq_accepted es) = concat (map mq_delivered es) @ kq_contents q \<and>
    length (kq_contents q) \<le> unat n \<and>
    (kq_wait_q q \<noteq> [] \<longrightarrow> kq_contents q = [] \<or> length (kq_contents q) = unat n) \<and>
    (\<forall>t d nw. t \<notin> set (kq_wait_q q) \<and> length d = unat sz \<longrightarrow>
       (\<exists>q'. z_impl_k_msgq_get enq t d nw q = Some (case kq_contents q of m # ms \<Rightarrow> Mg_returns 0 (Some m)
          | [] \<Rightarrow> if nw then Mg_returns ENOMSG None else Mg_pends, q')) \<and>
       (length (kq_contents q) < unat n \<longrightarrow> (\<exists>q'. z_impl_k_msgq_put enq t d nw q = Some (Mq_returns 0, q'))) \<and>
       (length (kq_contents q) = unat n \<and> kq_wait_q q = [] \<longrightarrow>
          (\<exists>q'. z_impl_k_msgq_put enq t d nw q = Some (if nw then Mq_returns ENOMSG else Mq_pends, q'))))"
proof -
  note init = mq_init_inv [OF assms(2,3)]
  have keep: "mq_sys_inv q" "kq_same q1 q" "concat (map mq_accepted es) = concat (map mq_delivered es) @ kq_contents q"
    using mq_trace_keeps [OF assms(1,4) init(1,2)] by blast+
  have n: "kq_max_msgs q = n" "kq_msg_size q = sz" using keep(2) init(3,4) by (simp_all add: kq_same_def)
  have inv: "kq_inv q" and w: "kq_wait_q q \<noteq> [] \<Longrightarrow> kq_contents q = [] \<or> length (kq_contents q) = unat n"
    using keep(1) n by (simp_all add: mq_sys_inv_def)
  note used = kq_used_iff [OF inv, unfolded n]
  have "\<exists>q'. z_impl_k_msgq_get enq t d nw q = Some (case kq_contents q of m # ms \<Rightarrow> Mg_returns 0 (Some m)
      | [] \<Rightarrow> if nw then Mg_returns ENOMSG None else Mg_pends, q')" if "t \<notin> set (kq_wait_q q)" "length d = unat sz" for t d nw
    using mq_get_outcome [OF assms(1) keep(1) that(1), of d nw] that(2) n by auto
  moreover have "\<exists>q'. z_impl_k_msgq_put enq t d nw q = Some (Mq_returns 0, q')"
    if "t \<notin> set (kq_wait_q q)" "length d = unat sz" "length (kq_contents q) < unat n" for t d nw
    using mq_put_outcome [OF assms(1) keep(1) that(1), of d nw] that(2,3) n used(2) by auto
  moreover have "\<exists>q'. z_impl_k_msgq_put enq t d nw q = Some (if nw then Mq_returns ENOMSG else Mq_pends, q')"
    if "t \<notin> set (kq_wait_q q)" "length d = unat sz" "length (kq_contents q) = unat n \<and> kq_wait_q q = []" for t d nw
    using mq_put_outcome [OF assms(1) keep(1) that(1), of d nw] that(2,3) n by auto
  ultimately show ?thesis using keep(3) w used(3) by blast
qed

definition k_msgq_example :: "u32 \<Rightarrow> u32 \<Rightarrow> nat list \<Rightarrow> k_msgq" where
  "k_msgq_example used n ws = \<lparr>kq_msg_size = 1, kq_max_msgs = n, kq_buffer_start = 100, kq_read_ptr = 100, kq_write_ptr = 100,
     kq_used_msgs = used, kq_flag_alloc = False, kq_buffer = [0, 0], kq_wait_q = ws, kt_swap_data = (\<lambda>t. [0]), kt_return = (\<lambda>t. None)\<rparr>"

lemma msgq_example_put:
  "\<exists>q. mq_step (\<lambda>t q. q @ [t]) (k_msgq_example 0 2 []) (Mq_event [[7]] []) q"
proof -
  obtain q' where q': "z_impl_k_msgq_put (\<lambda>t q. q @ [t]) 1 [7] True (k_msgq_example 0 2 []) = Some (Mq_returns 0, q')"
      "kq_wait_q q' = []"
  proof -
    have "kq_inv (k_msgq_example 0 2 [])"
      by (simp add: k_msgq_example_def kq_inv_def mq_inv_nat kq_ring_def ptr_to_slot_def slot_to_ptr_def)
    from put_store [OF this, of "[7]" "\<lambda>t q. q @ [t]" 1 True] that show ?thesis by (auto simp: k_msgq_example_def)
  qed
  have "mq_step (\<lambda>t q. q @ [t]) (k_msgq_example 0 2 []) (Mq_event (if Mq_returns 0 = Mq_returns 0 then [[7]] else [])
      (map (kt_swap_data q') (mq_woken (k_msgq_example 0 2 []) q'))) q'"
    by (rule step_put [OF _ _ _ q'(1)]) (simp_all add: k_msgq_example_def)
  then show ?thesis using q'(2) by (auto simp: mq_woken_def k_msgq_example_def)
qed

theorem msgq_shim_fifo_witness:
  "\<exists>q. trace (mq_step (\<lambda>t q. q @ [t])) (k_msgq_example 0 2 []) [Mq_event [[7]] []] q \<and> kq_contents q = [[7]]"
proof -
  have init: "k_msgq_init (k_msgq_example 0 2 []) 100 [0, 0] 1 2 = Some (k_msgq_example 0 2 [])"
    by (simp add: k_msgq_init_def gale_msgq_init_validate_def checked_mul_def error_codes k_msgq_example_def)
  obtain q where "trace (mq_step (\<lambda>t q. q @ [t])) (k_msgq_example 0 2 []) [Mq_event [[7]] []] q"
    using msgq_example_put trace_one by metis
  with msgq_shim_fifo [OF _ init _ this] show ?thesis by auto
qed

text \<open>
  C37: A put on a full queue takes the first blocked writer off the wait queue before it
  finds the queue full, and does not put it back: the writer is not waiting any more, is
  not made ready, and its message is not in the queue. This is so for a put without
  waiting, which reports a full queue, and for a waiting one.
\<close>

theorem msgq_put_drops_writer:
  assumes "kq_wait_q q = w # ws" and "kq_used_msgs q = kq_max_msgs q"
  shows "z_impl_k_msgq_put enq t d True q = Some (Mq_returns ENOMSG, q\<lparr>kq_wait_q := ws\<rparr>) \<and>
         z_impl_k_msgq_put enq t d False q = Some (Mq_pends, mq_pend enq t d (q\<lparr>kq_wait_q := ws\<rparr>))"
  using assms by (simp add: kq_call_defs put_decide_def)

theorem msgq_put_drops_writer_witness:
  "z_impl_k_msgq_put (\<lambda>t q. q @ [t]) 1 [7] True (k_msgq_example 2 2 [3]) =
     Some (Mq_returns ENOMSG, (k_msgq_example 2 2 [3])\<lparr>kq_wait_q := []\<rparr>)"
  using msgq_put_drops_writer [of "k_msgq_example 2 2 [3]" 3 "[]" "\<lambda>t q. q @ [t]" 1 "[7]"] by (simp add: k_msgq_example_def)

section \<open>Urgent messages, peeking and purging\<close>

lemma kq_front:
  assumes "kq_inv q" "kq_wait_q q = []" "kq_used_msgs q < kq_max_msgs q" "length d = unat (kq_msg_size q)"
  shows "\<exists>q'. z_impl_k_msgq_put_front d q = Some (0, q') \<and> kq_inv q' \<and> kq_contents q' = d # kq_contents q"
proof -
  let ?R = "kq_ring q"
  note b = kq_inv_bounds [OF assms(1)]
  have inv: "mq_inv ?R" and room: "unat (mq_used_msgs ?R) < unat (mq_max_msgs ?R)"
    using assms(1,3) by (simp_all add: kq_inv_def kq_ring_def word_less_nat_alt)
  define r where "r = (if ptr_to_slot q (kq_read_ptr q) = 0 then kq_max_msgs q - 1 else ptr_to_slot q (kq_read_ptr q) - 1)"
  have prev: "(if ptr_to_slot q (kq_read_ptr q) = 0 then sub_chk (kq_max_msgs q) 1 else sub_chk (ptr_to_slot q (kq_read_ptr q)) 1) = Some r"
    "unat r = (unat (ptr_to_slot q (kq_read_ptr q)) + unat (kq_max_msgs q) - 1) mod unat (kq_max_msgs q)"
    using prev_index_mod [OF b(3)] by (simp_all add: r_def)
  have n: "add_chk (kq_used_msgs q) 1 = Some (kq_used_msgs q + 1)" "unat (kq_used_msgs q + 1) = Suc (unat (kq_used_msgs q))"
    using assms(3) by (simp_all add: add_chk_one unat_plus_one)
  have inv': "mq_inv (?R\<lparr>mq_read_idx := r, mq_used_msgs := kq_used_msgs q + 1\<rparr>)"
  proof -
    have "\<not> mq_max_msgs ?R \<le> mq_used_msgs ?R" using room by (simp add: word_le_nat_alt)
    then have "mq_put_front ?R = Some (Inr r, ?R\<lparr>mq_read_idx := r, mq_used_msgs := kq_used_msgs q + 1\<rparr>)"
      using prev(1) n by (cases "ptr_to_slot q (kq_read_ptr q) = 0") (simp_all add: mq_put_front_def mq_prev_idx_def kq_ring_def)
    then show ?thesis using mq_put_front_room [OF inv room] by auto
  qed
  define q1 where "q1 = q\<lparr>kq_read_ptr := slot_to_ptr q r, kq_used_msgs := kq_used_msgs q + 1\<rparr>"
  have ptr: "ptr_to_slot q1 = ptr_to_slot q" "slot_to_ptr q1 = slot_to_ptr q" by (rule ptr_cong; simp add: q1_def)+
  have ring: "kq_ring q1 = ?R\<lparr>mq_read_idx := r, mq_used_msgs := kq_used_msgs q + 1\<rparr>"
    using ptr_to_slot_to_ptr [OF b(1), of r] by (simp add: kq_ring_def ptr) (simp add: q1_def)
  have inv1: "kq_inv q1"
    using assms(1) inv' ptr_to_slot_to_ptr [OF b(1), of r] by (simp add: kq_inv_def ring ptr) (simp add: q1_def)
  have r: "r < kq_max_msgs q1" "length d = unat (kq_msg_size q1)"
    using kq_inv_bounds(3) [OF inv1] ptr_to_slot_to_ptr [OF b(1), of r] assms(4) by (simp_all add: ptr) (simp_all add: q1_def)
  obtain m where m: "copy_in q1 (kq_read_ptr q1) d = Some (q1\<lparr>kq_buffer := m\<rparr>)" "length m = length (kq_buffer q1)"
      "kq_slots (q1\<lparr>kq_buffer := m\<rparr>) = (kq_slots q1)[unat r := d]"
    using copy_in_slot [OF inv1 r] by (auto simp: ptr) (auto simp: q1_def)
  define q2 where "q2 = q1\<lparr>kq_buffer := m\<rparr>"
  have ptr2: "ptr_to_slot q2 = ptr_to_slot q1" "slot_to_ptr q2 = slot_to_ptr q1" by (rule ptr_cong; simp add: q2_def)+
  have ring2: "kq_ring q2 = kq_ring q1" by (simp add: kq_ring_def ptr2) (simp add: q2_def)
  have "kq_inv q2" using inv1 m(2) by (simp add: kq_inv_def ring2 ptr2) (simp add: q2_def)
  moreover have "kq_contents q2 = d # kq_contents q"
  proof -
    have "kq_slots q2 = (kq_slots q)[unat r := d]" using m(3) by (simp add: q2_def) (simp add: kq_slots_def q1_def)
    then show ?thesis
      using ring_list_put_front [of "unat (kq_max_msgs q)" "unat (ptr_to_slot q (kq_read_ptr q))" "unat (kq_used_msgs q)" "kq_slots q" d]
        b(3,8) room prev(2) n(2)
      by (simp add: kq_contents_def mq_contents_def ring2 ring) (simp add: kq_ring_def word_less_nat_alt)
  qed
  moreover have "z_impl_k_msgq_put_front d q = Some (0, q2)"
  proof -
    have "gale_msgq_put_front (ptr_to_slot q (kq_read_ptr q)) (kq_used_msgs q) (kq_max_msgs q) = Some (0, Some (r, kq_used_msgs q + 1))"
      using assms(3) b(2) prev(1) n(1)
      by (cases "ptr_to_slot q (kq_read_ptr q) = 0") (simp_all add: gale_msgq_put_front_def put_front_decide_def error_codes)
    moreover have "kq_read_ptr q1 = slot_to_ptr q r" by (simp add: q1_def)
    ultimately show ?thesis using assms(2,3) m(1)
      by (simp add: z_impl_k_msgq_put_front_def put_front_in_queue_def mq_unpend_first_def q1_def [symmetric] q2_def Let_def)
  qed
  ultimately show ?thesis by blast
qed

lemma kq_peek:
  assumes "kq_inv q"
  shows "z_impl_k_msgq_peek q = Some (case kq_contents q of m # ms \<Rightarrow> (0, Some m) | [] \<Rightarrow> (ENOMSG, None))"
proof (cases "kq_used_msgs q > 0")
  case True
  then show ?thesis using kq_load [OF assms True] kq_used_iff(1) [OF assms]
    by (auto simp: z_impl_k_msgq_peek_def split: list.splits)
next
  case False
  then show ?thesis using kq_used_iff(1) [OF assms] by (simp add: z_impl_k_msgq_peek_def)
qed

lemma kq_peek_at:
  assumes "kq_inv q"
  shows "z_impl_k_msgq_peek_at i q =
    Some (if unat i < length (kq_contents q) then (0, Some (kq_contents q ! unat i)) else (ENOMSG, None))"
proof (cases "i < kq_used_msgs q")
  case True
  note b = kq_inv_bounds [OF assms]
  obtain s where s: "wrap_sum (ptr_to_slot q (kq_read_ptr q)) i (kq_max_msgs q) = Some s" "s < kq_max_msgs q"
      "unat s = (unat (ptr_to_slot q (kq_read_ptr q)) + unat i) mod unat (kq_max_msgs q)"
    using wrap_sum_mod [OF b(3), of i] True b(5) by force
  have "kq_contents q ! unat i = kq_slots q ! unat s"
    using True s(3) by (simp add: kq_contents_def mq_contents_def ring_list_def kq_ring_def word_less_nat_alt)
  then show ?thesis
    using True s copy_out_slot [OF assms s(2)] b(2,9) True [folded not_le]
    by (simp add: z_impl_k_msgq_peek_at_def gale_msgq_peek_at_def peek_at_decide_def error_codes word_less_nat_alt)
next
  case False
  then show ?thesis using kq_inv_bounds(2,9) [OF assms]
    by (simp add: z_impl_k_msgq_peek_at_def gale_msgq_peek_at_def peek_at_decide_def error_codes word_less_nat_alt word_le_nat_alt)
qed

lemma purge_wake_eq:
  "kq_wait_q q = ts \<Longrightarrow> purge_wake ts q =
     q\<lparr>kq_wait_q := [], kt_return := (\<lambda>t. if t \<in> set ts then Some ENOMSG else kt_return q t)\<rparr>"
  by (induction ts arbitrary: q) (auto simp: mq_ready_def fun_eq_iff)

lemma kq_purge:
  assumes "kq_inv q"
  shows "kq_inv (z_impl_k_msgq_purge q)" "kq_contents (z_impl_k_msgq_purge q) = []" "kq_wait_q (z_impl_k_msgq_purge q) = []"
    "t \<in> set (kq_wait_q q) \<Longrightarrow> kt_return (z_impl_k_msgq_purge q) t = Some ENOMSG"
proof -
  define q' where "q' = z_impl_k_msgq_purge q"
  have q': "q' = q\<lparr>kq_wait_q := [], kt_return := (\<lambda>t. if t \<in> set (kq_wait_q q) then Some ENOMSG else kt_return q t),
      kq_used_msgs := 0, kq_read_ptr := kq_write_ptr q\<rparr>"
    by (simp add: q'_def z_impl_k_msgq_purge_def purge_wake_eq)
  have ptr: "ptr_to_slot q' = ptr_to_slot q" "slot_to_ptr q' = slot_to_ptr q" by (rule ptr_cong; simp add: q')+
  have ring: "kq_ring q' = (kq_ring q)\<lparr>mq_read_idx := mq_write_idx (kq_ring q), mq_used_msgs := 0\<rparr>"
    by (simp add: kq_ring_def ptr) (simp add: q')
  have "mq_inv (kq_ring q')" using assms by (simp add: kq_inv_def ring mq_inv_nat word_less_nat_alt)
  then show "kq_inv (z_impl_k_msgq_purge q)"
    using assms unfolding q'_def [symmetric] by (simp add: kq_inv_def ptr) (simp add: q')
  show "kq_contents (z_impl_k_msgq_purge q) = []"
    unfolding q'_def [symmetric] by (simp add: kq_contents_def mq_contents_def ring ring_list_def)
  show "kq_wait_q (z_impl_k_msgq_purge q) = []" "t \<in> set (kq_wait_q q) \<Longrightarrow> kt_return (z_impl_k_msgq_purge q) t = Some ENOMSG"
    unfolding q'_def [symmetric] by (simp_all add: q')
qed

end
