(* ===== verification/Futex.thy ===== *)
theory Futex
  imports Wait_Queue
begin

text \<open>
  The futex: the object (src/futex.rs), its exported decisions (the futex section of
  ffi/src/lib.rs) and the C shim (zephyr/gale_futex.c). The property is about threads that
  store a value and wake, against threads that wait for a value to change.
\<close>

section \<open>The object (src/futex.rs)\<close>

datatype futex_wait_decision = FW_Block | FW_Mismatch

record futex_wake_decision =
  fwd_woken :: u32
  fwd_remaining :: u32

definition futex_wait_decide :: "u32 \<Rightarrow> u32 \<Rightarrow> futex_wait_decision" where
  "futex_wait_decide val expected = (if val = expected then FW_Block else FW_Mismatch)"

definition futex_wake_decide :: "u32 \<Rightarrow> bool \<Rightarrow> futex_wake_decision run" where
  "futex_wake_decide num_waiters wake_all =
     (if num_waiters = 0 then Ret \<lparr>fwd_woken = 0, fwd_remaining = 0\<rparr>
      else if wake_all then Ret \<lparr>fwd_woken = num_waiters, fwd_remaining = 0\<rparr>
      else do { r \<leftarrow> sub_chk num_waiters 1; Ret \<lparr>fwd_woken = 1, fwd_remaining = r\<rparr> })"

datatype futex_wait_result = Futex_Blocked | Futex_Mismatch

record futex =
  fx_val :: u32
  fx_wait_q :: wait_queue

definition futex_init :: "u32 \<Rightarrow> futex" where
  "futex_init initial_val = \<lparr>fx_val = initial_val, fx_wait_q = wq_new\<rparr>"

definition futex_wait :: "u32 \<Rightarrow> thread \<Rightarrow> futex \<Rightarrow> (futex_wait_result \<times> futex) run" where
  "futex_wait expected t f =
     (if fx_val f \<noteq> expected then Ret (Futex_Mismatch, f)
      else do {
        (inserted, wq) \<leftarrow> pend (thread_block t) (fx_wait_q f);
        Ret (Futex_Blocked, f\<lparr>fx_wait_q := wq\<rparr>)
      })"

text \<open>The loop that wakes every waiter; the threads are collected in an array of 64.\<close>

function futex_wake_loop :: "nat \<Rightarrow> nat \<Rightarrow> u32 \<Rightarrow> thread option list \<Rightarrow> wait_queue \<Rightarrow> (u32 \<times> thread option list \<times> wait_queue) run" where
  "futex_wake_loop cnt i woken threads wq =
     (if i < cnt then do {
        (th, wq) \<leftarrow> unpend_first OK_code wq;
        (case th of
           Some t \<Rightarrow> do {
             threads \<leftarrow> arr_set threads i (Some t);
             woken \<leftarrow> add_chk woken 1;
             futex_wake_loop cnt (i + 1) woken threads wq
           }
         | None \<Rightarrow> futex_wake_loop cnt (i + 1) woken threads wq)
      }
      else Ret (woken, threads, wq))"
  by auto
termination
  by (relation "measure (\<lambda>(n, i, _). n - i)") auto

declare futex_wake_loop.simps [simp del]

definition futex_wake :: "bool \<Rightarrow> futex \<Rightarrow> ((u32 \<times> thread option list) \<times> futex) run" where
  "futex_wake wake_all f =
     (if \<not> wake_all then do {
        (th, wq) \<leftarrow> unpend_first OK_code (fx_wait_q f);
        (case th of
           Some t \<Rightarrow> do {
             threads \<leftarrow> arr_set (replicate 64 None) 0 (Some t);
             Ret ((1, threads), f\<lparr>fx_wait_q := wq\<rparr>)
           }
         | None \<Rightarrow> Ret ((0, replicate 64 None), f\<lparr>fx_wait_q := wq\<rparr>))
      }
      else do {
        (woken, threads, wq) \<leftarrow> futex_wake_loop (unat (wq_length (fx_wait_q f))) 0 0 (replicate 64 None) (fx_wait_q f);
        Ret ((woken, threads), f\<lparr>fx_wait_q := wq\<rparr>)
      })"

definition futex_val_set :: "u32 \<Rightarrow> futex \<Rightarrow> futex" where
  "futex_val_set new_val f = f\<lparr>fx_val := new_val\<rparr>"

definition futex_val_get :: "futex \<Rightarrow> u32" where
  "futex_val_get f = fx_val f"

definition futex_num_waiters :: "futex \<Rightarrow> u32" where
  "futex_num_waiters f = wq_length (fx_wait_q f)"

section \<open>The exported functions (ffi)\<close>

definition gale_futex_wait_check :: "u32 \<Rightarrow> u32 \<Rightarrow> i32" where
  "gale_futex_wait_check val expected =
     (case futex_wait_decide val expected of FW_Block \<Rightarrow> OK_code | FW_Mismatch \<Rightarrow> EAGAIN)"

text \<open>The two output pointers are options, None when null.\<close>

definition gale_futex_wake :: "u32 \<Rightarrow> u32 \<Rightarrow> u32 option \<Rightarrow> u32 option \<Rightarrow> (i32 \<times> u32 option \<times> u32 option) run" where
  "gale_futex_wake num_waiters wake_all woken remaining =
     (if woken = None \<or> remaining = None then Ret (EINVAL, woken, remaining)
      else do {
        d \<leftarrow> futex_wake_decide num_waiters (wake_all \<noteq> 0);
        Ret (OK_code, Some (fwd_woken d), Some (fwd_remaining d))
      })"

record gale_futex_wait_decision =
  gf_action :: u8
  gf_ret :: i32

definition gale_k_futex_wait_decide :: "u32 \<Rightarrow> u32 \<Rightarrow> u32 \<Rightarrow> gale_futex_wait_decision" where
  "gale_k_futex_wait_decide val expected is_no_wait =
     (case futex_wait_decide val expected of
        FW_Mismatch \<Rightarrow> \<lparr>gf_action = 1, gf_ret = EAGAIN\<rparr>
      | FW_Block \<Rightarrow>
          if is_no_wait \<noteq> 0 then \<lparr>gf_action = 1, gf_ret = ETIMEDOUT\<rparr>
          else \<lparr>gf_action = 0, gf_ret = OK_code\<rparr>)"

definition gale_k_futex_wake_decide :: "u32 \<Rightarrow> u32 \<Rightarrow> u32 run" where
  "gale_k_futex_wake_decide num_waiters wake_all = do {
     d \<leftarrow> futex_wake_decide num_waiters (wake_all \<noteq> 0);
     Ret (fwd_woken d)
   }"

section \<open>The C shim (gale_futex.c)\<close>

text \<open>
  The value is the user's memory, the wait queue belongs to the kernel. found says whether
  k_object_find knows the address as a futex; enq is the insertion of a pending thread.
\<close>

record k_futex =
  kf_val :: u32
  kf_wait_q :: "nat list"
  kf_return :: "nat \<Rightarrow> i32 option"

fun futex_wake_threads :: "bool \<Rightarrow> nat list \<Rightarrow> nat \<Rightarrow> k_futex \<Rightarrow> nat \<times> k_futex" where
  "futex_wake_threads wake_all [] woken s = (woken, s)"
| "futex_wake_threads wake_all (t # ts) woken s =
     (let s = s\<lparr>kf_wait_q := ts, kf_return := (kf_return s)(t \<mapsto> 0)\<rparr>
      in if wake_all then futex_wake_threads wake_all ts (woken + 1) s else (woken + 1, s))"

definition z_impl_k_futex_wake :: "bool \<Rightarrow> bool \<Rightarrow> k_futex \<Rightarrow> i32 \<times> k_futex" where
  "z_impl_k_futex_wake found wake_all s =
     (if \<not> found then (EINVAL, s)
      else case futex_wake_threads wake_all (kf_wait_q s) 0 s of (woken, s) \<Rightarrow> (int woken, s))"

datatype futex_out = Futex_returns i32 | Futex_pends

definition z_impl_k_futex_wait ::
    "(nat \<Rightarrow> nat list \<Rightarrow> nat list) \<Rightarrow> bool \<Rightarrow> nat \<Rightarrow> u32 \<Rightarrow> bool \<Rightarrow> k_futex \<Rightarrow> futex_out \<times> k_futex" where
  "z_impl_k_futex_wait enq found current expected no_wait s =
     (if \<not> found then (Futex_returns EINVAL, s)
      else
        let val = kf_val s;
            d = gale_k_futex_wait_decide val expected (if no_wait then 1 else 0)
        in if gf_action d \<noteq> 0 then (Futex_returns (gf_ret d), s)
           else (Futex_pends, s\<lparr>kf_wait_q := enq current (kf_wait_q s), kf_return := (kf_return s)(current := None)\<rparr>))"

text \<open>What a pended call returns with the result of z_pend_curr.\<close>

definition futex_wait_resume :: "i32 \<Rightarrow> i32" where
  "futex_wait_resume ret = (if ret = EAGAIN then ETIMEDOUT else ret)"

section \<open>The object wakes in priority order\<close>

lemma futex_wake_loop_eq:
  assumes "wq_inv wq" and "length (wq_view wq) + i \<le> 64" and "unat woken = i" and "length threads = 64"
  shows "\<exists>wq'. futex_wake_loop (i + length (wq_view wq)) i woken threads wq =
      Some (woken + of_nat (length (wq_view wq)),
        take i threads @ map (Some \<circ> thread_wake OK_code) (wq_view wq) @ drop (i + length (wq_view wq)) threads, wq') \<and>
    wq_inv wq' \<and> wq_view wq' = []"
  using assms
proof (induction "wq_view wq" arbitrary: wq i woken threads)
  case Nil
  then show ?case by (subst futex_wake_loop.simps) (simp flip: Nil.hyps)
next
  case (Cons t ts)
  obtain wq1 where wq1: "unpend_first OK_code wq = Some (Some (thread_wake OK_code t), wq1)" "wq_inv wq1" "wq_view wq1 = ts"
    using unpend_first_first [OF Cons.prems(1), of t ts] Cons.hyps(2) by metis
  have i: "i < 64" using Cons.prems(2) by (simp flip: Cons.hyps(2))
  then have w: "add_chk woken 1 = Some (woken + 1)" "unat (woken + 1) = i + 1"
    using Cons.prems(3) unat_plus_one [of woken 64] add_chk_one [of woken 64] by (simp_all add: word_less_nat_alt)
  let ?threads = "threads[i := Some (thread_wake OK_code t)]"
  have "futex_wake_loop (i + length (wq_view wq)) i woken threads wq =
      futex_wake_loop ((i + 1) + length (wq_view wq1)) (i + 1) (woken + 1) ?threads wq1"
    using wq1 w i Cons.prems(4)
    by (subst futex_wake_loop.simps) (simp add: arr_set_def flip: Cons.hyps(2))
  moreover obtain wq' where "futex_wake_loop ((i + 1) + length (wq_view wq1)) (i + 1) (woken + 1) ?threads wq1 =
      Some (woken + 1 + of_nat (length (wq_view wq1)),
        take (i + 1) ?threads @ map (Some \<circ> thread_wake OK_code) (wq_view wq1) @ drop (i + 1 + length (wq_view wq1)) ?threads, wq')"
      "wq_inv wq'" "wq_view wq' = []"
    using Cons.hyps(1) [of wq1 "i + 1" "woken + 1" ?threads] wq1 w(2) Cons.prems(2,4)
    by (auto simp flip: Cons.hyps(2))
  moreover have "take (i + 1) ?threads = take i threads @ [Some (thread_wake OK_code t)]"
    using i Cons.prems(4) by (simp add: take_Suc_conv_app_nth)
  ultimately show ?case using wq1(3) Cons.hyps(2) [symmetric] by simp
qed

text \<open>Waking all returns the threads of the queue in priority order; waking one returns the first.\<close>

lemma futex_wake_all:
  assumes "wq_inv (fx_wait_q f)"
  shows "\<exists>f'. futex_wake True f = Some ((of_nat (length (wq_view (fx_wait_q f))),
      slots 64 (map (thread_wake OK_code) (wq_view (fx_wait_q f)))), f') \<and> wq_view (fx_wait_q f') = [] \<and> fx_val f' = fx_val f"
proof -
  have len: "length (wq_view (fx_wait_q f)) \<le> 64" using waitq.inv_cap [OF assms] .
  have n: "unat (wq_length (fx_wait_q f)) = length (wq_view (fx_wait_q f))"
    using wq_inv_slots(2) [OF assms] by (simp add: wq_length_def)
  show ?thesis
    using futex_wake_loop_eq [OF assms, of 0 0 "replicate 64 None"] len
    by (auto simp: futex_wake_def n slots_def)
qed

lemma futex_wake_one:
  assumes "wq_inv (fx_wait_q f)" and "wq_view (fx_wait_q f) = t # ts"
  shows "\<exists>threads f'. futex_wake False f = Some ((1, threads), f') \<and> threads ! 0 = Some (thread_wake OK_code t) \<and>
     wq_inv (fx_wait_q f') \<and> wq_view (fx_wait_q f') = ts \<and> fx_val f' = fx_val f"
  using unpend_first_first [OF assms, of OK_code] by (auto simp: futex_wake_def arr_set_def)

section \<open>Stores, wakes and waits\<close>

text \<open>
  The threads of a system: each remembers the value it is waiting against, and a thread that
  has stored a new value still owes a wake. Users store without the kernel; each store is
  followed by a wake of all waiters.
\<close>

record futex_world =
  fw_futex :: k_futex
  fw_expected :: "nat \<Rightarrow> u32"
  fw_owes :: "nat set"

inductive futex_step :: "(nat \<Rightarrow> nat list \<Rightarrow> nat list) \<Rightarrow> futex_world \<Rightarrow> futex_world \<Rightarrow> bool"
  for enq :: "nat \<Rightarrow> nat list \<Rightarrow> nat list" where
  futex_store: "t \<notin> set (kf_wait_q (fw_futex w)) \<Longrightarrow>
     futex_step enq w (w\<lparr>fw_futex := (fw_futex w)\<lparr>kf_val := v\<rparr>, fw_owes := insert t (fw_owes w)\<rparr>)"
| futex_wakes: "t \<in> fw_owes w \<Longrightarrow> z_impl_k_futex_wake True True (fw_futex w) = (n, f) \<Longrightarrow>
     futex_step enq w (w\<lparr>fw_futex := f, fw_owes := fw_owes w - {t}\<rparr>)"
| futex_waits: "t \<notin> set (kf_wait_q (fw_futex w)) \<Longrightarrow> t \<notin> fw_owes w \<Longrightarrow>
     z_impl_k_futex_wait enq True t e nw (fw_futex w) = (out, f) \<Longrightarrow>
     futex_step enq w (w\<lparr>fw_futex := f, fw_expected := (fw_expected w)(t := e)\<rparr>)"
| futex_timeout: "t \<in> set (kf_wait_q (fw_futex w)) \<Longrightarrow>
     futex_step enq w (w\<lparr>fw_futex := (fw_futex w)\<lparr>kf_wait_q := remove1 t (kf_wait_q (fw_futex w)),
       kf_return := (kf_return (fw_futex w))(t \<mapsto> EAGAIN)\<rparr>\<rparr>)"

definition futex_world_inv :: "futex_world \<Rightarrow> bool" where
  "futex_world_inv w \<longleftrightarrow> distinct (kf_wait_q (fw_futex w)) \<and> set (kf_wait_q (fw_futex w)) \<inter> fw_owes w = {} \<and>
     (\<forall>t\<in>set (kf_wait_q (fw_futex w)). fw_expected w t = kf_val (fw_futex w) \<or> fw_owes w \<noteq> {})"

lemma futex_wake_threads_all:
  "futex_wake_threads True ts n s =
     (n + length ts, if ts = [] then s else s\<lparr>kf_wait_q := [], kf_return := (\<lambda>t. if t \<in> set ts then Some 0 else kf_return s t)\<rparr>)"
  by (induction ts arbitrary: n s) (auto simp: Let_def fun_eq_iff)

lemma futex_wake_all_threads:
  assumes "z_impl_k_futex_wake True True s = (n, f)"
  shows "kf_wait_q f = []" and "kf_val f = kf_val s" and "n = int (length (kf_wait_q s))"
    and "t \<in> set (kf_wait_q s) \<Longrightarrow> kf_return f t = Some 0"
  using assms by (auto simp: z_impl_k_futex_wake_def futex_wake_threads_all split: if_splits)

lemma futex_wait_outcome:
  "z_impl_k_futex_wait enq True t e nw s =
     (if kf_val s \<noteq> e then (Futex_returns EAGAIN, s)
      else if nw then (Futex_returns ETIMEDOUT, s)
      else (Futex_pends, s\<lparr>kf_wait_q := enq t (kf_wait_q s), kf_return := (kf_return s)(t := None)\<rparr>))"
  by (simp add: z_impl_k_futex_wait_def gale_k_futex_wait_decide_def futex_wait_decide_def)

lemma futex_step_inv:
  assumes "\<And>t q. mset (enq t q) = add_mset t (mset q)" and "futex_step enq w w'" and "futex_world_inv w"
  shows "futex_world_inv w'"
  using assms(2)
proof cases
  case (futex_store t v)
  then show ?thesis using assms(3) by (auto simp: futex_world_inv_def)
next
  case (futex_wakes t n f)
  then show ?thesis using futex_wake_all_threads(1) by (simp add: futex_world_inv_def)
next
  case (futex_waits t e nw out f)
  let ?q = "kf_wait_q (fw_futex w)"
  have "set (enq t ?q) = insert t (set ?q)" using assms(1) by (metis set_mset_add_mset_insert set_mset_mset)
  moreover have "distinct (enq t ?q)"
    using assms(1,3) futex_waits(2) by (metis distinct.simps(2) futex_world_inv_def mset.simps(2) mset_eq_imp_distinct_iff)
  ultimately show ?thesis
    using futex_waits assms(3) by (auto simp: futex_wait_outcome futex_world_inv_def split: if_splits)
next
  case (futex_timeout t)
  then show ?thesis using assms(3) by (auto simp: futex_world_inv_def dest: notin_set_remove1)
qed


definition futex_example :: futex_world where
  "futex_example = \<lparr>fw_futex = \<lparr>kf_val = 0, kf_wait_q = [], kf_return = (\<lambda>t. None)\<rparr>, fw_expected = (\<lambda>t. 0), fw_owes = {}\<rparr>"


end
