(* ===== verification/Platform.thy ===== *)
theory Platform
  imports Mpu Kernel_Thread
begin

text \<open>
  The modules close to the hardware and to system start: decoding of Cortex-M faults
  (src/fault_decode.rs), the reaction to fatal errors (src/fatal.rs, its exported functions
  in ffi/src/lib.rs), the system tick (src/systick.rs), stack areas (src/stack_config.rs)
  and the order of device initialisation (src/device_init.rs).
\<close>

section \<open>Faults (src/fault_decode.rs)\<close>

definition MMFSR_IACCVIOL :: u32 where "MMFSR_IACCVIOL = push_bit 0 1"
definition MMFSR_DACCVIOL :: u32 where "MMFSR_DACCVIOL = push_bit 1 1"
definition MMFSR_MMARVALID :: u32 where "MMFSR_MMARVALID = push_bit 7 1"
definition BFSR_IBUSERR :: u32 where "BFSR_IBUSERR = push_bit 8 1"
definition BFSR_PRECISERR :: u32 where "BFSR_PRECISERR = push_bit 9 1"
definition BFSR_IMPRECISERR :: u32 where "BFSR_IMPRECISERR = push_bit 10 1"
definition BFSR_BFARVALID :: u32 where "BFSR_BFARVALID = push_bit 15 1"
definition UFSR_UNDEFINSTR :: u32 where "UFSR_UNDEFINSTR = push_bit 16 1"
definition UFSR_INVSTATE :: u32 where "UFSR_INVSTATE = push_bit 17 1"
definition UFSR_STKOF :: u32 where "UFSR_STKOF = push_bit 20 1"
definition UFSR_UNALIGNED :: u32 where "UFSR_UNALIGNED = push_bit 24 1"
definition UFSR_DIVBYZERO :: u32 where "UFSR_DIVBYZERO = push_bit 25 1"
definition HFSR_VECTTBL :: u32 where "HFSR_VECTTBL = push_bit 1 1"
definition HFSR_FORCED :: u32 where "HFSR_FORCED = push_bit 30 1"
definition HFSR_DEBUGEVT :: u32 where "HFSR_DEBUGEVT = push_bit 31 1"

lemmas fault_consts = MMFSR_IACCVIOL_def MMFSR_DACCVIOL_def MMFSR_MMARVALID_def BFSR_IBUSERR_def BFSR_PRECISERR_def
  BFSR_IMPRECISERR_def BFSR_BFARVALID_def UFSR_UNDEFINSTR_def UFSR_INVSTATE_def UFSR_STKOF_def UFSR_UNALIGNED_def
  UFSR_DIVBYZERO_def HFSR_VECTTBL_def HFSR_FORCED_def HFSR_DEBUGEVT_def

datatype fault_category = MemManage | BusFault | UsageFault | HardFault | NoFault

record cortex_m_fault =
  cfsr :: u32
  hfsr :: u32
  mmfar :: u32
  bfar :: u32

definition mmfsr :: "cortex_m_fault \<Rightarrow> u32" where "mmfsr f = cfsr f AND 0x000000FF"
definition bfsr :: "cortex_m_fault \<Rightarrow> u32" where "bfsr f = cfsr f AND 0x0000FF00"
definition ufsr :: "cortex_m_fault \<Rightarrow> u32" where "ufsr f = cfsr f AND 0xFFFF0000"

definition is_mmfar_valid :: "cortex_m_fault \<Rightarrow> bool" where
  "is_mmfar_valid f \<longleftrightarrow> cfsr f AND MMFSR_MMARVALID \<noteq> 0"

definition is_bfar_valid :: "cortex_m_fault \<Rightarrow> bool" where
  "is_bfar_valid f \<longleftrightarrow> cfsr f AND BFSR_BFARVALID \<noteq> 0"

definition mmfar_checked :: "cortex_m_fault \<Rightarrow> u32 option" where
  "mmfar_checked f = (if cfsr f AND MMFSR_MMARVALID \<noteq> 0 then Some (mmfar f) else None)"

definition bfar_checked :: "cortex_m_fault \<Rightarrow> u32 option" where
  "bfar_checked f = (if cfsr f AND BFSR_BFARVALID \<noteq> 0 then Some (bfar f) else None)"

definition is_escalated :: "cortex_m_fault \<Rightarrow> bool" where
  "is_escalated f \<longleftrightarrow> hfsr f AND HFSR_FORCED \<noteq> 0"

definition is_vecttbl_fault :: "cortex_m_fault \<Rightarrow> bool" where
  "is_vecttbl_fault f \<longleftrightarrow> hfsr f AND HFSR_VECTTBL \<noteq> 0"

definition fault_classify :: "cortex_m_fault \<Rightarrow> fault_category" where
  "fault_classify f =
     (if hfsr f AND HFSR_FORCED \<noteq> 0 \<or> hfsr f AND HFSR_VECTTBL \<noteq> 0 \<or> hfsr f AND HFSR_DEBUGEVT \<noteq> 0 then HardFault
      else if cfsr f AND 0x000000FF \<noteq> 0 then MemManage
      else if cfsr f AND 0x0000FF00 \<noteq> 0 then BusFault
      else if cfsr f AND 0xFFFF0000 \<noteq> 0 then UsageFault
      else NoFault)"

definition has_iaccviol :: "cortex_m_fault \<Rightarrow> bool" where "has_iaccviol f \<longleftrightarrow> cfsr f AND MMFSR_IACCVIOL \<noteq> 0"
definition has_daccviol :: "cortex_m_fault \<Rightarrow> bool" where "has_daccviol f \<longleftrightarrow> cfsr f AND MMFSR_DACCVIOL \<noteq> 0"
definition has_ibuserr :: "cortex_m_fault \<Rightarrow> bool" where "has_ibuserr f \<longleftrightarrow> cfsr f AND BFSR_IBUSERR \<noteq> 0"
definition has_preciserr :: "cortex_m_fault \<Rightarrow> bool" where "has_preciserr f \<longleftrightarrow> cfsr f AND BFSR_PRECISERR \<noteq> 0"
definition has_impreciserr :: "cortex_m_fault \<Rightarrow> bool" where "has_impreciserr f \<longleftrightarrow> cfsr f AND BFSR_IMPRECISERR \<noteq> 0"
definition has_undefinstr :: "cortex_m_fault \<Rightarrow> bool" where "has_undefinstr f \<longleftrightarrow> cfsr f AND UFSR_UNDEFINSTR \<noteq> 0"
definition has_invstate :: "cortex_m_fault \<Rightarrow> bool" where "has_invstate f \<longleftrightarrow> cfsr f AND UFSR_INVSTATE \<noteq> 0"
definition has_divbyzero :: "cortex_m_fault \<Rightarrow> bool" where "has_divbyzero f \<longleftrightarrow> cfsr f AND UFSR_DIVBYZERO \<noteq> 0"
definition has_unaligned :: "cortex_m_fault \<Rightarrow> bool" where "has_unaligned f \<longleftrightarrow> cfsr f AND UFSR_UNALIGNED \<noteq> 0"
definition has_stkof :: "cortex_m_fault \<Rightarrow> bool" where "has_stkof f \<longleftrightarrow> cfsr f AND UFSR_STKOF \<noteq> 0"

section \<open>Fatal errors (src/fatal.rs)\<close>

datatype fatal_reason = CpuException | SpuriousIrq | StackCheckFail | KernelOops | KernelPanic

datatype fatal_context = ThreadContext | IsrContext

datatype fatal_recovery_action = AbortThread | Halt | Ignore

record fatal_error =
  fe_reason :: fatal_reason
  fe_context :: fatal_context
  fe_test_mode :: bool

definition fatal_classify :: "fatal_error \<Rightarrow> fatal_recovery_action" where
  "fatal_classify e =
     (if fe_reason e = KernelPanic then Halt
      else if \<not> fe_test_mode e then
        (case fe_reason e of
           KernelPanic \<Rightarrow> Halt
         | CpuException \<Rightarrow> (case fe_context e of IsrContext \<Rightarrow> Halt | ThreadContext \<Rightarrow> AbortThread)
         | SpuriousIrq \<Rightarrow> (case fe_context e of IsrContext \<Rightarrow> Halt | ThreadContext \<Rightarrow> AbortThread)
         | StackCheckFail \<Rightarrow> AbortThread
         | KernelOops \<Rightarrow> (case fe_context e of IsrContext \<Rightarrow> Halt | ThreadContext \<Rightarrow> AbortThread))
      else
        (case fe_context e of
           IsrContext \<Rightarrow>
             (case fe_reason e of
                SpuriousIrq \<Rightarrow> Ignore
              | StackCheckFail \<Rightarrow> AbortThread
              | CpuException \<Rightarrow> Ignore
              | KernelOops \<Rightarrow> Ignore
              | KernelPanic \<Rightarrow> Halt)
         | ThreadContext \<Rightarrow> AbortThread))"

definition fatal_from_code :: "u32 \<Rightarrow> fatal_reason option" where
  "fatal_from_code code =
     (if code = 0 then Some CpuException
      else if code = 1 then Some SpuriousIrq
      else if code = 2 then Some StackCheckFail
      else if code = 3 then Some KernelOops
      else if code = 4 then Some KernelPanic
      else None)"

definition fatal_reason_str :: "fatal_reason \<Rightarrow> string" where
  "fatal_reason_str r =
     (case r of
        CpuException \<Rightarrow> ''CPU exception''
      | SpuriousIrq \<Rightarrow> ''Unhandled interrupt''
      | StackCheckFail \<Rightarrow> ''Stack overflow''
      | KernelOops \<Rightarrow> ''Kernel oops''
      | KernelPanic \<Rightarrow> ''Kernel panic'')"

definition fatal_is_panic :: "fatal_error \<Rightarrow> bool" where
  "fatal_is_panic e \<longleftrightarrow> fe_reason e = KernelPanic"

definition fatal_is_isr :: "fatal_error \<Rightarrow> bool" where
  "fatal_is_isr e \<longleftrightarrow> fe_context e = IsrContext"

definition classify_decide :: "u32 \<Rightarrow> bool \<Rightarrow> bool \<Rightarrow> fatal_recovery_action result" where
  "classify_decide reason is_isr test_mode =
     (case fatal_from_code reason of
        Some r \<Rightarrow> Ok (fatal_classify \<lparr>fe_reason = r, fe_context = (if is_isr then IsrContext else ThreadContext), fe_test_mode = test_mode\<rparr>)
      | None \<Rightarrow> Err EINVAL)"

text \<open>The exported decision: an action byte (0 abort the thread, 1 halt, 2 ignore) and a code.\<close>

definition gale_k_fatal_decide :: "u32 \<Rightarrow> u32 \<Rightarrow> u32 \<Rightarrow> u8 \<times> i32" where
  "gale_k_fatal_decide reason is_isr test_mode =
     (case classify_decide reason (is_isr \<noteq> 0) (test_mode \<noteq> 0) of
        Ok action \<Rightarrow> (case action of AbortThread \<Rightarrow> 0 | Halt \<Rightarrow> 1 | Ignore \<Rightarrow> 2, 0)
      | Err e \<Rightarrow> (1, e))"

definition gale_fatal_classify :: "u32 \<Rightarrow> u32 \<Rightarrow> u32 \<Rightarrow> i32" where
  "gale_fatal_classify reason is_isr test_mode =
     (let d = gale_k_fatal_decide reason is_isr test_mode
      in if snd d \<noteq> 0 then snd d else int (unat (fst d)))"

text \<open>
  The C shim (zephyr/gale_fatal.c): what becomes of the system when z_fatal_error runs. The
  fatal error handler may be replaced by the application: handler_returns says whether it
  comes back (the default one halts). nested is the test of a nested exception, which only
  some architectures have. A failing __ASSERT, where assertions are on, is a panic.
\<close>

record fatal_config =
  fc_multithreading :: bool
  fc_test :: bool
  fc_nested_detection :: bool
  fc_stack_sentinel :: bool
  fc_assert :: bool

datatype fatal_outcome = System_halted | Error_ignored | Thread_aborted | No_thread

definition z_fatal_error :: "fatal_config \<Rightarrow> bool \<Rightarrow> bool \<Rightarrow> u32 \<Rightarrow> fatal_outcome run" where
  "z_fatal_error c handler_returns nested reason =
     (if \<not> handler_returns then Ret System_halted
      else
        let is_isr = (if fc_nested_detection c \<and> nested then 1 else 0);
            test_mode = (if fc_test c then 1 else 0);
            d = gale_k_fatal_decide reason is_isr test_mode
        in do {
          ok \<leftarrow> (if fst d = 1 \<and> \<not> fc_test c then do {
                   _ \<leftarrow> (if fc_assert c \<and> reason = 4 then Panic else Ret ());
                   (if fc_nested_detection c \<and> is_isr \<noteq> 0 \<and> fc_stack_sentinel c \<and> reason \<noteq> 2 \<and> fc_assert c
                    then Panic else Ret ())
                 } else Ret ());
          Ret (if fst d = 2 then Error_ignored
               else if fc_multithreading c then Thread_aborted else No_thread)
        })"

section \<open>The system tick (src/systick.rs)\<close>

definition SYSTICK_MAX_LOAD :: u32 where
  "SYSTICK_MAX_LOAD = 0x00FFFFFF"

definition systick_elapsed_cycles :: "u32 \<Rightarrow> u32 \<Rightarrow> u32 \<Rightarrow> u32 run" where
  "systick_elapsed_cycles last_count current_count load =
     (if last_count \<ge> current_count then sub_chk last_count current_count
      else do { d \<leftarrow> sub_chk load current_count; add_chk last_count d })"

definition cycles_to_ticks :: "u64 \<Rightarrow> u32 \<Rightarrow> u64 option" where
  "cycles_to_ticks cycles cycles_per_tick =
     (if cycles_per_tick = 0 then None else Some (cycles div ucast cycles_per_tick))"

definition ticks_to_cycles :: "u64 \<Rightarrow> u32 \<Rightarrow> u64 option run" where
  "ticks_to_cycles ticks cycles_per_tick =
     (if cycles_per_tick = 0 then Ret (Some 0)
      else
        let cpt = ucast cycles_per_tick
        in if ticks > u64_max div cpt then Ret None
           else do { c \<leftarrow> mul_chk ticks cpt; Ret (Some c) })"

definition max_ticks :: "u32 \<Rightarrow> u32 option run" where
  "max_ticks cycles_per_tick =
     (if cycles_per_tick = 0 then Ret None
      else
        let quotient = SYSTICK_MAX_LOAD div cycles_per_tick
        in if quotient = 0 then Ret (Some 0)
           else do { q \<leftarrow> sub_chk quotient 1; Ret (Some q) })"

record elapsed_decide_result =
  ed_wrap_detected :: bool
  ed_new_overflow_cyc :: u32
  ed_elapsed :: u32

definition elapsed_decide :: "u32 \<Rightarrow> u32 \<Rightarrow> bool \<Rightarrow> u32 \<Rightarrow> u32 \<Rightarrow> elapsed_decide_result run" where
  "elapsed_decide val1 val2 countflag load overflow_cyc = do {
     let wrap = (countflag \<or> val1 < val2);
     new_overflow \<leftarrow> (if wrap then add_chk overflow_cyc load else Ret overflow_cyc);
     base \<leftarrow> sub_chk load val2;
     elapsed \<leftarrow> add_chk base new_overflow;
     Ret \<lparr>ed_wrap_detected = wrap, ed_new_overflow_cyc = new_overflow, ed_elapsed = elapsed\<rparr>
   }"

record systick_announce =
  an_dticks :: u32
  an_new_cycle_count :: u64
  an_new_announced_cycles :: u64

text \<open>A division by zero is a panic.\<close>

definition systick_announce_decide :: "u64 \<Rightarrow> u64 \<Rightarrow> u32 \<Rightarrow> u32 \<Rightarrow> systick_announce option run" where
  "systick_announce_decide cycle_count announced_cycles overflow_cyc cycles_per_tick = do {
     new_cc \<leftarrow> add_chk cycle_count (ucast overflow_cyc);
     dcycles \<leftarrow> sub_chk new_cc announced_cycles;
     let cpt = (ucast cycles_per_tick :: u64);
     dticks \<leftarrow> (if cpt = 0 then Panic else Ret (dcycles div cpt));
     announced_add \<leftarrow> mul_chk dticks cpt;
     new_announced \<leftarrow> add_chk announced_cycles announced_add;
     Ret (if dticks > ucast u32_max then None
          else Some \<lparr>an_dticks = ucast dticks, an_new_cycle_count = new_cc, an_new_announced_cycles = new_announced\<rparr>)
   }"

section \<open>Stack areas (src/stack_config.rs)\<close>

record stack_config =
  sk_base :: u32
  sk_size :: u32
  sk_guard_size :: u32
  sk_alignment :: u32

definition stack_validate :: "u32 \<Rightarrow> u32 \<Rightarrow> u32 \<Rightarrow> u32 \<Rightarrow> stack_config result run" where
  "stack_validate base sz guard_size alignment =
     (if alignment = 0 \<or> alignment AND (alignment - 1) \<noteq> 0 then Ret (Err EINVAL)
      else if sz = 0 \<or> sz mod alignment \<noteq> 0 then Ret (Err EINVAL)
      else if guard_size \<ge> sz then Ret (Err EINVAL)
      else do {
        limit \<leftarrow> sub_chk u32_max sz;
        if base > limit then Ret (Err EINVAL)
        else Ret (Ok \<lparr>sk_base = base, sk_size = sz, sk_guard_size = guard_size, sk_alignment = alignment\<rparr>)
      })"

definition stack_config_inv :: "stack_config \<Rightarrow> bool" where
  "stack_config_inv c \<longleftrightarrow> is_power_of_two (sk_alignment c) \<and> sk_size c > 0 \<and> sk_size c mod sk_alignment c = 0 \<and>
     sk_guard_size c \<le> sk_size c \<and> unat (sk_base c) + unat (sk_size c) \<le> unat u32_max \<and> sk_guard_size c < sk_size c"

definition usable_size :: "stack_config \<Rightarrow> u32 run" where
  "usable_size c = sub_chk (sk_size c) (sk_guard_size c)"

definition stack_top :: "stack_config \<Rightarrow> u32 run" where
  "stack_top c = add_chk (sk_base c) (sk_size c)"

definition usable_start :: "stack_config \<Rightarrow> u32 run" where
  "usable_start c = add_chk (sk_base c) (sk_guard_size c)"

definition is_valid_sp :: "stack_config \<Rightarrow> u32 \<Rightarrow> bool run" where
  "is_valid_sp c sp = do {
     lo \<leftarrow> add_chk (sk_base c) (sk_guard_size c);
     if sp \<ge> lo then do { hi \<leftarrow> add_chk (sk_base c) (sk_size c); Ret (sp \<le> hi) } else Ret False
   }"

definition is_in_guard :: "stack_config \<Rightarrow> u32 \<Rightarrow> bool run" where
  "is_in_guard c sp =
     (if sp \<ge> sk_base c then do { hi \<leftarrow> add_chk (sk_base c) (sk_guard_size c); Ret (sp < hi) } else Ret False)"

section \<open>Device initialisation (src/device_init.rs)\<close>

definition MAX_DEVICES :: u32 where
  "MAX_DEVICES = 64"

datatype init_level = Early | PreKernel1 | PreKernel2 | PostKernel | Application | SmpLevel

fun level_to_u8 :: "init_level \<Rightarrow> u8" where
  "level_to_u8 Early = 0"
| "level_to_u8 PreKernel1 = 1"
| "level_to_u8 PreKernel2 = 2"
| "level_to_u8 PostKernel = 3"
| "level_to_u8 Application = 4"
| "level_to_u8 SmpLevel = 5"

definition level_from_u8 :: "u8 \<Rightarrow> init_level option" where
  "level_from_u8 code =
     (if code = 0 then Some Early
      else if code = 1 then Some PreKernel1
      else if code = 2 then Some PreKernel2
      else if code = 3 then Some PostKernel
      else if code = 4 then Some Application
      else if code = 5 then Some SmpLevel
      else None)"

record device_entry =
  de_id :: u32
  de_level :: init_level
  de_priority :: u8
  de_num_deps :: u32
  de_deps :: "u32 list"
  de_initialized :: bool
  de_init_res :: u8

record device_init_state =
  ds_current_level :: u8
  ds_num_initialized :: u32
  ds_total_devices :: u32

definition device_state_init :: "u32 \<Rightarrow> device_init_state result" where
  "device_state_init total_devices =
     (if total_devices > MAX_DEVICES then Err EINVAL
      else Ok \<lparr>ds_current_level = 0, ds_num_initialized = 0, ds_total_devices = total_devices\<rparr>)"

definition device_state_inv :: "device_init_state \<Rightarrow> bool" where
  "device_state_inv s \<longleftrightarrow> ds_current_level s \<le> 5 \<and> ds_num_initialized s \<le> ds_total_devices s \<and>
     ds_total_devices s \<le> MAX_DEVICES"

definition init_device :: "device_init_state \<Rightarrow> device_entry \<Rightarrow> bool \<Rightarrow> (i32 \<times> device_init_state \<times> device_entry) run" where
  "init_device s dev success =
     (if de_initialized dev then Ret (EBUSY, s, dev)
      else if level_to_u8 (de_level dev) < ds_current_level s then Ret (EINVAL, s, dev)
      else if ds_num_initialized s \<ge> ds_total_devices s then Ret (EINVAL, s, dev)
      else do {
        let dev = dev\<lparr>de_initialized := True, de_init_res := (if \<not> success then 1 else 0)\<rparr>;
        n \<leftarrow> add_chk (ds_num_initialized s) 1;
        Ret (if success then OK_code else EINVAL, s\<lparr>ds_num_initialized := n\<rparr>, dev)
      })"

definition advance_level :: "device_init_state \<Rightarrow> (i32 \<times> device_init_state) run" where
  "advance_level s =
     (if ds_current_level s < 5 then do {
        l \<leftarrow> add_chk (ds_current_level s) 1;
        Ret (OK_code, s\<lparr>ds_current_level := l\<rparr>)
      } else Ret (EINVAL, s))"

function check_deps_from :: "nat \<Rightarrow> device_entry \<Rightarrow> device_entry list \<Rightarrow> bool run" where
  "check_deps_from i dev devices =
     (if i < unat (de_num_deps dev) then do {
        dep_id \<leftarrow> arr_get (de_deps dev) i;
        if unat dep_id < length devices then do {
          d \<leftarrow> arr_get devices (unat dep_id);
          if \<not> de_initialized d \<or> de_init_res d \<noteq> 0 then Ret False
          else check_deps_from (i + 1) dev devices
        } else Ret False
      } else Ret True)"
  by auto
termination
  by (relation "measure (\<lambda>(i, dev, _). unat (de_num_deps dev) - i)") auto

declare check_deps_from.simps [simp del]

definition check_deps_satisfied :: "device_entry \<Rightarrow> device_entry list \<Rightarrow> bool run" where
  "check_deps_satisfied dev devices = check_deps_from 0 dev devices"

definition is_device_ready :: "device_entry \<Rightarrow> bool" where
  "is_device_ready dev \<longleftrightarrow> de_initialized dev \<and> de_init_res dev = 0"

definition all_initialized :: "device_init_state \<Rightarrow> bool" where
  "all_initialized s \<longleftrightarrow> ds_num_initialized s = ds_total_devices s"

section \<open>Fault classes\<close>

lemma field_nonzero: "w AND push_bit a (mask n) \<noteq> 0 \<longleftrightarrow> (\<exists>i. a \<le> i \<and> i < a + n \<and> bit w i)" for w :: u32
proof
  assume "w AND push_bit a (mask n) \<noteq> 0"
  then obtain i where "bit (w AND push_bit a (mask n)) i" by (metis bit_0_eq bit_eqI bot_apply bot_bool_def)
  then have "a \<le> i \<and> i < a + n \<and> bit w i" by (auto simp: bit_simps)
  then show "\<exists>i. a \<le> i \<and> i < a + n \<and> bit w i" ..
next
  assume "\<exists>i. a \<le> i \<and> i < a + n \<and> bit w i"
  then obtain i where "a \<le> i" "i < a + n" "bit w i" by blast
  moreover have "i < 32" using \<open>bit w i\<close> bit_imp_le_length by fastforce
  ultimately have "bit (w AND push_bit a (mask n)) i" by (auto simp: bit_simps)
  then show "w AND push_bit a (mask n) \<noteq> 0" by auto
qed

lemma status_fields:
  "w AND 0x000000FF \<noteq> 0 \<longleftrightarrow> (\<exists>i<8. bit w i)" "w AND 0x0000FF00 \<noteq> 0 \<longleftrightarrow> (\<exists>i. 8 \<le> i \<and> i < 16 \<and> bit w i)"
  "w AND 0xFFFF0000 \<noteq> 0 \<longleftrightarrow> (\<exists>i. 16 \<le> i \<and> bit w i)" for w :: u32
proof -
  have c: "push_bit 0 (mask 8) = (0x000000FF :: u32)" "push_bit 8 (mask 8) = (0x0000FF00 :: u32)" "push_bit 16 (mask 16) = (0xFFFF0000 :: u32)"
    by (simp_all add: mask_eq_exp_minus_1 push_bit_eq_mult)
  show "w AND 0x000000FF \<noteq> 0 \<longleftrightarrow> (\<exists>i<8. bit w i)" using field_nonzero [of w 0 8] unfolding c by simp
  show "w AND 0x0000FF00 \<noteq> 0 \<longleftrightarrow> (\<exists>i. 8 \<le> i \<and> i < 16 \<and> bit w i)" using field_nonzero [of w 8 8] unfolding c by simp
  have "i < 32" if "bit w i" for i using that bit_imp_le_length by fastforce
  then show "w AND 0xFFFF0000 \<noteq> 0 \<longleftrightarrow> (\<exists>i. 16 \<le> i \<and> bit w i)" using field_nonzero [of w 16 16] unfolding c by auto
qed

lemma flag_nonzero: "w AND push_bit i 1 \<noteq> 0 \<longleftrightarrow> bit w i" for w :: u32
  by (simp add: push_bit_eq_mult and_exp_eq_0_iff_not_bit)

text \<open>
  C39: Every fault has exactly one class, determined by the flag numbers of the two status
  registers: a hard fault by one of three flags of HFSR; otherwise memory management by
  flags 0 to 7 of CFSR before bus faults by flags 8 to 15 before usage faults by the
  upper half, and no fault when CFSR is zero. The three parts of CFSR partition it, and a
  reported fault address is the register content exactly when its valid flag is set.
\<close>

theorem fault_classes_exact:
  "(let hard = (bit (hfsr f) 30 \<or> bit (hfsr f) 1 \<or> bit (hfsr f) 31); mm = (\<exists>i<8. bit (cfsr f) i);
        bus = (\<exists>i. 8 \<le> i \<and> i < 16 \<and> bit (cfsr f) i) in
     (fault_classify f = HardFault \<longleftrightarrow> hard) \<and>
     (fault_classify f = MemManage \<longleftrightarrow> \<not> hard \<and> mm) \<and>
     (fault_classify f = BusFault \<longleftrightarrow> \<not> hard \<and> \<not> mm \<and> bus) \<and>
     (fault_classify f = UsageFault \<longleftrightarrow> \<not> hard \<and> \<not> mm \<and> \<not> bus \<and> cfsr f \<noteq> 0) \<and>
     (fault_classify f = NoFault \<longleftrightarrow> \<not> hard \<and> cfsr f = 0)) \<and>
   mmfsr f OR bfsr f OR ufsr f = cfsr f \<and> mmfsr f AND bfsr f = 0 \<and> mmfsr f AND ufsr f = 0 \<and> bfsr f AND ufsr f = 0 \<and>
   mmfar_checked f = (if bit (cfsr f) 7 then Some (mmfar f) else None) \<and>
   bfar_checked f = (if bit (cfsr f) 15 then Some (bfar f) else None)"
proof -
  let ?mm = "\<exists>i<8. bit (cfsr f) i" and ?bus = "\<exists>i. 8 \<le> i \<and> i < 16 \<and> bit (cfsr f) i" and ?us = "\<exists>i. 16 \<le> i \<and> bit (cfsr f) i"
  have zero: "cfsr f = 0 \<longleftrightarrow> \<not> ?mm \<and> \<not> ?bus \<and> \<not> ?us"
  proof
    assume none: "\<not> ?mm \<and> \<not> ?bus \<and> \<not> ?us"
    show "cfsr f = 0"
    proof (rule bit_eqI)
      fix i show "bit (cfsr f) i \<longleftrightarrow> bit 0 i" using none by (cases "i < 8"; cases "i < 16") auto
    qed
  qed auto
  have cls: "fault_classify f =
      (if bit (hfsr f) 30 \<or> bit (hfsr f) 1 \<or> bit (hfsr f) 31 then HardFault
       else if ?mm then MemManage else if ?bus then BusFault else if ?us then UsageFault else NoFault)"
    unfolding fault_classify_def HFSR_FORCED_def HFSR_VECTTBL_def HFSR_DEBUGEVT_def flag_nonzero status_fields ..
  have "mmfsr f OR bfsr f OR ufsr f = cfsr f AND (0x000000FF OR 0x0000FF00 OR 0xFFFF0000)"
    unfolding mmfsr_def bfsr_def ufsr_def by (simp only: bit.conj_disj_distrib)
  moreover have "(0x000000FF OR 0x0000FF00 OR 0xFFFF0000 :: u32) = mask LENGTH(32)" by (simp add: mask_eq_exp_minus_1)
  ultimately have "mmfsr f OR bfsr f OR ufsr f = cfsr f" by (simp only: take_bit_length_eq flip: take_bit_eq_mask)
  moreover have both: "(a AND m) AND (a AND n) = a AND (m AND n)" for a m n :: u32
    by (rule bit_eqI) (auto simp: bit_and_iff)
  have "mmfsr f AND bfsr f = 0 \<and> mmfsr f AND ufsr f = 0 \<and> bfsr f AND ufsr f = 0"
    unfolding mmfsr_def bfsr_def ufsr_def both by simp
  moreover have "mmfar_checked f = (if bit (cfsr f) 7 then Some (mmfar f) else None) \<and>
      bfar_checked f = (if bit (cfsr f) 15 then Some (bfar f) else None)"
    unfolding mmfar_checked_def bfar_checked_def MMFSR_MMARVALID_def BFSR_BFARVALID_def flag_nonzero by simp
  ultimately show ?thesis using zero unfolding cls Let_def by auto
qed

section \<open>Stacks\<close>

lemma stack_validate_iff:
  fixes b sz g a :: u32
  defines "c \<equiv> \<lparr>sk_base = b, sk_size = sz, sk_guard_size = g, sk_alignment = a\<rparr>"
  shows "stack_validate b sz g a = Some (if stack_config_inv c then Inr c else Inl EINVAL)"
proof -
  obtain l where l: "sub_chk u32_max sz = Some l" "unat l = 4294967295 - unat sz"
    using sub_chk_ex [of sz u32_max] unat_u32_less [of sz] by auto
  have base: "b > l \<longleftrightarrow> \<not> unat b + unat sz \<le> unat u32_max"
    using l(2) unat_u32_less [of sz] by (simp add: word_less_nat_alt) linarith
  have pow: "is_power_of_two a \<longleftrightarrow> \<not> (a = 0 \<or> a AND (a - 1) \<noteq> 0)" by (auto simp: is_power_of_two_def word_gt_0)
  have sz: "sz > 0 \<longleftrightarrow> sz \<noteq> 0" by (auto simp: word_gt_0)
  have guard: "g \<le> sz \<and> Q \<and> g < sz \<longleftrightarrow> \<not> g \<ge> sz \<and> Q" for Q by auto
  have inv: "stack_config_inv c \<longleftrightarrow> \<not> (a = 0 \<or> a AND (a - 1) \<noteq> 0) \<and> \<not> (sz = 0 \<or> sz mod a \<noteq> 0) \<and> \<not> g \<ge> sz \<and> \<not> b > l"
    unfolding stack_config_inv_def c_def stack_config.simps pow sz base guard by blast
  show ?thesis unfolding stack_validate_def l(1) bind.bind_lunit c_def [symmetric] inv
    by (cases "a = 0 \<or> a AND (a - 1) \<noteq> 0"; cases "sz = 0 \<or> sz mod a \<noteq> 0"; cases "g \<ge> sz"; cases "b > l") (simp_all only: if_True if_False simp_thms)
qed

text \<open>The guard and the usable area do not overlap and together are the whole stack.\<close>

lemma stack_regions:
  assumes "stack_config_inv c"
  shows "\<exists>v g. is_valid_sp c sp = Some v \<and> is_in_guard c sp = Some g \<and> \<not> (v \<and> g) \<and>
    (v \<or> g \<longleftrightarrow> unat (sk_base c) \<le> unat sp \<and> unat sp \<le> unat (sk_base c) + unat (sk_size c))"
proof -
  have b: "unat (sk_base c) + unat (sk_size c) < 2 ^ LENGTH(32)" "unat (sk_base c) + unat (sk_guard_size c) < 2 ^ LENGTH(32)"
    "unat (sk_guard_size c) < unat (sk_size c)"
    using assms by (auto simp: stack_config_inv_def word_less_nat_alt)
  obtain hi where hi: "add_chk (sk_base c) (sk_size c) = Some hi" "unat hi = unat (sk_base c) + unat (sk_size c)"
    using add_chk_ex [OF b(1)] by blast
  obtain lo where lo: "add_chk (sk_base c) (sk_guard_size c) = Some lo" "unat lo = unat (sk_base c) + unat (sk_guard_size c)"
    using add_chk_ex [OF b(2)] by blast
  show ?thesis
    using hi lo b(3) by (auto simp: is_valid_sp_def is_in_guard_def word_le_nat_alt word_less_nat_alt)
qed

section \<open>Ticks\<close>

text \<open>
  The announcements of a sequence of tick interrupts, each with the cycles since the last
  one: the ticks of each announcement and the final counters.
\<close>

fun systick_run :: "u32 \<Rightarrow> u32 list \<Rightarrow> u64 \<Rightarrow> u64 \<Rightarrow> (u32 list \<times> u64 \<times> u64) option run" where
  "systick_run cpt [] cc ann = Ret (Some ([], cc, ann))"
| "systick_run cpt (ov # ovs) cc ann = do {
     r \<leftarrow> systick_announce_decide cc ann ov cpt;
     (case r of
        None \<Rightarrow> Ret None
      | Some a \<Rightarrow> do {
          rest \<leftarrow> systick_run cpt ovs (an_new_cycle_count a) (an_new_announced_cycles a);
          Ret (case rest of None \<Rightarrow> None | Some (ts, cc, ann) \<Rightarrow> Some (an_dticks a # ts, cc, ann))
        })
   }"

lemma div_step:
  fixes c d k :: nat
  assumes "0 < c"
  shows "(d + k) div c = d div c + (d + k - d div c * c) div c" and "(d + k - d div c * c) div c \<le> k"
proof -
  have r: "d + k - d div c * c = d mod c + k" by (metis add.commute add_diff_assoc minus_div_mult_eq_mod div_times_less_eq_dividend)
  have "d + k = (d mod c + k) + d div c * c" using div_mult_mod_eq [of d c] by linarith
  then show "(d + k) div c = d div c + (d + k - d div c * c) div c"
    unfolding r by (metis add.commute assms div_mult_self1 less_numeral_extra(3))
  have "d mod c + k \<le> (c - 1) + k * c"
    using assms mod_less_divisor [OF assms, of d] by (intro add_mono) auto
  then have "(d mod c + k) div c \<le> ((c - 1) + k * c) div c" by (rule div_le_mono)
  also have "\<dots> = k" using assms by (simp only: div_mult_self1) (simp add: div_less)
  finally show "(d + k - d div c * c) div c \<le> k" unfolding r .
qed

lemma systick_announce_step:
  assumes "cpt \<noteq> 0" and "unat ann = unat cc div unat cpt * unat cpt" and "unat cc + unat ov < 2 ^ 64"
  shows "\<exists>a. systick_announce_decide cc ann ov cpt = Some (Some a) \<and> unat (an_new_cycle_count a) = unat cc + unat ov \<and>
    unat (an_dticks a) + unat cc div unat cpt = (unat cc + unat ov) div unat cpt \<and>
    unat (an_new_announced_cycles a) = (unat cc + unat ov) div unat cpt * unat cpt"
proof -
  let ?c = "unat cpt" and ?d = "unat cc" and ?k = "unat ov"
  have c: "0 < ?c" using assms(1) by (simp add: unat_gt_0)
  note step = div_step [OF c, of ?d ?k]
  obtain n where n: "add_chk cc (ucast ov) = Some n" "unat n = ?d + ?k" using add_chk_ex [of cc "ucast ov"] assms(3) by auto
  have le: "unat ann \<le> ?d + ?k" using assms(2) div_times_less_eq_dividend [of ?d ?c] by linarith
  obtain d where d: "sub_chk n ann = Some d" "unat d = ?d + ?k - unat ann" using sub_chk_ex [of ann n] le n(2) by auto
  define t where "t = d div (ucast cpt :: u64)"
  have t: "unat t = (?d + ?k - ?d div ?c * ?c) div ?c" by (simp add: t_def unat_div d(2) assms(2))
  have tk: "unat t \<le> ?k" using step(2) t by simp
  have prod: "unat t * ?c \<le> unat d" by (simp add: t_def unat_div div_times_less_eq_dividend)
  then have "unat t * ?c < 2 ^ 64" using unat_u64_less [of d] by simp
  then obtain m where m: "mul_chk t (ucast cpt) = Some m" "unat m = unat t * ?c"
    using mul_chk_nat [of t "ucast cpt"] by (auto simp: mul_chk_def unat_word_ariths)
  have sum: "unat ann + unat m = (?d + ?k) div ?c * ?c"
    by (simp only: assms(2) m(2) t step(1)) (simp add: add_mult_distrib)
  moreover have "(?d + ?k) div ?c * ?c \<le> ?d + ?k" by (rule div_times_less_eq_dividend)
  ultimately have "unat ann + unat m < 2 ^ 64" using assms(3) by linarith
  then have "unat ann + unat m < 2 ^ LENGTH(64)" by simp
  then obtain z where z: "add_chk ann m = Some z" "unat z = unat ann + unat m" using add_chk_ex by blast
  have "\<not> t > ucast u32_max" using tk unat_u32_less [of ov] by (simp add: word_less_nat_alt)
  moreover have "(ucast cpt :: u64) \<noteq> 0" using c by (metis unat_0 unat_ucast_u64 less_numeral_extra(3))
  ultimately have "systick_announce_decide cc ann ov cpt =
      Some (Some \<lparr>an_dticks = ucast t, an_new_cycle_count = n, an_new_announced_cycles = z\<rparr>)"
    using n(1) d(1) m(1) z(1) by (simp add: systick_announce_decide_def t_def [symmetric])
  moreover have "unat (ucast t :: u32) = unat t" using tk unat_u32_less [of ov] by (intro unat_ucast_u32) simp
  ultimately show ?thesis using n(2) z(2) sum t step(1) by auto
qed

lemma systick_run_exact:
  assumes "cpt \<noteq> 0" and "unat ann = unat cc div unat cpt * unat cpt" and "unat cc + sum_list (map unat ovs) < 2 ^ 64"
  shows "\<exists>ts cc' ann'. systick_run cpt ovs cc ann = Some (Some (ts, cc', ann')) \<and> unat cc' = unat cc + sum_list (map unat ovs) \<and>
    sum_list (map unat ts) + unat cc div unat cpt = unat cc' div unat cpt \<and> unat ann' = unat cc' div unat cpt * unat cpt"
  using assms(2,3)
proof (induction ovs arbitrary: cc ann)
  case Nil
  then show ?case by simp
next
  case (Cons ov ovs)
  then obtain a where a: "systick_announce_decide cc ann ov cpt = Some (Some a)" "unat (an_new_cycle_count a) = unat cc + unat ov"
      "unat (an_dticks a) + unat cc div unat cpt = (unat cc + unat ov) div unat cpt"
      "unat (an_new_announced_cycles a) = (unat cc + unat ov) div unat cpt * unat cpt"
    using systick_announce_step [OF assms(1) Cons.prems(1), of ov] by auto
  obtain ts cc' ann' where r: "systick_run cpt ovs (an_new_cycle_count a) (an_new_announced_cycles a) = Some (Some (ts, cc', ann'))"
      "unat cc' = unat (an_new_cycle_count a) + sum_list (map unat ovs)"
      "sum_list (map unat ts) + unat (an_new_cycle_count a) div unat cpt = unat cc' div unat cpt" "unat ann' = unat cc' div unat cpt * unat cpt"
    using Cons.IH [of "an_new_announced_cycles a" "an_new_cycle_count a"] Cons.prems(2) a(2,4) by auto
  then show ?case using a by simp
qed

text \<open>
  C40: The system tick does not drift. For every sequence of tick interrupts whose cycles add
  up to less than 2 to the 64, no announcement overflows or is refused, and the ticks
  announced in total are the whole ticks contained in the total of the cycles, however
  the cycles are divided between the interrupts; the cycles accounted for as announced are
  exactly those ticks.
\<close>

theorem systick_no_drift:
  assumes "cpt \<noteq> 0" and "sum_list (map unat ovs) < 2 ^ 64"
  shows "\<exists>ts cc ann. systick_run cpt ovs 0 0 = Some (Some (ts, cc, ann)) \<and> unat cc = sum_list (map unat ovs) \<and>
    sum_list (map unat ts) = sum_list (map unat ovs) div unat cpt \<and> unat ann = sum_list (map unat ts) * unat cpt"
  using systick_run_exact [OF assms(1), of 0 0 ovs] assms(2) by auto

theorem systick_no_drift_witness:
  "\<exists>ts cc ann. systick_run 10 [7, 7, 7] 0 0 = Some (Some (ts, cc, ann)) \<and> sum_list (map unat ts) = 2"
  using systick_no_drift [of 10 "[7, 7, 7]"] by auto

section \<open>Devices\<close>

text \<open>The devices are initialised in any order and the level is advanced in between.\<close>

inductive device_step :: "device_init_state \<times> device_entry list \<Rightarrow> device_init_state \<times> device_entry list \<Rightarrow> bool" where
  device_inits: "i < length devs \<Longrightarrow> init_device s (devs ! i) ok = Some (rc, s', d) \<Longrightarrow> device_step (s, devs) (s', devs[i := d])"
| device_advances: "advance_level s = Some (rc, s') \<Longrightarrow> device_step (s, devs) (s', devs)"

definition devices_done :: "device_entry list \<Rightarrow> nat set" where
  "devices_done devs = {i. i < length devs \<and> de_initialized (devs ! i)}"

lemma devices_done_finite [simp]: "finite (devices_done devs)"
  by (simp add: devices_done_def)

lemma devices_done_insert:
  assumes "i < length devs" and "de_initialized d"
  shows "devices_done (devs[i := d]) = insert i (devices_done devs)"
  using assms by (auto simp: devices_done_def nth_list_update)

lemma init_device_cases:
  assumes "init_device s dev ok = Some (rc, s', dev')"
  shows "s' = s \<and> dev' = dev \<or>
    \<not> de_initialized dev \<and> de_initialized dev' \<and> is_device_ready dev' = ok \<and> ds_current_level s \<le> level_to_u8 (de_level dev) \<and>
    unat (ds_num_initialized s') = unat (ds_num_initialized s) + 1 \<and> ds_num_initialized s < ds_total_devices s \<and>
    ds_total_devices s' = ds_total_devices s"
  using assms by (auto simp: init_device_def is_device_ready_def add_chk_nat split: if_splits Option.bind_splits)

definition devices_inv :: "nat \<Rightarrow> device_init_state \<times> device_entry list \<Rightarrow> bool" where
  "devices_inv n w \<longleftrightarrow> length (snd w) = n \<and> unat (ds_total_devices (fst w)) = n \<and>
     unat (ds_num_initialized (fst w)) = card (devices_done (snd w))"

lemma device_step_inv:
  assumes "device_step w w'" and "devices_inv n w"
  shows "devices_inv n w'"
  using assms(1)
proof cases
  case (device_inits i devs s ok rc s' d)
  from init_device_cases [OF device_inits(4)] show ?thesis
  proof (elim disjE conjE)
    assume "s' = s" "d = devs ! i"
    then show ?thesis using assms(2) device_inits by simp
  next
    assume a: "\<not> de_initialized (devs ! i)" "de_initialized d" "unat (ds_num_initialized s') = unat (ds_num_initialized s) + 1"
      "ds_total_devices s' = ds_total_devices s"
    then have "i \<notin> devices_done devs" by (simp add: devices_done_def)
    then show ?thesis using assms(2) device_inits a by (simp add: devices_inv_def devices_done_insert)
  qed
next
  case (device_advances s rc s' devs)
  then show ?thesis using assms(2)
    by (auto simp: devices_inv_def advance_level_def split: if_splits Option.bind_splits)
qed

text \<open>
  However the calls are ordered, the count is exact, so that the capacity check never
  refuses a device: one that is not initialised yet is refused exactly when its level has
  passed, and one that is initialised is never initialised again.
\<close>

lemma devices_init_once:
  assumes "device_step\<^sup>*\<^sup>* (s0, devs0) (s, devs)" and "device_state_init (of_nat (length devs0)) = Inr s0" and "length devs0 \<le> 64"
    and "devices_done devs0 = {}" and "i < length devs"
  shows "unat (ds_num_initialized s) = card (devices_done devs)"
    and "de_initialized (devs ! i) \<Longrightarrow> init_device s (devs ! i) ok = Some (EBUSY, s, devs ! i)"
    and "\<not> de_initialized (devs ! i) \<Longrightarrow> level_to_u8 (de_level (devs ! i)) \<ge> ds_current_level s \<Longrightarrow>
      \<exists>s' d. init_device s (devs ! i) ok = Some (if ok then OK_code else EINVAL, s', d) \<and> is_device_ready d = ok"
proof -
  have s0: "s0 = \<lparr>ds_current_level = 0, ds_num_initialized = 0, ds_total_devices = of_nat (length devs0)\<rparr>"
    using assms(2) by (simp add: device_state_init_def split: if_splits)
  have "unat (of_nat (length devs0) :: u32) = length devs0" using assms(3) by (simp add: unat_of_nat)
  then have "devices_inv (length devs0) (s0, devs0)" using assms(4) by (simp add: devices_inv_def s0)
  with assms(1) have inv: "devices_inv (length devs0) (s, devs)"
    by (induction "(s, devs)" arbitrary: s devs rule: rtranclp_induct) (auto intro: device_step_inv)
  then show "unat (ds_num_initialized s) = card (devices_done devs)" by (simp add: devices_inv_def)
  show "de_initialized (devs ! i) \<Longrightarrow> init_device s (devs ! i) ok = Some (EBUSY, s, devs ! i)" by (simp add: init_device_def)
  assume fresh: "\<not> de_initialized (devs ! i)" and level: "level_to_u8 (de_level (devs ! i)) \<ge> ds_current_level s"
  have "devices_done devs \<subseteq> {..<length devs} - {i}" using fresh by (auto simp: devices_done_def)
  then have "card (devices_done devs) \<le> card ({..<length devs} - {i})" by (intro card_mono) simp_all
  then have room: "ds_num_initialized s < ds_total_devices s"
    using inv assms(5) by (simp add: devices_inv_def word_less_nat_alt)
  then show "\<exists>s' d. init_device s (devs ! i) ok = Some (if ok then OK_code else EINVAL, s', d) \<and> is_device_ready d = ok"
    using fresh level leD [OF level] add_chk_one [OF room] by (simp add: init_device_def is_device_ready_def not_le [symmetric])
qed

text \<open>
  The level only has to have been reached or be still ahead: a device of the last level can
  be initialised first, and one of an earlier level after it.
\<close>

lemma init_not_in_level_order:
  assumes "devs = map (\<lambda>l. \<lparr>de_id = 0, de_level = l, de_priority = 0, de_num_deps = 0, de_deps = replicate 8 0,
      de_initialized = False, de_init_res = 0\<rparr>) [Application, Early]"
  shows "\<exists>s0 s1 s2 d1 d2. device_state_init 2 = Inr s0 \<and> init_device s0 (devs ! 0) True = Some (0, s1, d1) \<and>
    init_device s1 (devs ! 1) True = Some (0, s2, d2)"
  by (simp add: assms device_state_init_def MAX_DEVICES_def init_device_def add_chk_def error_codes word_le_nat_alt)

text \<open>The dependency check is the conjunction over the listed dependencies.\<close>

lemma check_deps_iff:
  assumes "unat (de_num_deps dev) \<le> length (de_deps dev)"
  shows "check_deps_from i dev devices = Some (\<forall>k. i \<le> k \<and> k < unat (de_num_deps dev) \<longrightarrow>
     unat (de_deps dev ! k) < length devices \<and> is_device_ready (devices ! unat (de_deps dev ! k)))"
proof (induction i rule: upto_induct [where n = "unat (de_num_deps dev)"])
  case (stop i)
  then show ?case by (subst check_deps_from.simps) auto
next
  case (step i)
  then show ?case
    using assms by (subst check_deps_from.simps) (auto simp: arr_get_def is_device_ready_def all_from_Suc)
qed

end
