(* ===== verification/Spec2Isabelle.thy ===== *)
theory Spec2Isabelle
  imports Semaphore Mutex Condvar Sched Msgq Ring_Buf Counted Timing Pipe Executor
    Partition_Switch Mpu Mpu_Switch Switch_Probe Health_Monitor
    Heap Zms Userspace Mem_Domain Net_Buf Work Thread_Lifecycle Poll_Shim Mutex_Shim Sem_Shim
    Smp Msgq_Shim Futex Platform
begin

text \<open>
  A verification library for gale, a Rust implementation of the kernel primitives of the
  Zephyr real-time operating system, and for gust, a small operating system built on the
  same crate.

  \<^bold>\<open>The program.\<close> The crate src/src holds one module per kernel object. A module usually has
  two halves: an object with its operations (Semaphore::give), and pure decision functions
  (give_decide) that take the fields of a C structure and return what to do. The functions
  of ffi/src/lib.rs export the decisions to C, and the shims of zephyr/*.c apply them to the
  structures of Zephyr under a spin lock. The objects that block keep their waiters in the
  wait queue of src/wait_queue.rs; the scheduler chooses the next thread from a run queue of
  the same shape. gust adds an executor for asynchronous tasks, a partition switcher with a
  static time table, an isolation core that programs the memory protection unit at each
  switch, and a health monitor.

  \<^bold>\<open>How it is modelled.\<close> A struct is a record, an enum a datatype, a machine integer a word
  of its width; i32 results are integers. All profiles of the crate check overflow, so a
  definition that can panic returns an option, with \<^term>\<open>None\<close> for the panic (Gale_Base); the
  theorems say that it does not. A fallible call returns a sum, its error code on the left.
  Loops are recursive functions that follow the loop variable, with checked array accesses.
  Functions of Zephyr, hardware accesses and host functions are parameters of the
  definitions that call them; what is assumed of them is a premise of the theorem.

  \<^bold>\<open>Shared contracts.\<close>
  \<^item> Gale_Base: the panic monad, checked arithmetic, arrays, histories and runs.
  \<^item> Kernel_Thread: error.rs, priority.rs and thread.rs.
  \<^item> Slot_Array: the three array loops of the wait queue and the run queue.
  \<^item> Prio_Queue: the contract of a bounded priority queue, provided by Wait_Queue
    (wait_queue.rs) and Sched (sched.rs); it gives the stable service order.
  \<^item> Ring_Queue: the contract of an index ring, provided by Msgq (msgq.rs) and Ring_Buf
    (ring_buf.rs); it gives first-in first-out delivery for the caller's buffer.

  \<^bold>\<open>Kernel objects.\<close>
  \<^item> Semaphore (sem.rs): refinement to a number and a list of waiters, reachable states.
  \<^item> Mutex (mutex.rs): mutual exclusion over all call sequences, release of a nested lock.
  \<^item> Condvar (condvar.rs): a broadcast is the same as repeated signals.
  \<^item> Sched (sched.rs): run queue order, the choice on one CPU and on several, thread states.
  \<^item> Msgq, Ring_Buf: list views, bulk transfers, free-running counters that wrap.
  \<^item> Counted (stack.rs, fifo.rs, lifo.rs, queue.rs, mem_slab.rs): five providers of one
    contract of bounded counters.
  \<^item> Timing (event.rs, timer.rs, timeout.rs, timeslice.rs): flag sets, firing over sequences
    of ticks.
  \<^item> Pipe (pipe.rs), Heap (heap.rs), Zms (zms.rs), Net_Buf (net_buf.rs): accounts that
    balance over any sequence of calls.
  \<^item> Userspace (userspace.rs), Mem_Domain (mem_domain.rs): who passes validation; the
    collection of partitions.
  \<^item> Thread_Lifecycle (thread_lifecycle.rs), Work (work.rs and gale_work.c), Poll (poll.rs).

  \<^bold>\<open>Shims with interleaving.\<close> Poll_Shim (gale_poll.c), Mutex_Shim (gale_mutex.c) and Sem_Shim
  (gale_sem.c) model the C functions above the exported decisions as step relations between
  threads; the sections under the lock are the atomic steps. They show that a readiness
  notification is never lost, that an owner runs at the priority of its best waiter, and
  that a free semaphore has no waiter. Msgq_Shim (gale_msgq.c) has the bytes of the buffer
  and the blocked readers and writers: messages arrive in order and none is lost, as long
  as no put meets a full queue with a blocked writer; what happens then is shown too.
  Futex (futex.rs and gale_futex.c) shows that no wake-up is lost between threads that
  store and wake and threads that wait.

  \<^bold>\<open>Multiprocessing.\<close> Smp (spinlock.rs, spinlock_validate.rs, smp_state.rs, cpu_mask.rs, ipi.rs
  and their shims): exclusion and nesting of the spin lock, exact owner tags, the bounded
  count of active CPUs, and interrupts only to the CPU that a thread is pinned to.

  \<^bold>\<open>Platform.\<close> Platform (fault_decode.rs, fatal.rs and gale_fatal.c, systick.rs, stack_config.rs,
  device_init.rs): the class of every fault, ticks without drift, stack areas, devices that
  are initialised once.

  \<^bold>\<open>gust.\<close>
  \<^item> Executor (executor.rs): the poll loop drains, a wake is not lost, expiry is exact.
  \<^item> Partition_Switch (partition_switch.rs): the time line of a frame, the order of a switch.
  \<^item> Mpu (mpu.rs), Mpu_Switch (mpu_switch.rs): region validity as sets of addresses, the
    builder's invariant, the register program of a switch.
  \<^item> Switch_Probe (benches/gust/src/bin/gust_switch_probe.rs): the composition of both, so that
    at any time only the regions of the partition whose window it is are accessible.
  \<^item> Health_Monitor (health_monitor.rs): the gates, restart rate and escalation.

  \<^bold>\<open>Bounds and fuel.\<close> No definition uses fuel: every loop of the modelled code has a bound in
  its own variable. The bounds are those of the code (64 waiters, 64 ready threads, 8 tasks,
  4 partitions, 16 memory partitions).

  \<^bold>\<open>Not modelled.\<close> The modules atomic, cbprintf, dynamic, ipc, kheap, mbox, mempool, mmu, pm and
  usage of the crate, coarse.rs, and the C shims not named above; outside Msgq_Shim the bytes
  that the C side copies; system call wrappers, tracing and object core registration; code that only prints or touches hardware registers (the
  drivers and probes of benches/ apart from the switch demonstrator); build tools (tools/),
  tests, and the mirrors in plain/ that a tool generates from the crate. The components of
  the manifest list each part that is left out with the reason.
\<close>

end
